(* ===== verification/Prelude.thy ===== *)
theory Prelude
  imports Main "HOL-Library.Word"
begin

text \<open>
  Shared vocabulary of the development: machine integers and byte strings, the error values of
  the Go code, the model of \<open>os.File\<close>, little-endian field access, and the lemmas on lists and
  words that several components use.

  Go's \<open>uint64\<close> is \<open>64 word\<close>; \<open>int64\<close> is the same bit pattern read through \<open>sint\<close>, so that
  the conversions \<open>int64(x)\<close> and \<open>uint64(x)\<close> of the code are the identity.  A slice length is a
  natural number, \<open>uint64(len(b))\<close> is \<open>word_of_nat (length b)\<close>.
\<close>

unbundle bit_operations_syntax

named_theorems range_simps \<open>membership of a byte position in what a range list covers\<close>
named_theorems shm_simps \<open>effect of the overlay operations on the owner of a byte\<close>
named_theorems io_simps \<open>effect of the file operations on the bytes of a file\<close>

type_synonym u8 = "8 word"
type_synonym u16 = "16 word"
type_synonym u32 = "32 word"
type_synonym u64 = "64 word"
type_synonym i64 = "64 word"
type_synonym bytes = "u8 list"

section \<open>Errors\<close>

text \<open>
  The error values the code tells apart.  \<open>Errorf\<close> is an error made by \<open>fmt.Errorf\<close> from a
  format without \<open>%w\<close>, \<open>Wrapf\<close> one that wraps another error with \<open>%w\<close>; the formatted
  arguments are left out.  \<open>Errno\<close> is a \<open>syscall.Errno\<close>.  \<open>Panic\<close> stands for the run-time panic of
  an index or slice out of range, in the code whose input is the content of the disk.
\<close>

datatype GoError =
    ErrSHMClosed
  | ErrSHMInvalidRange
  | ErrSHMOutsideVolume
  | ErrSHMStale
  | EOF
  | ErrUnexpectedEOF
  | ErrShortWrite
  | ErrNegativeOffset
  | Errno nat
  | Errorf string
  | Wrapf string GoError
  | Panic

section \<open>Little-endian fields\<close>

lemma unat_less: "unat (w :: 'a::len word) < 2 ^ LENGTH('a)"
  by simp

lemma unat_u8_less: "unat (b :: u8) < 256"
  using unat_less [of b] by simp

lemma unat_u64_less: "unat (w :: u64) < 2 ^ 64"
  using unat_less [of w] by simp

text \<open>
  \<open>leNat\<close> reads a byte string as a little-endian number; \<open>sub off n b\<close> is the Go slice
  \<open>b[off:off+n]\<close>.
\<close>

fun leNat :: "bytes \<Rightarrow> nat" where
  "leNat [] = 0"
| "leNat (b # bs) = unat b + 256 * leNat bs"

definition sub :: "nat \<Rightarrow> nat \<Rightarrow> 'a list \<Rightarrow> 'a list" where
  "sub off n b = take n (drop off b)"

definition le16 :: "bytes \<Rightarrow> nat \<Rightarrow> u16" where
  "le16 b off = word_of_nat (leNat (sub off 2 b))"

definition le32 :: "bytes \<Rightarrow> nat \<Rightarrow> u32" where
  "le32 b off = word_of_nat (leNat (sub off 4 b))"

definition le64 :: "bytes \<Rightarrow> nat \<Rightarrow> u64" where
  "le64 b off = word_of_nat (leNat (sub off 8 b))"

text \<open>The bytes of a number, the inverse of \<open>leNat\<close>; used to build concrete inputs.\<close>

fun natLE :: "nat \<Rightarrow> nat \<Rightarrow> bytes" where
  "natLE 0 x = []"
| "natLE (Suc n) x = word_of_nat (x mod 256) # natLE n (x div 256)"

lemma length_natLE [simp]: "length (natLE n x) = n"
  by (induction n arbitrary: x) auto

lemma leNat_natLE: "leNat (natLE n x) = x mod 256 ^ n"
proof (induction n arbitrary: x)
  case 0
  then show ?case by simp
next
  case (Suc n)
  have "unat (word_of_nat (x mod 256) :: u8) = x mod 256"
    by (simp add: unat_of_nat)
  then have "leNat (natLE (Suc n) x) = x mod 256 + 256 * (x div 256 mod 256 ^ n)"
    by (simp add: Suc.IH)
  also have "\<dots> = x mod (256 * 256 ^ n)"
    by (simp add: mod_mult2_eq)
  finally show ?case by simp
qed

lemma leNat_less: "leNat b < 256 ^ length b"
proof (induction b)
  case Nil
  then show ?case by simp
next
  case (Cons a b)
  have "unat a < 256"
    by (rule unat_u8_less)
  moreover have "leNat b + 1 \<le> 256 ^ length b"
    using Cons.IH by simp
  ultimately have "unat a + 256 * leNat b < 256 * 256 ^ length b"
    by linarith
  then show ?case by simp
qed

lemma length_sub [simp]: "length (sub off n b) = min n (length b - off)"
  by (simp add: sub_def)

section \<open>Words and lists\<close>

lemma unat_word_of_nat_less:
  "n < 2 ^ LENGTH('a) \<Longrightarrow> unat (word_of_nat n :: 'a::len word) = n"
  by (simp add: unat_of_nat)

lemma u64_of_len: "n < 2 ^ 64 \<Longrightarrow> unat (word_of_nat n :: u64) = n"
  by (simp add: unat_word_of_nat_less)

text \<open>An \<open>int64\<close> is negative when its top bit is set.\<close>

lemma sint_u64_neg: "sint (w :: 64 word) < 0 \<longleftrightarrow> 2 ^ 63 \<le> unat w"
proof -
  have "sint w < 0 \<longleftrightarrow> bit w 63"
    using bit_last_iff [of w] by simp
  also have "\<dots> \<longleftrightarrow> bit (unat w) 63"
    by (simp add: bit_unsigned_iff)
  also have "\<dots> \<longleftrightarrow> odd (unat w div 2 ^ 63)"
    by (simp add: bit_iff_odd)
  finally have *: "sint w < 0 \<longleftrightarrow> odd (unat w div 2 ^ 63)" .
  have lt: "unat w div 2 ^ 63 < 2"
    using unat_u64_less [of w] by (intro less_mult_imp_div_less) simp
  show ?thesis
  proof (cases "2 ^ 63 \<le> unat w")
    case True
    then have "0 < unat w div 2 ^ 63" by (simp add: div_greater_zero_iff)
    with lt have "unat w div 2 ^ 63 = 1" by linarith
    then show ?thesis using * True by simp
  next
    case False
    then have "unat w div 2 ^ 63 = 0" by (simp add: not_le)
    then show ?thesis using * False by simp
  qed
qed

lemma unat_add_no_wrap:
  fixes a b :: "'a::len word"
  assumes "unat a + unat b < 2 ^ LENGTH('a)"
  shows "unat (a + b) = unat a + unat b"
  using assms by (simp add: unat_word_ariths)

text \<open>
  The guard \<open>off >= size || len > size - off\<close> that several operations share: past it, \<open>off + len\<close>
  does not wrap and stays within \<open>size\<close>.
\<close>

lemma within_guard:
  fixes off len size :: u64
  assumes "\<not> size \<le> off" and "\<not> size - off < len"
  shows "unat (off + len) = unat off + unat len"
    and "unat off + unat len \<le> unat size"
    and "off \<le> off + len"
proof -
  have lt: "unat off < unat size"
    using assms(1) by (simp add: word_le_nat_alt)
  have "unat (size - off) = unat size - unat off"
    using lt by (simp add: unat_sub word_le_nat_alt)
  then have b: "unat len \<le> unat size - unat off"
    using assms(2) by (simp add: word_less_nat_alt)
  then show le: "unat off + unat len \<le> unat size"
    using lt by simp
  have "unat size < 2 ^ 64"
    by (rule unat_u64_less)
  then show eq: "unat (off + len) = unat off + unat len"
    using le by (intro unat_add_no_wrap) simp
  show "off \<le> off + len"
    using eq by (simp add: word_le_nat_alt)
qed

lemma nth_sub: "i < n \<Longrightarrow> off + i < length b \<Longrightarrow> sub off n b ! i = b ! (off + i)"
  by (simp add: sub_def)

lemma unat_plus_one: "w + 1 \<noteq> 0 \<Longrightarrow> unat (w + 1) = unat w + 1"
  using unatSuc [of w] by (simp add: add.commute)

lemma word_off_add:
  "a + word_of_nat m + word_of_nat i = a + (word_of_nat (m + i) :: 'a::len word)"
  by (simp add: add.assoc)

lemma div_minus_mult:
  fixes n k m :: nat
  assumes "0 < m"
  shows "(n - k * m) div m = n div m - k"
proof (cases "k * m \<le> n")
  case True
  then obtain r where "n = k * m + r"
    using le_Suc_ex by blast
  then show ?thesis using assms by simp
next
  case False
  then have "n div m < k"
    using assms by (simp add: div_less_iff_less_mult)
  then show ?thesis using False by simp
qed

lemma option_eq_by_Some: "(\<And>x. a = Some x \<longleftrightarrow> b = Some x) \<Longrightarrow> a = b"
  by (cases a; cases b) auto

text \<open>A strictly increasing chain in which neighbours are related is related throughout.\<close>

lemma sorted_wrt_snoc:
  "sorted_wrt P (xs @ [y]) \<longleftrightarrow> sorted_wrt P xs \<and> (\<forall>x \<in> set xs. P x y)"
  by (simp add: sorted_wrt_append)

section \<open>Files\<close>

text \<open>
  An \<open>os.File\<close> opened on a regular file: its size and its bytes (positions past the size are
  never read).  What the kernel answers to a request is an argument: \<open>IoOk\<close>, or \<open>IoFail e n\<close>,
  an error after \<open>n\<close> bytes were transferred.
\<close>

record File =
  fSize :: nat
  fData :: "nat \<Rightarrow> u8"

datatype IoOutcome = IoOk | IoFail GoError nat

definition pokeBytes :: "nat \<Rightarrow> bytes \<Rightarrow> (nat \<Rightarrow> u8) \<Rightarrow> nat \<Rightarrow> u8" where
  "pokeBytes off d m = (\<lambda>i. if off \<le> i \<and> i < off + length d then d ! (i - off) else m i)"

definition peekBytes :: "nat \<Rightarrow> nat \<Rightarrow> (nat \<Rightarrow> u8) \<Rightarrow> bytes" where
  "peekBytes off n m = map m [off..<off + n]"

text \<open>
  \<open>(*os.File).WriteAt\<close>: a negative offset is an error; a successful write stores every byte,
  extending the file (with zeros in between) when it goes past the end.
\<close>

definition File_WriteAt ::
  "IoOutcome \<Rightarrow> File \<Rightarrow> bytes \<Rightarrow> i64 \<Rightarrow> nat \<times> GoError option \<times> File" where
  "File_WriteAt oc f d off =
     (if sint off < 0 then (0, Some ErrNegativeOffset, f)
      else
        let o' = unat off;
            put = (\<lambda>b. if b = [] then f
                   else \<lparr>fSize = max (fSize f) (o' + length b),
                         fData = pokeBytes o' b (\<lambda>i. if i < fSize f then fData f i else 0)\<rparr>)
        in (case oc of
              IoOk \<Rightarrow> (length d, None, put d)
            | IoFail e n \<Rightarrow> (min n (length d), Some e, put (take n d))))"

text \<open>
  \<open>(*os.File).ReadAt\<close>: the bytes up to the end of the file, with \<open>io.EOF\<close> when that is fewer
  than asked for.
\<close>

definition File_ReadAt ::
  "IoOutcome \<Rightarrow> File \<Rightarrow> nat \<Rightarrow> i64 \<Rightarrow> bytes \<times> GoError option" where
  "File_ReadAt oc f n off =
     (if sint off < 0 then ([], Some ErrNegativeOffset)
      else
        let o' = unat off;
            b = peekBytes o' (min n (fSize f - o')) (fData f)
        in (case oc of
              IoOk \<Rightarrow> (b, if length b < n then Some EOF else None)
            | IoFail e k \<Rightarrow> (take k b, Some e)))"

text \<open>
  \<open>fallocate(FALLOC_FL_PUNCH_HOLE | FALLOC_FL_KEEP_SIZE)\<close>: a negative offset or a length that is
  not positive is \<open>EINVAL\<close>; otherwise the range reads as zeros afterwards and the size is
  unchanged.  A refused request changes nothing.
\<close>

definition zeroBytes :: "nat \<Rightarrow> nat \<Rightarrow> (nat \<Rightarrow> u8) \<Rightarrow> nat \<Rightarrow> u8" where
  "zeroBytes lo hi m = (\<lambda>i. if lo \<le> i \<and> i < hi then 0 else m i)"

definition File_PunchHole ::
  "IoOutcome \<Rightarrow> File \<Rightarrow> i64 \<Rightarrow> i64 \<Rightarrow> GoError option \<times> File" where
  "File_PunchHole oc f off len =
     (if sint off < 0 \<or> sint len \<le> 0 then (Some (Errno 22), f)
      else case oc of
        IoOk \<Rightarrow> (None, f\<lparr>fData := zeroBytes (unat off) (unat off + unat len) (fData f)\<rparr>)
      | IoFail e _ \<Rightarrow> (Some e, f))"

lemma length_peekBytes [simp]: "length (peekBytes off n m) = n"
  by (simp add: peekBytes_def)

lemma nth_peekBytes [io_simps]: "i < n \<Longrightarrow> peekBytes off n m ! i = m (off + i)"
  by (simp add: peekBytes_def)

lemma pokeBytes_in [io_simps]:
  "i < length d \<Longrightarrow> pokeBytes off d m (off + i) = d ! i"
  by (simp add: pokeBytes_def)

lemma pokeBytes_out [io_simps]:
  "i < off \<or> off + length d \<le> i \<Longrightarrow> pokeBytes off d m i = m i"
  by (auto simp: pokeBytes_def)

lemma peek_poke: "peekBytes off (length d) (pokeBytes off d m) = d"
  by (rule nth_equalityI) (auto simp: io_simps)


text \<open>Positions of a block that does not wrap.\<close>

lemma unat_add_of_nat:
  fixes a :: u64
  assumes "unat a + i < 2 ^ 64"
  shows "unat (a + word_of_nat i) = unat a + i"
proof -
  have "unat (word_of_nat i :: u64) = i"
    using assms by (intro u64_of_len) simp
  then show ?thesis
    using assms by (subst unat_add_no_wrap) simp_all
qed

lemma unat_minus_le:
  fixes a b :: "'a::len word"
  shows "a \<le> b \<Longrightarrow> unat (b - a) = unat b - unat a"
  by (rule unat_sub)

text \<open>The two file operations on requests that stay inside the file.\<close>

lemma File_ReadAt_inside [io_simps]:
  assumes "unat off + n \<le> fSize f" and "fSize f < 2 ^ 63"
  shows "File_ReadAt IoOk f n off = (peekBytes (unat off) n (fData f), None)"
  using assms by (simp add: File_ReadAt_def sint_u64_neg)

lemma File_WriteAt_inside [io_simps]:
  assumes "unat off + length d \<le> fSize f" and "fSize f < 2 ^ 63" and "d \<noteq> []"
  shows "File_WriteAt IoOk f d off =
     (length d, None,
      \<lparr>fSize = fSize f,
       fData = pokeBytes (unat off) d (\<lambda>i. if i < fSize f then fData f i else 0)\<rparr>)"
  using assms by (simp add: File_WriteAt_def sint_u64_neg max_def)

lemma sint_u64_pos: "0 < sint (w :: u64) \<longleftrightarrow> w \<noteq> 0 \<and> unat w < 2 ^ 63"
proof -
  have "sint w = 0 \<longleftrightarrow> w = 0"
    by (metis signed_0 signed_word_eqI)
  then show ?thesis using sint_u64_neg [of w] by linarith
qed

lemma File_PunchHole_range [io_simps]:
  assumes "lo < hi" and "unat hi < 2 ^ 63"
  shows "File_PunchHole oc f lo (hi - lo) =
     (case oc of
        IoOk \<Rightarrow> (None, f\<lparr>fData := zeroBytes (unat lo) (unat hi) (fData f)\<rparr>)
      | IoFail e _ \<Rightarrow> (Some e, f))"
proof -
  have l: "unat (hi - lo) = unat hi - unat lo"
    by (rule unat_minus_le [OF less_imp_le [OF assms(1)]])
  have lt: "unat lo < unat hi"
    using assms(1) by (simp only: word_less_nat_alt)
  have "unat (hi - lo) \<noteq> 0 \<and> unat (hi - lo) < 2 ^ 63"
    using l lt assms(2) by linarith
  then have p: "0 < sint (hi - lo)"
    by (auto simp: sint_u64_pos)
  have e: "unat lo + unat (hi - lo) = unat hi"
    using l lt by linarith
  then show ?thesis
    using p lt assms(2) by (simp add: File_PunchHole_def sint_u64_neg not_le e split: IoOutcome.split)
qed

end
