(* ===== verification/Ranges.thy ===== *)
theory Ranges
  imports Prelude
begin

text \<open>
  Half-open byte ranges and the range algebra of the NTFS tracker: \<open>types.go\<close> (\<open>ByteRange\<close>),
  the helpers \<open>minU64\<close> and \<open>maxU64\<close> of \<open>shm.go\<close>, and \<open>coalesceByteRanges\<close>,
  \<open>subtractRanges\<close> and \<open>rangesOverlapSnapshot\<close> of \<open>ntfs.go\<close>.

  A range list stands for the set of byte positions it covers, \<open>bytesOf\<close>.  The canonical lists
  (non-empty ranges, sorted, separated by gaps) represent every such set exactly once.
\<close>

section \<open>Ranges\<close>

record ByteRange =
  brStart :: u64
  brEnd :: u64

text \<open>The order by which \<open>sort.Slice\<close> sorts: by start, then by end.\<close>

instantiation ByteRange_ext :: (linorder) linorder
begin

definition less_eq_ByteRange_ext :: "'a ByteRange_scheme \<Rightarrow> 'a ByteRange_scheme \<Rightarrow> bool" where
  "less_eq_ByteRange_ext a b \<longleftrightarrow>
     brStart a < brStart b \<or>
     brStart a = brStart b \<and>
       (brEnd a < brEnd b \<or> brEnd a = brEnd b \<and> ByteRange.more a \<le> ByteRange.more b)"

definition less_ByteRange_ext :: "'a ByteRange_scheme \<Rightarrow> 'a ByteRange_scheme \<Rightarrow> bool" where
  "less_ByteRange_ext a b \<longleftrightarrow> a \<le> b \<and> \<not> b \<le> a"

instance
proof
  fix a b c :: "'a ByteRange_scheme"
  show "a < b \<longleftrightarrow> a \<le> b \<and> \<not> b \<le> a"
    by (simp add: less_ByteRange_ext_def)
  show "a \<le> a"
    by (simp add: less_eq_ByteRange_ext_def)
  show "a \<le> c" if "a \<le> b" and "b \<le> c"
    using that by (auto simp: less_eq_ByteRange_ext_def)
  show "a = b" if "a \<le> b" and "b \<le> a"
    using that by (auto simp: less_eq_ByteRange_ext_def intro: ByteRange.equality)
  show "a \<le> b \<or> b \<le> a"
    by (auto simp: less_eq_ByteRange_ext_def)
qed

end

definition maxU64 :: "u64 \<Rightarrow> u64 \<Rightarrow> u64" where
  "maxU64 a b = (if a > b then a else b)"

definition minU64 :: "u64 \<Rightarrow> u64 \<Rightarrow> u64" where
  "minU64 a b = (if a < b then a else b)"

lemma maxU64_eq [simp]: "maxU64 a b = max a b"
  by (auto simp: maxU64_def max_def)

lemma minU64_eq [simp]: "minU64 a b = min a b"
  by (auto simp: minU64_def min_def)

text \<open>The byte positions a list of ranges covers.\<close>

definition bytesOf :: "ByteRange list \<Rightarrow> u64 set" where
  "bytesOf rs = (\<Union>r \<in> set rs. {brStart r..<brEnd r})"

lemma bytesOf_Nil [simp, range_simps]: "bytesOf [] = {}"
  by (simp add: bytesOf_def)

lemma bytesOf_Cons [simp, range_simps]:
  "bytesOf (r # rs) = {brStart r..<brEnd r} \<union> bytesOf rs"
  by (simp add: bytesOf_def)

lemma bytesOf_append [simp, range_simps]: "bytesOf (xs @ ys) = bytesOf xs \<union> bytesOf ys"
  by (simp add: bytesOf_def)

lemma bytesOf_rev [simp]: "bytesOf (rev xs) = bytesOf xs"
  by (simp add: bytesOf_def)

lemma bytesOf_cong: "set xs = set ys \<Longrightarrow> bytesOf xs = bytesOf ys"
  by (simp add: bytesOf_def)

text \<open>
  The canonical form: every range is non-empty, the ranges are sorted, and neighbours are
  separated by at least one byte (touching ranges have been merged).
\<close>

definition canonical :: "ByteRange list \<Rightarrow> bool" where
  "canonical rs \<longleftrightarrow>
     sorted_wrt (\<lambda>a b. brEnd a < brStart b) rs \<and> (\<forall>r \<in> set rs. brStart r < brEnd r)"

lemma canonical_Nil [simp]: "canonical []"
  by (simp add: canonical_def)

lemma canonical_Cons:
  "canonical (r # rs) \<longleftrightarrow>
     brStart r < brEnd r \<and> (\<forall>x \<in> set rs. brEnd r < brStart x) \<and> canonical rs"
  by (auto simp: canonical_def)

section \<open>coalesceByteRanges\<close>

text \<open>\<open>out\<close> is the output slice so far, last element first.\<close>

fun coalesceLoop :: "ByteRange list \<Rightarrow> ByteRange list \<Rightarrow> ByteRange list" where
  "coalesceLoop out [] = rev out"
| "coalesceLoop out (r # rs) =
     (if brEnd r \<le> brStart r then coalesceLoop out rs
      else case out of
        [] \<Rightarrow> coalesceLoop [r] rs
      | lst # out' \<Rightarrow>
          if brStart r \<le> brEnd lst
          then coalesceLoop
                 ((if brEnd r > brEnd lst then lst\<lparr>brEnd := brEnd r\<rparr> else lst) # out') rs
          else coalesceLoop (r # out) rs)"

definition coalesceByteRanges :: "ByteRange list \<Rightarrow> ByteRange list" where
  "coalesceByteRanges inp = (if inp = [] then [] else coalesceLoop [] (sort inp))"

lemma ByteRange_le_start: "a \<le> b \<Longrightarrow> brStart a \<le> brStart (b :: ByteRange)"
  by (auto simp: less_eq_ByteRange_ext_def)

text \<open>
  The invariant of the loop: the output so far is canonical, and what is still to come starts at
  or after the start of its last range.
\<close>

lemma coalesceLoop_bytes:
  assumes "sorted rs" and "\<forall>x \<in> set out. brStart x < brEnd x"
    and "\<forall>x \<in> set rs. \<forall>y \<in> set out. brStart y \<le> brStart x"
  shows "bytesOf (coalesceLoop out rs) = bytesOf out \<union> bytesOf rs"
  using assms
proof (induction out rs rule: coalesceLoop.induct)
  case (1 out)
  then show ?case by simp
next
  case (2 out r rs)
  note le = ByteRange_le_start
  have rs: "sorted rs" "\<forall>x \<in> set rs. brStart r \<le> brStart x"
    using "2.prems"(1) le by auto
  show ?case
  proof (cases "brEnd r \<le> brStart r")
    case True
    then show ?thesis using "2.IH"(1) "2.prems" by simp
  next
    case ne: False
    show ?thesis
    proof (cases out)
      case Nil
      then show ?thesis using "2.IH"(2) "2.prems" ne rs by simp
    next
      case (Cons lst out')
      show ?thesis
      proof (cases "brStart r \<le> brEnd lst")
        case False
        then show ?thesis using "2.IH"(4) "2.prems" ne rs Cons by auto
      next
        case True
        let ?l = "if brEnd r > brEnd lst then lst\<lparr>brEnd := brEnd r\<rparr> else lst"
        have b: "{brStart ?l..<brEnd ?l} = {brStart lst..<brEnd lst} \<union> {brStart r..<brEnd r}"
          using True "2.prems" Cons ne by auto
        have "bytesOf (coalesceLoop (?l # out') rs) = bytesOf (?l # out') \<union> bytesOf rs"
          using "2.IH"(3) [OF ne Cons True] "2.prems" Cons rs by auto
        then show ?thesis using b Cons True ne by auto
      qed
    qed
  qed
qed

lemma coalesceLoop_canonical:
  assumes "sorted rs" and "canonical (rev out)"
    and "\<forall>x \<in> set rs. \<forall>y \<in> set out. brStart y \<le> brStart x"
  shows "canonical (coalesceLoop out rs)"
  using assms
proof (induction out rs rule: coalesceLoop.induct)
  case (1 out)
  then show ?case by simp
next
  case (2 out r rs)
  have rs: "sorted rs" "\<forall>x \<in> set rs. brStart r \<le> brStart x"
    using "2.prems"(1) ByteRange_le_start by auto
  show ?case
  proof (cases "brEnd r \<le> brStart r")
    case True
    then show ?thesis using "2.IH"(1) "2.prems" by simp
  next
    case ne: False
    show ?thesis
    proof (cases out)
      case Nil
      then show ?thesis using "2.IH"(2) "2.prems" ne rs by (simp add: canonical_def)
    next
      case (Cons lst out')
      have out': "canonical (rev out')" "\<forall>x \<in> set out'. brEnd x < brStart lst"
        "brStart lst < brEnd lst"
        using "2.prems"(2) Cons by (auto simp: canonical_def sorted_wrt_snoc)
      have lr: "brStart lst \<le> brStart r" using "2.prems"(3) Cons by auto
      show ?thesis
      proof (cases "brStart r \<le> brEnd lst")
        case False
        have "canonical (rev (r # out))"
          using False out' ne lr Cons
          by (auto simp: canonical_def sorted_wrt_append intro: less_trans order.strict_trans2)
        then show ?thesis using "2.IH"(4) "2.prems" ne rs Cons False by auto
      next
        case True
        let ?l = "if brEnd r > brEnd lst then lst\<lparr>brEnd := brEnd r\<rparr> else lst"
        have "canonical (rev (?l # out'))"
          using out' by (auto simp: canonical_def sorted_wrt_snoc)
        then have "canonical (coalesceLoop (?l # out') rs)"
          using "2.IH"(3) [OF ne Cons True] "2.prems" Cons rs by auto
        then show ?thesis using Cons True ne by simp
      qed
    qed
  qed
qed

lemma coalesce_bytes [range_simps]: "bytesOf (coalesceByteRanges rs) = bytesOf rs"
  using coalesceLoop_bytes [of "sort rs" "[]"] bytesOf_cong [of "sort rs" rs]
  by (simp add: coalesceByteRanges_def)

lemma coalesce_canonical: "canonical (coalesceByteRanges rs)"
  using coalesceLoop_canonical [of "sort rs" "[]"]
  by (simp add: coalesceByteRanges_def)


text \<open>A canonical list is determined by the set it covers.\<close>

lemma bytesOf_Cons_upto:
  assumes "canonical (r # rs)" and "p \<le> brEnd r"
  shows "p \<in> bytesOf (r # rs) \<longleftrightarrow> brStart r \<le> p \<and> p < brEnd r"
proof -
  have "p \<notin> bytesOf rs"
    using assms by (force simp: canonical_Cons bytesOf_def)
  then show ?thesis by simp
qed

lemma bytesOf_tail:
  assumes "canonical (r # rs)"
  shows "bytesOf rs = bytesOf (r # rs) - {..brEnd r}"
proof -
  have "brEnd r < brStart x" if "x \<in> set rs" for x
    using assms that by (simp add: canonical_Cons)
  then show ?thesis
    by (fastforce simp: bytesOf_def)
qed

lemma canonical_head_eq:
  assumes "canonical (r # rs)" and "canonical (q # qs)"
    and eq: "bytesOf (r # rs) = bytesOf (q # qs)"
  shows "r = q"
proof -
  have low: "brStart a \<le> p" if "canonical (a # xs)" "p \<in> bytesOf (a # xs)" for a xs p
    using that by (force simp: canonical_Cons bytesOf_def)
  have mem: "brStart a \<in> bytesOf (a # xs)" if "canonical (a # xs)" for a xs
    using that by (simp add: canonical_Cons)
  have s: "brStart r = brStart q"
    using low mem assms by (metis order_antisym)
  have gap: "brEnd a \<notin> bytesOf (a # xs)" if "canonical (a # xs)" for a xs
    using bytesOf_Cons_upto [OF that, of "brEnd a"] by simp
  have e: "\<not> brEnd a < brEnd b"
    if "canonical (a # xs)" "canonical (b # ys)" "bytesOf (a # xs) = bytesOf (b # ys)"
      "brStart a = brStart b" for a b xs ys
  proof
    assume lt: "brEnd a < brEnd b"
    have "brStart b \<le> brEnd a"
      using that(1,4) by (simp add: canonical_Cons less_imp_le)
    then have "brEnd a \<in> bytesOf (b # ys)"
      using lt by simp
    then show False using gap [OF that(1)] unfolding that(3) by contradiction
  qed
  have "brEnd r = brEnd q"
    using e [OF assms(1,2) eq s] e [OF assms(2,1) eq [symmetric] s [symmetric]]
    by (simp add: not_less order_antisym)
  with s show ?thesis by (simp add: ByteRange.equality)
qed

lemma canonical_unique:
  "canonical xs \<Longrightarrow> canonical ys \<Longrightarrow> bytesOf xs = bytesOf ys \<Longrightarrow> xs = ys"
proof (induction xs arbitrary: ys)
  case Nil
  then show ?case
    by (cases ys) (auto simp: canonical_Cons)
next
  case (Cons r rs)
  then obtain q qs where ys: "ys = q # qs"
    by (cases ys) (auto simp: canonical_Cons)
  have "r = q"
    using canonical_head_eq Cons.prems ys by blast
  moreover have "bytesOf rs = bytesOf qs"
    using bytesOf_tail [of r rs] bytesOf_tail [of q qs] Cons.prems ys \<open>r = q\<close> by simp
  ultimately show ?case
    using Cons.IH [of qs] Cons.prems ys by (simp add: canonical_Cons)
qed

lemma coalesce_canonical_id: "canonical rs \<Longrightarrow> coalesceByteRanges rs = rs"
  by (intro canonical_unique coalesce_canonical) (simp_all add: coalesce_bytes)

section \<open>subtractRanges\<close>

text \<open>
  The inner loop over the old ranges from index \<open>j\<close> on: the pieces of the new range that it
  appends, and the final value of \<open>cursor\<close>.
\<close>

fun subtractInner ::
  "ByteRange \<Rightarrow> u64 \<Rightarrow> ByteRange list \<Rightarrow> ByteRange list \<times> u64" where
  "subtractInner nr cursor [] = ([], cursor)"
| "subtractInner nr cursor (old # olds) =
     (if \<not> brStart old < brEnd nr then ([], cursor)
      else if brEnd old \<le> cursor then subtractInner nr cursor olds
      else
        let piece = (if brStart old > cursor
                     then [\<lparr>brStart = cursor, brEnd = minU64 (brStart old) (brEnd nr)\<rparr>]
                     else []);
            cursor' = (if brEnd old > cursor then brEnd old else cursor)
        in (if cursor' \<ge> brEnd nr then (piece, cursor')
            else let (ps, c) = subtractInner nr cursor' olds in (piece @ ps, c)))"

text \<open>The outer loop; the list of old ranges is the suffix that starts at index \<open>j\<close>.\<close>

fun subtractLoop :: "ByteRange list \<Rightarrow> ByteRange list \<Rightarrow> ByteRange list" where
  "subtractLoop olds [] = []"
| "subtractLoop olds (nr # nrs) =
     (if brEnd nr \<le> brStart nr then subtractLoop olds nrs
      else
        let olds' = dropWhile (\<lambda>old. brEnd old \<le> brStart nr) olds;
            (ps, cursor) = subtractInner nr (brStart nr) olds'
        in ps @ (if cursor < brEnd nr
                 then [\<lparr>brStart = cursor, brEnd = brEnd nr\<rparr>] else [])
           @ subtractLoop olds' nrs)"

definition subtractRanges :: "ByteRange list \<Rightarrow> ByteRange list \<Rightarrow> ByteRange list" where
  "subtractRanges newRanges oldRanges =
     (if newRanges = [] then [] else coalesceByteRanges (subtractLoop oldRanges newRanges))"

lemma canonical_later:
  assumes "canonical (old # olds)" and "p \<le> brEnd old"
  shows "p \<notin> bytesOf olds"
  using assms by (force simp: canonical_Cons bytesOf_def)

lemma subtractInner_bytes:
  assumes "canonical olds" and "subtractInner nr cursor olds = (ps, c)"
  shows "bytesOf ps \<union> {c..<brEnd nr} = {cursor..<brEnd nr} - bytesOf olds"
  using assms
proof (induction nr cursor olds arbitrary: ps c rule: subtractInner.induct)
  case (1 nr cursor)
  then show ?case by simp
next
  case (2 nr cursor old olds)
  have can: "canonical olds" "brStart old < brEnd old"
    using "2.prems"(1) by (auto simp: canonical_Cons)
  have later: "p \<notin> bytesOf olds" if "p \<le> brEnd old" for p
    using canonical_later "2.prems"(1) that by blast
  show ?case
  proof (cases "brStart old < brEnd nr")
    case False
    then have "p \<notin> bytesOf (old # olds)" if "p < brEnd nr" for p
      using later [of p] can that by auto
    then show ?thesis using False "2.prems"(2) by auto
  next
    case st: True
    show ?thesis
    proof (cases "brEnd old \<le> cursor")
      case True
      then show ?thesis using "2.IH"(1) st can "2.prems" by auto
    next
      case False
      let ?piece = "if brStart old > cursor
          then [\<lparr>brStart = cursor, brEnd = minU64 (brStart old) (brEnd nr)\<rparr>] else []"
      have piece: "bytesOf ?piece = {cursor..<brStart old}"
        using st by (auto simp: min_def)
      have lt: "cursor < brEnd old"
        using False by simp
      have eq: "subtractInner nr cursor (old # olds) =
          (if brEnd old \<ge> brEnd nr then (?piece, brEnd old)
           else let (ps, c) = subtractInner nr (brEnd old) olds in (?piece @ ps, c))"
        using st False lt by (simp add: Let_def)
      show ?thesis
      proof (cases "brEnd old \<ge> brEnd nr")
        case True
        then have r: "ps = ?piece" "c = brEnd old"
          using "2.prems"(2) unfolding eq by simp_all
        have "{cursor..<brStart old} = {cursor..<brEnd nr} - bytesOf (old # olds)"
          using later True st can(2) by auto
        then show ?thesis unfolding r piece using True by simp
      next
        case nt: False
        obtain ps' c' where i: "subtractInner nr (brEnd old) olds = (ps', c')"
          by fastforce
        then have r: "ps = ?piece @ ps'" "c = c'"
          using "2.prems"(2) nt unfolding eq by simp_all
        have ih: "bytesOf ps' \<union> {c'..<brEnd nr} = {brEnd old..<brEnd nr} - bytesOf olds"
          using "2.IH"(2) [OF _ False refl refl] st lt nt can(1) i by simp
        have "{cursor..<brEnd nr} - bytesOf (old # olds)
              = {cursor..<brStart old} \<union> ({brEnd old..<brEnd nr} - bytesOf olds)"
          using later False nt st can(2) by auto
        then show ?thesis unfolding r bytesOf_append piece ih [symmetric] by (simp only: Un_assoc)
      qed
    qed
  qed
qed

lemma canonical_dropWhile: "canonical rs \<Longrightarrow> canonical (dropWhile P rs)"
  by (induction rs) (auto simp: canonical_Cons)

lemma dropWhile_bytes:
  assumes "p \<in> bytesOf rs" and "p \<notin> bytesOf (dropWhile P rs)"
  shows "\<exists>r \<in> set rs. P r \<and> p < brEnd r"
  using assms by (induction rs) (auto split: if_splits)

lemma bytesOf_dropWhile_subset: "bytesOf (dropWhile P rs) \<subseteq> bytesOf rs"
  by (auto simp: bytesOf_def dest: set_dropWhileD)

lemma canonical_mem_ge:
  "canonical (r # rs) \<Longrightarrow> p \<in> bytesOf (r # rs) \<Longrightarrow> brStart r \<le> p"
  by (force simp: canonical_Cons bytesOf_def)

lemma subtractLoop_bytes:
  assumes "canonical news" and "canonical olds"
  shows "bytesOf (subtractLoop olds news) = bytesOf news - bytesOf olds"
  using assms
proof (induction olds news rule: subtractLoop.induct)
  case (1 olds)
  then show ?case by simp
next
  case (2 olds nr nrs)
  let ?o = "dropWhile (\<lambda>old. brEnd old \<le> brStart nr) olds"
  have nr: "brStart nr < brEnd nr" and nrs: "canonical nrs"
    using "2.prems"(1) by (auto simp: canonical_Cons)
  obtain ps c where i: "subtractInner nr (brStart nr) ?o = (ps, c)"
    by fastforce
  have same: "p \<in> bytesOf ?o \<longleftrightarrow> p \<in> bytesOf olds" if "brStart nr \<le> p" for p
  proof
    assume "p \<in> bytesOf ?o"
    then show "p \<in> bytesOf olds" using bytesOf_dropWhile_subset by blast
  next
    assume p: "p \<in> bytesOf olds"
    show "p \<in> bytesOf ?o"
    proof (rule ccontr)
      assume "p \<notin> bytesOf ?o"
      then obtain r :: ByteRange where "brEnd r \<le> brStart nr" "p < brEnd r"
        using dropWhile_bytes [OF p, of "\<lambda>old. brEnd old \<le> brStart nr"] by blast
      then show False using that by order
    qed
  qed
  have tail: "bytesOf (subtractLoop ?o nrs) = bytesOf nrs - bytesOf ?o"
    using "2.IH"(2) nr i nrs canonical_dropWhile "2.prems"(2) by (simp add: not_le)
  have here: "bytesOf ps \<union> {c..<brEnd nr} = {brStart nr..<brEnd nr} - bytesOf ?o"
    using subtractInner_bytes [OF _ i] canonical_dropWhile "2.prems"(2) by blast
  have "bytesOf (subtractLoop olds (nr # nrs))
        = bytesOf ps \<union> {c..<brEnd nr} \<union> bytesOf (subtractLoop ?o nrs)"
    using nr i by (auto simp: Let_def)
  also have "\<dots> = bytesOf (nr # nrs) - bytesOf ?o"
    using tail here by auto
  also have "\<dots> = bytesOf (nr # nrs) - bytesOf olds"
    using same canonical_mem_ge [OF "2.prems"(1)] by blast
  finally show ?case .
qed

lemma subtract_canonical: "canonical (subtractRanges news olds)"
  by (simp add: subtractRanges_def coalesce_canonical)

lemma subtract_bytes [range_simps]:
  "canonical news \<Longrightarrow> canonical olds \<Longrightarrow>
     bytesOf (subtractRanges news olds) = bytesOf news - bytesOf olds"
  by (simp add: subtractRanges_def coalesce_bytes subtractLoop_bytes)

section \<open>rangesOverlapSnapshot\<close>

text \<open>\<open>sort.Search\<close>: the binary search of Go's standard library on \<open>[i, j)\<close>.\<close>

function goSearchFrom :: "(nat \<Rightarrow> bool) \<Rightarrow> nat \<Rightarrow> nat \<Rightarrow> nat" where
  "goSearchFrom f i j =
     (if i < j
      then let h = (i + j) div 2
           in if \<not> f h then goSearchFrom f (h + 1) j else goSearchFrom f i h
      else i)"
  by pat_completeness auto
termination
  by (relation "measure (\<lambda>(f, i, j). j - i)") auto

declare goSearchFrom.simps [simp del]

definition goSearch :: "nat \<Rightarrow> (nat \<Rightarrow> bool) \<Rightarrow> nat" where
  "goSearch n f = goSearchFrom f 0 n"

text \<open>What \<open>sort.Search\<close> asks of its predicate: once true, it stays true up to \<open>n\<close>.\<close>

definition upward :: "(nat \<Rightarrow> bool) \<Rightarrow> nat \<Rightarrow> bool" where
  "upward f n \<longleftrightarrow> (\<forall>a b. a \<le> b \<and> b < n \<and> f a \<longrightarrow> f b)"

lemma upwardD: "upward f n \<Longrightarrow> f a \<Longrightarrow> a \<le> b \<Longrightarrow> b < n \<Longrightarrow> f b"
  by (auto simp: upward_def)

lemma goSearchFrom_spec:
  assumes "upward f n" and "i \<le> j" and "j \<le> n"
    and "\<forall>a < i. \<not> f a" and "\<forall>a. j \<le> a \<and> a < n \<longrightarrow> f a"
  shows "goSearchFrom f i j \<le> n \<and> (\<forall>a < n. f a \<longleftrightarrow> goSearchFrom f i j \<le> a)"
  using assms
proof (induction f i j rule: goSearchFrom.induct)
  case (1 f i j)
  show ?case
  proof (cases "i < j")
    case False
    then have "goSearchFrom f i j = i" by (simp add: goSearchFrom.simps [of f i j])
    then show ?thesis using "1.prems"(2-5) False by (auto simp: not_less)
  next
    case True
    let ?h = "(i + j) div 2"
    have h: "i \<le> ?h" "?h < j" "?h < n" using True "1.prems"(3) by auto
    show ?thesis
    proof (cases "f ?h")
      case fh: False
      have eq: "goSearchFrom f i j = goSearchFrom f (?h + 1) j"
        using True fh by (simp add: goSearchFrom.simps [of f i j] Let_def)
      have "\<forall>a < ?h + 1. \<not> f a"
        using upwardD [OF "1.prems"(1), of _ ?h] fh h(3) by (metis Suc_eq_plus1 less_Suc_eq_le)
      then show ?thesis
        unfolding eq using h by (intro "1.IH"(1) [OF True refl fh] "1.prems") simp_all
    next
      case fh: True
      have eq: "goSearchFrom f i j = goSearchFrom f i ?h"
        using True fh by (simp add: goSearchFrom.simps [of f i j] Let_def)
      have "\<forall>a. ?h \<le> a \<and> a < n \<longrightarrow> f a"
        using upwardD [OF "1.prems"(1) fh] by blast
      then show ?thesis
        unfolding eq using h fh by (intro "1.IH"(2) [OF True refl] "1.prems") simp_all
    qed
  qed
qed

lemma goSearch_spec:
  assumes "upward f n"
  shows "goSearch n f \<le> n" and "a < n \<Longrightarrow> f a \<longleftrightarrow> goSearch n f \<le> a"
proof -
  have "\<forall>a. n \<le> a \<and> a < n \<longrightarrow> f a" by auto
  then have "goSearchFrom f 0 n \<le> n \<and> (\<forall>a < n. f a \<longleftrightarrow> goSearchFrom f 0 n \<le> a)"
    by (intro goSearchFrom_spec assms) simp_all
  then show "goSearch n f \<le> n" and "a < n \<Longrightarrow> f a \<longleftrightarrow> goSearch n f \<le> a"
    unfolding goSearch_def by blast+
qed

definition rangesOverlapSnapshot :: "ByteRange list \<Rightarrow> u64 \<Rightarrow> u64 \<Rightarrow> bool" where
  "rangesOverlapSnapshot ranges start end' =
     (if end' \<le> start \<or> length ranges = 0 then False
      else let idx = goSearch (length ranges) (\<lambda>i. brEnd (ranges ! i) > start)
           in idx < length ranges \<and> brStart (ranges ! idx) < end')"

lemma canonical_nth:
  assumes "canonical rs" and "i < j" and "j < length rs"
  shows "brEnd (rs ! i) < brStart (rs ! j)"
  using assms by (simp add: canonical_def sorted_wrt_iff_nth_less)

lemma canonical_nth_end:
  assumes "canonical rs" and "i \<le> j" and "j < length rs"
  shows "brEnd (rs ! i) \<le> brEnd (rs ! j)"
proof (cases "i = j")
  case False
  then have "brEnd (rs ! i) < brStart (rs ! j)" using canonical_nth assms by simp
  moreover have "brStart (rs ! j) < brEnd (rs ! j)"
    using assms by (simp add: canonical_def)
  ultimately show ?thesis by simp
qed simp

lemma overlap_iff_nth:
  assumes can: "canonical rs" and lt: "start < end'"
  shows "rangesOverlapSnapshot rs start end' \<longleftrightarrow>
     (\<exists>i < length rs. start < brEnd (rs ! i) \<and> brStart (rs ! i) < end')"
proof -
  let ?f = "\<lambda>i. brEnd (rs ! i) > start"
  let ?k = "goSearch (length rs) ?f"
  have "upward ?f (length rs)"
    using canonical_nth_end [OF can] order.strict_trans2 unfolding upward_def by blast
  then have k: "?f i \<longleftrightarrow> ?k \<le> i" if "i < length rs" for i
    using goSearch_spec(2) that by blast
  have first: "brStart (rs ! ?k) < end'"
    if "i < length rs" "start < brEnd (rs ! i)" "brStart (rs ! i) < end'" for i
  proof (cases "?k = i")
    case True
    then show ?thesis using that by simp
  next
    case False
    then have ki: "?k < i" using k that by (simp add: le_neq_implies_less)
    have "brStart (rs ! ?k) < brEnd (rs ! ?k)"
      using can ki that(1) by (simp add: canonical_def)
    then show ?thesis using canonical_nth [OF can ki that(1)] that(3) by order
  qed
  have "rangesOverlapSnapshot rs start end' \<longleftrightarrow>
      ?k < length rs \<and> brStart (rs ! ?k) < end'"
    using lt by (auto simp: rangesOverlapSnapshot_def Let_def)
  then show ?thesis using k first by (meson order.strict_trans1 order.refl)
qed

lemma overlap_iff [range_simps]:
  assumes can: "canonical rs"
  shows "rangesOverlapSnapshot rs start end' \<longleftrightarrow> bytesOf rs \<inter> {start..<end'} \<noteq> {}"
proof (cases "start < end'")
  case False
  then show ?thesis by (auto simp: rangesOverlapSnapshot_def)
next
  case True
  have "(start < brEnd r \<and> brStart r < end') \<longleftrightarrow> {brStart r..<brEnd r} \<inter> {start..<end'} \<noteq> {}"
    if "r \<in> set rs" for r
  proof -
    have ne: "brStart r < brEnd r" using can that by (simp add: canonical_def)
    have "max (brStart r) start \<in> {brStart r..<brEnd r} \<inter> {start..<end'}"
      if "start < brEnd r" "brStart r < end'"
      using that ne True by (simp add: max_def)
    moreover have "start < brEnd r \<and> brStart r < end'"
      if "x \<in> {brStart r..<brEnd r} \<inter> {start..<end'}" for x
      using that by (auto intro: order.strict_trans1)
    ultimately show ?thesis by blast
  qed
  then have "(\<exists>r \<in> set rs. start < brEnd r \<and> brStart r < end') \<longleftrightarrow>
      bytesOf rs \<inter> {start..<end'} \<noteq> {}"
    unfolding bytesOf_def by blast
  moreover have "(\<exists>r \<in> set rs. start < brEnd r \<and> brStart r < end') \<longleftrightarrow>
      (\<exists>i < length rs. start < brEnd (rs ! i) \<and> brStart (rs ! i) < end')"
    by (metis in_set_conv_nth)
  ultimately show ?thesis
    using overlap_iff_nth [OF can True] by simp
qed

section \<open>Properties\<close>

text \<open>
  C31. \<open>coalesceByteRanges\<close> is a normal form: its result is canonical (non-empty ranges, sorted,
  no two of them touching), covers exactly the bytes of its input, and is the same list for any
  two inputs that cover the same bytes.
\<close>

theorem coalesceByteRanges_normal_form:
  "canonical (coalesceByteRanges rs) \<and> bytesOf (coalesceByteRanges rs) = bytesOf rs \<and>
   (coalesceByteRanges rs = coalesceByteRanges rs' \<longleftrightarrow> bytesOf rs = bytesOf rs')"
  using canonical_unique [OF coalesce_canonical coalesce_canonical, of rs rs']
  by (auto simp: coalesce_canonical coalesce_bytes dest: arg_cong [of _ _ bytesOf])

text \<open>
  \<open>subtractRanges\<close> is set difference: for canonical inputs, what the tracker always passes,
  the result covers exactly the bytes of the new ranges that no old range covers, in canonical
  form.
\<close>

theorem subtractRanges_difference:
  assumes "canonical newRanges" and "canonical oldRanges"
  shows "canonical (subtractRanges newRanges oldRanges) \<and>
    bytesOf (subtractRanges newRanges oldRanges) = bytesOf newRanges - bytesOf oldRanges"
  using assms by (simp add: subtract_canonical subtract_bytes)

theorem subtractRanges_difference_witness:
  "bytesOf (subtractRanges [\<lparr>brStart = 10, brEnd = 40\<rparr>] [\<lparr>brStart = 15, brEnd = 20\<rparr>])
     = bytesOf [\<lparr>brStart = 10, brEnd = 40\<rparr>] - bytesOf [\<lparr>brStart = 15, brEnd = 20\<rparr>] \<and>
   subtractRanges [\<lparr>brStart = 10, brEnd = 40\<rparr>] [\<lparr>brStart = 15, brEnd = 20\<rparr>]
     = [\<lparr>brStart = 10, brEnd = 15\<rparr>, \<lparr>brStart = 20, brEnd = 40\<rparr>]"
proof
  show "bytesOf (subtractRanges [\<lparr>brStart = 10, brEnd = 40\<rparr>] [\<lparr>brStart = 15, brEnd = 20\<rparr>])
     = bytesOf [\<lparr>brStart = 10, brEnd = 40\<rparr>] - bytesOf [\<lparr>brStart = 15, brEnd = 20\<rparr>]"
    by (rule subtractRanges_difference [THEN conjunct2]) (simp_all add: canonical_def)
  show "subtractRanges [\<lparr>brStart = 10, brEnd = 40\<rparr>] [\<lparr>brStart = 15, brEnd = 20\<rparr>]
     = [\<lparr>brStart = 10, brEnd = 15\<rparr>, \<lparr>brStart = 20, brEnd = 40\<rparr>]"
    by (simp add: subtractRanges_def coalesceByteRanges_def less_eq_ByteRange_ext_def)
qed

text \<open>
  The binary search of \<open>rangesOverlapSnapshot\<close> is exact: on a canonical snapshot it answers
  whether the request shares a byte with the snapshot.
\<close>

theorem rangesOverlapSnapshot_exact:
  assumes "canonical ranges"
  shows "rangesOverlapSnapshot ranges start end' \<longleftrightarrow> bytesOf ranges \<inter> {start..<end'} \<noteq> {}"
  using assms by (rule overlap_iff)

theorem rangesOverlapSnapshot_exact_witness:
  "rangesOverlapSnapshot [\<lparr>brStart = 10, brEnd = 20\<rparr>, \<lparr>brStart = 30, brEnd = 40\<rparr>] 20 31 \<and>
   \<not> rangesOverlapSnapshot [\<lparr>brStart = 10, brEnd = 20\<rparr>, \<lparr>brStart = 30, brEnd = 40\<rparr>] 20 30"
proof -
  have c: "canonical [\<lparr>brStart = 10, brEnd = 20\<rparr>, \<lparr>brStart = 30, brEnd = 40\<rparr>]"
    by (simp add: canonical_def)
  have "30 \<in> bytesOf [\<lparr>brStart = 10, brEnd = 20\<rparr>, \<lparr>brStart = 30, brEnd = 40\<rparr>] \<inter> {20..<31}"
    by simp
  moreover have "bytesOf [\<lparr>brStart = 10, brEnd = 20\<rparr>, \<lparr>brStart = 30, brEnd = 40\<rparr>] \<inter> {20..<30} = {}"
    by (auto simp: not_less)
  ultimately show ?thesis
    unfolding rangesOverlapSnapshot_exact [OF c] by blast
qed

end
