(* ===== verification/Shm.thy ===== *)
theory Shm
  imports Ranges "HOL-Library.Product_Lexorder"
begin

text \<open>
  The shared-memory overlay of \<open>shm.go\<close>: writes acknowledged to the host are staged in a file
  of \<open>/dev/shm\<close>, and a sorted list of extents says which bytes of that file are live and which
  write (generation) owns them.  Everything else is read from the base image.

  The fields of \<open>SHMDisk\<close> are modelled but for the mutex (every operation below is one critical
  section) and for \<open>base\<close>, the image file, which other components write: an operation that reads
  it takes the reading function as an argument.
\<close>

section \<open>State\<close>

record ShmExtent =
  xStart :: u64
  xEnd :: u64
  xGen :: u64

record SHMDisk =
  shmFile :: "File option"
  shmSize :: u64
  shmPath :: string
  nextGen :: u64
  closed :: bool
  extents :: "ShmExtent list"

text \<open>An \<open>io.ReaderAt\<close>: the bytes read at an offset (at most as many as asked for), and the error.\<close>

type_synonym ReaderAt = "nat \<Rightarrow> i64 \<Rightarrow> bytes \<times> GoError option"

text \<open>
  \<open>base\<close> is the interface value (\<open>None\<close> is Go's nil); the outcomes are those of \<open>os.CreateTemp\<close>,
  which chooses the path, and of \<open>Truncate\<close>.
\<close>

definition NewSHMDisk ::
  "IoOutcome \<Rightarrow> IoOutcome \<Rightarrow> string \<Rightarrow> 'r option \<Rightarrow> u64 \<Rightarrow> GoError + SHMDisk" where
  "NewSHMDisk create trunc path base volSize =
     (if base = None then Inl (Errorf ''nil SHM base reader'')
      else if volSize = 0 then Inl (Errorf ''zero SHM size'')
      else case create of
        IoFail e _ \<Rightarrow> Inl (Wrapf ''create SHM overlay'' e)
      | IoOk \<Rightarrow>
          (case (if sint volSize < 0 then IoFail (Errno 22) 0 else trunc) of
             IoFail e _ \<Rightarrow> Inl (Wrapf ''resize SHM overlay'' e)
           | IoOk \<Rightarrow>
               Inr \<lparr>shmFile = Some \<lparr>fSize = unat volSize, fData = (\<lambda>_. 0)\<rparr>, shmSize = volSize,
                    shmPath = path, nextGen = 1, closed = False, extents = []\<rparr>))"

definition SHMDisk_Size :: "SHMDisk \<Rightarrow> u64" where
  "SHMDisk_Size s = shmSize s"

section \<open>Extent lists\<close>

text \<open>\<open>out\<close> is the output slice, last element first.\<close>

fun coalesceSHMLoop :: "ShmExtent list \<Rightarrow> ShmExtent list \<Rightarrow> ShmExtent list" where
  "coalesceSHMLoop out [] = rev out"
| "coalesceSHMLoop out (e # es) =
     (if xEnd e \<le> xStart e then coalesceSHMLoop out es
      else case out of
        [] \<Rightarrow> coalesceSHMLoop [e] es
      | lst # out' \<Rightarrow>
          if xEnd lst = xStart e \<and> xGen lst = xGen e
          then coalesceSHMLoop (lst\<lparr>xEnd := xEnd e\<rparr> # out') es
          else coalesceSHMLoop (e # out) es)"

definition coalesceSHM :: "ShmExtent list \<Rightarrow> ShmExtent list" where
  "coalesceSHM inp =
     (if inp = [] then []
      else coalesceSHMLoop [] (sort_key (\<lambda>e. (xStart e, xEnd e)) inp))"

text \<open>\<open>replaceRangeLocked\<close>: the loop, with \<open>inserted\<close> as an argument.\<close>

fun replaceLoop :: "ShmExtent \<Rightarrow> bool \<Rightarrow> ShmExtent list \<Rightarrow> ShmExtent list" where
  "replaceLoop new inserted [] = (if inserted then [] else [new])"
| "replaceLoop new inserted (e # es) =
     (if xEnd e \<le> xStart new then e # replaceLoop new inserted es
      else if xStart e \<ge> xEnd new
      then (if inserted then [] else [new]) @ e # replaceLoop new True es
      else (if xStart e < xStart new
            then [\<lparr>xStart = xStart e, xEnd = xStart new, xGen = xGen e\<rparr>] else [])
         @ (if inserted then [] else [new])
         @ (if xEnd e > xEnd new
            then [\<lparr>xStart = xEnd new, xEnd = xEnd e, xGen = xGen e\<rparr>] else [])
         @ replaceLoop new True es)"

definition replaceRangeLocked :: "ShmExtent \<Rightarrow> SHMDisk \<Rightarrow> SHMDisk" where
  "replaceRangeLocked new s = s\<lparr>extents := coalesceSHM (replaceLoop new False (extents s))\<rparr>"

fun removeLoop :: "u64 \<Rightarrow> u64 \<Rightarrow> u64 \<Rightarrow> ShmExtent list \<Rightarrow> ShmExtent list" where
  "removeLoop start end' gen [] = []"
| "removeLoop start end' gen (e # es) =
     (if xGen e \<noteq> gen \<or> xEnd e \<le> start \<or> xStart e \<ge> end'
      then e # removeLoop start end' gen es
      else (if xStart e < start
            then [\<lparr>xStart = xStart e, xEnd = start, xGen = xGen e\<rparr>] else [])
         @ (if xEnd e > end'
            then [\<lparr>xStart = end', xEnd = xEnd e, xGen = xGen e\<rparr>] else [])
         @ removeLoop start end' gen es)"

definition removeRangeGenerationLocked :: "u64 \<Rightarrow> u64 \<Rightarrow> u64 \<Rightarrow> SHMDisk \<Rightarrow> SHMDisk" where
  "removeRangeGenerationLocked start end' gen s =
     s\<lparr>extents := coalesceSHM (removeLoop start end' gen (extents s))\<rparr>"

fun coversLoop :: "ShmExtent \<Rightarrow> u64 \<Rightarrow> ShmExtent list \<Rightarrow> bool" where
  "coversLoop want cursor [] = False"
| "coversLoop want cursor (e # es) =
     (if xEnd e \<le> cursor then coversLoop want cursor es
      else if xStart e > cursor then False
      else if xGen e \<noteq> xGen want then False
      else if xEnd e \<ge> xEnd want then True
      else coversLoop want (xEnd e) es)"

definition coversGenerationLocked :: "ShmExtent \<Rightarrow> SHMDisk \<Rightarrow> bool" where
  "coversGenerationLocked want s = coversLoop want (xStart want) (extents s)"

section \<open>Operations\<close>

text \<open>\<open>oc\<close> is the outcome of the \<open>pwrite\<close> on the overlay file.\<close>

definition StageWrite ::
  "IoOutcome \<Rightarrow> bytes \<Rightarrow> u64 \<Rightarrow> SHMDisk \<Rightarrow> (GoError + ShmExtent) \<times> SHMDisk" where
  "StageWrite oc data off s =
     (if data = [] then (Inr \<lparr>xStart = off, xEnd = off, xGen = 0\<rparr>, s)
      else if off \<ge> shmSize s \<or> word_of_nat (length data) > shmSize s - off
      then (Inl ErrSHMOutsideVolume, s)
      else
        let end' = off + word_of_nat (length data)
        in (if closed s then (Inl ErrSHMClosed, s)
            else case shmFile s of
              None \<Rightarrow> (Inl (Errorf ''invalid argument''), s)
            | Some f \<Rightarrow>
                let (n, err, f') = File_WriteAt oc f data off;
                    s1 = s\<lparr>shmFile := Some f'\<rparr>
                in (case err of
                      Some e \<Rightarrow> (Inl e, s1)
                    | None \<Rightarrow>
                        if n \<noteq> length data then (Inl ErrShortWrite, s1)
                        else
                          let extent = \<lparr>xStart = off, xEnd = end', xGen = nextGen s1\<rparr>;
                              s2 = s1\<lparr>nextGen := nextGen s1 + 1\<rparr>
                          in (Inr extent, replaceRangeLocked extent s2))))"

text \<open>
  The loop of \<open>ReadAt\<close> that lays the live extents over the bytes of the image; \<open>rd\<close> gives the
  outcome of each \<open>pread\<close> on the overlay file.
\<close>

fun overlayLoop ::
  "(u64 \<Rightarrow> nat \<Rightarrow> IoOutcome) \<Rightarrow> File option \<Rightarrow> u64 \<Rightarrow> u64 \<Rightarrow> ShmExtent list \<Rightarrow> bytes \<Rightarrow>
     GoError + bytes" where
  "overlayLoop rd fo start reqEnd [] dst = Inr dst"
| "overlayLoop rd fo start reqEnd (e # es) dst =
     (if xEnd e \<le> start then overlayLoop rd fo start reqEnd es dst
      else if xStart e \<ge> reqEnd then Inr dst
      else
        let a = maxU64 start (xStart e);
            b = minU64 reqEnd (xEnd e)
        in (if a \<ge> b then overlayLoop rd fo start reqEnd es dst
            else
              let dstOff = unat (a - start);
                  len = unat (b - a);
                  (got, err) = (case fo of
                                  None \<Rightarrow> ([], Some (Errorf ''invalid argument''))
                                | Some f \<Rightarrow> File_ReadAt (rd a len) f len a)
              in (case err of
                    Some x \<Rightarrow>
                      if x \<noteq> EOF then Inl x
                      else if length got \<noteq> len then Inl ErrUnexpectedEOF
                      else overlayLoop rd fo start reqEnd es
                             (take dstOff dst @ got @ drop (dstOff + len) dst)
                  | None \<Rightarrow>
                      if length got \<noteq> len then Inl ErrUnexpectedEOF
                      else overlayLoop rd fo start reqEnd es
                             (take dstOff dst @ got @ drop (dstOff + len) dst))))"

definition SHMDisk_ReadAt ::
  "(u64 \<Rightarrow> nat \<Rightarrow> IoOutcome) \<Rightarrow> ReaderAt \<Rightarrow> SHMDisk \<Rightarrow> nat \<Rightarrow> i64 \<Rightarrow> GoError + bytes" where
  "SHMDisk_ReadAt rd base s n off =
     (if sint off < 0 then Inl ErrSHMInvalidRange
      else if n = 0 then Inr []
      else if off \<ge> shmSize s \<or> word_of_nat n > shmSize s - off
      then Inl ErrSHMOutsideVolume
      else
        let (b, baseErr) = base n off;
            dst = take n b @ replicate (n - length b) 0
        in (if baseErr \<noteq> None \<and> baseErr \<noteq> Some EOF then Inl (the baseErr)
            else if closed s then Inr dst
            else overlayLoop rd (shmFile s) off (off + word_of_nat n) (extents s) dst))"

definition punchLocked ::
  "IoOutcome \<Rightarrow> u64 \<Rightarrow> u64 \<Rightarrow> SHMDisk \<Rightarrow> GoError option \<times> SHMDisk" where
  "punchLocked oc off len s =
     (if len = 0 then (None, s)
      else case shmFile s of
        None \<Rightarrow> (Some (Errorf ''bad file descriptor''), s)
      | Some f \<Rightarrow>
          let (err, f') = File_PunchHole oc f off len
          in (err, s\<lparr>shmFile := Some f'\<rparr>))"

fun ReleaseLoop ::
  "(ShmExtent \<Rightarrow> IoOutcome) \<Rightarrow> ShmExtent list \<Rightarrow> GoError option \<Rightarrow> SHMDisk \<Rightarrow>
     GoError option \<times> SHMDisk" where
  "ReleaseLoop pf [] firstErr s = (firstErr, s)"
| "ReleaseLoop pf (p # ps) firstErr s =
     (if xEnd p \<le> xStart p then ReleaseLoop pf ps firstErr s
      else if closed s
      then ReleaseLoop pf ps (if firstErr = None then Some ErrSHMClosed else firstErr) s
      else if \<not> coversGenerationLocked p s then ReleaseLoop pf ps firstErr s
      else
        let (err, s1) = punchLocked (pf p) (xStart p) (xEnd p - xStart p) s;
            s2 = (if err = None
                  then removeRangeGenerationLocked (xStart p) (xEnd p) (xGen p) s1 else s1)
        in ReleaseLoop pf ps (if err \<noteq> None \<and> firstErr = None then err else firstErr) s2)"

definition ReleaseIfCurrent ::
  "(ShmExtent \<Rightarrow> IoOutcome) \<Rightarrow> ShmExtent list \<Rightarrow> SHMDisk \<Rightarrow> GoError option \<times> SHMDisk" where
  "ReleaseIfCurrent pf planned s =
     (if planned = [] then (None, s) else ReleaseLoop pf planned None s)"

text \<open>
  \<open>Close\<close>: \<open>cl\<close> and \<open>rm\<close> are the outcomes of closing the file and of \<open>os.Remove\<close>
  (\<open>Errno 2\<close> is the \<open>ErrNotExist\<close> that the code ignores).
\<close>

definition SHMDisk_Close ::
  "IoOutcome \<Rightarrow> IoOutcome \<Rightarrow> SHMDisk \<Rightarrow> GoError option \<times> SHMDisk" where
  "SHMDisk_Close cl rm s =
     (if closed s then (None, s)
      else
        let s' = s\<lparr>closed := True, shmFile := None, extents := []\<rparr>;
            e1 = (case (shmFile s, cl) of (Some _, IoFail e _) \<Rightarrow> Some e | _ \<Rightarrow> None);
            e2 = (case rm of
                    IoFail e _ \<Rightarrow>
                      if shmPath s \<noteq> [] \<and> e \<noteq> Errno 2 \<and> e1 = None then Some e else e1
                  | IoOk \<Rightarrow> e1)
        in (e2, s'))"

section \<open>Who owns a byte\<close>

text \<open>
  \<open>owns es p g\<close>: some extent of generation \<open>g\<close> holds position \<open>p\<close>.  The list operations are
  described by their effect on this relation; on the sorted lists that the overlay keeps, it is
  the partial function \<open>ownerOf\<close>.
\<close>

definition owns :: "ShmExtent list \<Rightarrow> u64 \<Rightarrow> u64 \<Rightarrow> bool" where
  "owns es p g \<longleftrightarrow> (\<exists>e \<in> set es. xStart e \<le> p \<and> p < xEnd e \<and> xGen e = g)"

definition shmSorted :: "ShmExtent list \<Rightarrow> bool" where
  "shmSorted es \<longleftrightarrow>
     sorted_wrt (\<lambda>a b. xEnd a \<le> xStart b) es \<and> (\<forall>e \<in> set es. xStart e < xEnd e)"

fun ownerOf :: "ShmExtent list \<Rightarrow> u64 \<Rightarrow> u64 option" where
  "ownerOf [] p = None"
| "ownerOf (e # es) p = (if xStart e \<le> p \<and> p < xEnd e then Some (xGen e) else ownerOf es p)"

lemma owns_Nil [simp]: "\<not> owns [] p g"
  by (simp add: owns_def)

lemma owns_Cons [simp]:
  "owns (e # es) p g \<longleftrightarrow> xStart e \<le> p \<and> p < xEnd e \<and> xGen e = g \<or> owns es p g"
  by (auto simp: owns_def)

lemma owns_append [simp]: "owns (xs @ ys) p g \<longleftrightarrow> owns xs p g \<or> owns ys p g"
  by (auto simp: owns_def)

lemma owns_set: "set xs = set ys \<Longrightarrow> owns xs p g = owns ys p g"
  by (simp add: owns_def)

lemma shmSorted_Nil [simp]: "shmSorted []"
  by (simp add: shmSorted_def)

lemma shmSorted_Cons:
  "shmSorted (e # es) \<longleftrightarrow> xStart e < xEnd e \<and> (\<forall>x \<in> set es. xEnd e \<le> xStart x) \<and> shmSorted es"
  by (auto simp: shmSorted_def)

lemma shmSorted_append:
  "shmSorted (xs @ ys) \<longleftrightarrow>
     shmSorted xs \<and> shmSorted ys \<and> (\<forall>x \<in> set xs. \<forall>y \<in> set ys. xEnd x \<le> xStart y)"
  by (auto simp: shmSorted_def sorted_wrt_append)

lemma owns_later: "shmSorted (e # es) \<Longrightarrow> owns es p g \<Longrightarrow> xEnd e \<le> p"
  by (force simp: shmSorted_Cons owns_def)

lemma ownerOf_iff: "shmSorted es \<Longrightarrow> ownerOf es p = Some g \<longleftrightarrow> owns es p g"
proof (induction es)
  case Nil
  then show ?case by simp
next
  case (Cons e es)
  have "p < xEnd e \<Longrightarrow> \<not> owns es p g"
    using owns_later [OF Cons.prems, of p g] by auto
  then show ?case using Cons by (auto simp: shmSorted_Cons)
qed

lemma ownerOf_eqI:
  assumes "shmSorted es" and "shmSorted es'" and "\<And>g. owns es p g = owns es' p g"
  shows "ownerOf es p = ownerOf es' p"
  using assms ownerOf_iff by (metis option.exhaust)

lemma ownerOf_None: "shmSorted es \<Longrightarrow> ownerOf es p = None \<longleftrightarrow> (\<forall>g. \<not> owns es p g)"
  using ownerOf_iff by (metis not_None_eq)

section \<open>coalesceSHM\<close>

lemma coalesceSHMLoop_owns:
  assumes "\<forall>e \<in> set out. xStart e < xEnd e"
  shows "owns (coalesceSHMLoop out es) p g \<longleftrightarrow> owns out p g \<or> owns es p g"
  using assms
proof (induction out es rule: coalesceSHMLoop.induct)
  case (1 out)
  then show ?case by (simp add: owns_set [of "rev out" out])
next
  case (2 out e es)
  show ?case
  proof (cases "xEnd e \<le> xStart e")
    case True
    then show ?thesis using "2.IH"(1) "2.prems" by auto
  next
    case ne: False
    show ?thesis
    proof (cases out)
      case Nil
      then show ?thesis using "2.IH"(2) ne by auto
    next
      case (Cons lst out')
      show ?thesis
      proof (cases "xEnd lst = xStart e \<and> xGen lst = xGen e")
        case True
        have "xStart lst < xStart e" "xStart e < xEnd e"
          using "2.prems" Cons True ne by auto
        then have "owns (coalesceSHMLoop (lst\<lparr>xEnd := xEnd e\<rparr> # out') es) p g \<longleftrightarrow>
            owns (lst\<lparr>xEnd := xEnd e\<rparr> # out') p g \<or> owns es p g"
          using "2.IH"(3) [OF ne Cons True] "2.prems" Cons by simp
        moreover have "xStart lst \<le> p \<and> p < xEnd e \<longleftrightarrow>
            xStart lst \<le> p \<and> p < xStart e \<or> xStart e \<le> p \<and> p < xEnd e"
          using \<open>xStart lst < xStart e\<close> \<open>xStart e < xEnd e\<close> by auto
        ultimately show ?thesis using ne Cons True by auto
      next
        case False
        then show ?thesis using "2.IH"(4) "2.prems" ne Cons by auto
      qed
    qed
  qed
qed

lemma coalesceSHMLoop_sorted:
  assumes "shmSorted (rev out)" and "shmSorted es"
    and "\<forall>x \<in> set out. \<forall>y \<in> set es. xEnd x \<le> xStart y"
  shows "shmSorted (coalesceSHMLoop out es)"
  using assms
proof (induction out es rule: coalesceSHMLoop.induct)
  case (1 out)
  then show ?case by simp
next
  case (2 out e es)
  have e: "xStart e < xEnd e" "shmSorted es" "\<forall>x \<in> set es. xEnd e \<le> xStart x"
    using "2.prems"(2) by (auto simp: shmSorted_Cons)
  have ne: "\<not> xEnd e \<le> xStart e"
    using e(1) by simp
  show ?case
  proof (cases out)
    case Nil
    then show ?thesis using "2.IH"(2) ne e by (simp add: shmSorted_Cons)
  next
    case (Cons lst out')
    show ?thesis
    proof (cases "xEnd lst = xStart e \<and> xGen lst = xGen e")
      case True
      have "shmSorted (rev (lst\<lparr>xEnd := xEnd e\<rparr> # out'))"
        using "2.prems"(1,3) Cons e True by (auto simp: shmSorted_append shmSorted_Cons)
      then show ?thesis using "2.IH"(3) "2.prems" Cons e ne True by auto
    next
      case False
      have "shmSorted (rev (e # out))"
        using "2.prems"(1,3) Cons e by (auto simp: shmSorted_append shmSorted_Cons)
      then show ?thesis using "2.IH"(4) "2.prems" Cons e ne False by auto
    qed
  qed
qed

text \<open>The overlay only coalesces lists that are sorted already, so the order of \<open>sort\<close> is moot.\<close>

lemma shmSorted_sort: "shmSorted es \<Longrightarrow> sort_key (\<lambda>e. (xStart e, xEnd e)) es = es"
proof (rule sort_key_id_if_sorted)
  assume "shmSorted es"
  then show "sorted (map (\<lambda>e. (xStart e, xEnd e)) es)"
    by (induction es) (force simp: shmSorted_Cons)+
qed

lemma coalesceSHM_owns [shm_simps]: "owns (coalesceSHM es) p g \<longleftrightarrow> owns es p g"
  using coalesceSHMLoop_owns [of "[]"] owns_set [of "sort_key (\<lambda>e. (xStart e, xEnd e)) es" es]
  by (auto simp: coalesceSHM_def)

lemma coalesceSHM_sorted: "shmSorted es \<Longrightarrow> shmSorted (coalesceSHM es)"
  using coalesceSHMLoop_sorted [of "[]" es] by (simp add: coalesceSHM_def shmSorted_sort)

section \<open>Replacing and removing\<close>

lemma replaceLoop_owns:
  assumes "xStart new < xEnd new"
  shows "owns (replaceLoop new ins es) p g \<longleftrightarrow>
     (if xStart new \<le> p \<and> p < xEnd new then \<not> ins \<and> g = xGen new else owns es p g)"
  using assms
proof (induction new ins es rule: replaceLoop.induct)
  case (1 new ins)
  then show ?case by auto
next
  case (2 new ins e es)
  then show ?case by auto
qed

lemma removeLoop_owns:
  "owns (removeLoop start end' gen es) p g \<longleftrightarrow>
     owns es p g \<and> \<not> (g = gen \<and> start \<le> p \<and> p < end')"
  by (induction start end' gen es rule: removeLoop.induct) auto

text \<open>
  The loops only cut extents into smaller pieces, so their output stays sorted.
  \<open>startsAt l es\<close> bounds the extents from below, which is what the pieces still to come need.
\<close>

definition startsAt :: "u64 \<Rightarrow> ShmExtent list \<Rightarrow> bool" where
  "startsAt l es \<longleftrightarrow> (\<forall>x \<in> set es. l \<le> xStart x)"

lemma startsAt_simps [simp]:
  "startsAt l []"
  "startsAt l (e # es) \<longleftrightarrow> l \<le> xStart e \<and> startsAt l es"
  "startsAt l (xs @ ys) \<longleftrightarrow> startsAt l xs \<and> startsAt l ys"
  by (auto simp: startsAt_def)

lemma startsAt_mono: "startsAt l es \<Longrightarrow> l' \<le> l \<Longrightarrow> startsAt l' es"
  by (auto simp: startsAt_def)

lemma shmSorted_Cons_startsAt:
  "shmSorted (e # es) \<longleftrightarrow> xStart e < xEnd e \<and> startsAt (xEnd e) es \<and> shmSorted es"
  by (simp add: shmSorted_Cons startsAt_def)

lemma replaceLoop_startsAt:
  "startsAt l es \<Longrightarrow> ins \<or> l \<le> xStart new \<Longrightarrow> xStart new < xEnd new \<Longrightarrow>
     shmSorted es \<Longrightarrow> startsAt l (replaceLoop new ins es)"
proof (induction new ins es rule: replaceLoop.induct)
  case (1 new ins)
  then show ?case by auto
next
  case (2 new ins e es)
  then show ?case
    by (auto simp: shmSorted_Cons_startsAt not_le)
qed

lemma replaceLoop_inserted:
  assumes "shmSorted es" and "startsAt (xStart new) es" and "xStart new < xEnd new"
  shows "shmSorted (replaceLoop new True es) \<and> startsAt (xEnd new) (replaceLoop new True es)"
  using assms
proof (induction es)
  case Nil
  then show ?case by simp
next
  case (Cons e es)
  have e: "xStart e < xEnd e" "startsAt (xEnd e) es" "shmSorted es" "xStart new \<le> xStart e"
    using Cons.prems by (auto simp: shmSorted_Cons_startsAt)
  have ih: "shmSorted (replaceLoop new True es)" "startsAt (xEnd new) (replaceLoop new True es)"
    using Cons by (auto simp: shmSorted_Cons_startsAt)
  have "startsAt (xEnd e) (replaceLoop new True es)"
    using e Cons.prems(3) by (intro replaceLoop_startsAt) simp_all
  then show ?case
    using ih e Cons.prems(3) by (auto simp: shmSorted_Cons_startsAt)
qed

lemma replaceLoop_sorted:
  assumes "shmSorted es" and "xStart new < xEnd new"
  shows "shmSorted (replaceLoop new False es)"
  using assms(1)
proof (induction es)
  case Nil
  then show ?case using assms(2) by (simp add: shmSorted_Cons)
next
  case (Cons e es)
  have e: "xStart e < xEnd e" "startsAt (xEnd e) es" "shmSorted es"
    using Cons.prems by (auto simp: shmSorted_Cons_startsAt)
  have ih: "shmSorted (replaceLoop new False es)"
    using Cons e by blast
  show ?case
  proof (cases "xEnd e \<le> xStart new")
    case True
    then have "startsAt (xEnd e) (replaceLoop new False es)"
      using e assms(2) by (intro replaceLoop_startsAt) simp_all
    then show ?thesis using True ih e by (simp add: shmSorted_Cons_startsAt)
  next
    case False
    then have st: "startsAt (xStart new) es"
      using e(2) by (auto intro: startsAt_mono)
    have rest: "shmSorted (replaceLoop new True es)" "startsAt (xEnd new) (replaceLoop new True es)"
      using replaceLoop_inserted [OF e(3) st assms(2)] by auto
    have "startsAt (xEnd e) (replaceLoop new True es)"
      using e assms(2) by (intro replaceLoop_startsAt) simp_all
    moreover have "startsAt (xStart new) (replaceLoop new True es)"
      using rest(2) assms(2) by (auto intro: startsAt_mono)
    ultimately show ?thesis
      using False rest e assms(2) by (auto simp: shmSorted_Cons_startsAt)
  qed
qed

lemma removeLoop_startsAt:
  "startsAt l es \<Longrightarrow> shmSorted es \<Longrightarrow> startsAt l (removeLoop start end' gen es)"
  by (induction start end' gen es rule: removeLoop.induct)
    (auto simp: shmSorted_Cons_startsAt not_le)

lemma removeLoop_sorted:
  assumes "shmSorted es" and "start < end'"
  shows "shmSorted (removeLoop start end' gen es)"
  using assms(1)
proof (induction es)
  case Nil
  then show ?case by simp
next
  case (Cons e es)
  have e: "xStart e < xEnd e" "startsAt (xEnd e) es" "shmSorted es"
    using Cons.prems by (auto simp: shmSorted_Cons_startsAt)
  have rest: "startsAt (xEnd e) (removeLoop start end' gen es)"
    using e by (intro removeLoop_startsAt) simp_all
  show ?case
    using Cons.IH e rest startsAt_mono [OF rest] assms(2)
    by (auto simp: shmSorted_Cons_startsAt not_le)
qed

lemma coversLoop_iff:
  assumes "shmSorted es" and "cursor < xEnd want"
  shows "coversLoop want cursor es \<longleftrightarrow>
     (\<forall>p. cursor \<le> p \<and> p < xEnd want \<longrightarrow> owns es p (xGen want))"
  using assms
proof (induction want cursor es rule: coversLoop.induct)
  case (1 want cursor)
  then show ?case by auto
next
  case (2 want cursor e es)
  have e: "xStart e < xEnd e" "startsAt (xEnd e) es" "shmSorted es"
    using "2.prems" by (auto simp: shmSorted_Cons_startsAt)
  have later: "owns es p g \<Longrightarrow> xEnd e \<le> p" for p g
    using owns_later "2.prems"(1) by blast
  show ?case
  proof (cases "xEnd e \<le> cursor")
    case True
    then show ?thesis using "2.IH"(1) e "2.prems" by auto
  next
    case past: False
    show ?thesis
    proof (cases "xStart e > cursor \<or> xGen e \<noteq> xGen want")
      case True
      then have "\<not> owns (e # es) cursor (xGen want)"
        using past later [of cursor] by auto
      then show ?thesis using True past "2.prems"(2) by auto
    next
      case own: False
      show ?thesis
      proof (cases "xEnd e \<ge> xEnd want")
        case True
        then show ?thesis using own past by auto
      next
        case False
        then have "coversLoop want cursor (e # es) \<longleftrightarrow>
            (\<forall>p. xEnd e \<le> p \<and> p < xEnd want \<longrightarrow> owns es p (xGen want))"
          using "2.IH"(2) own past e by simp
        moreover have "(\<forall>p. xEnd e \<le> p \<and> p < xEnd want \<longrightarrow> owns es p (xGen want)) \<longleftrightarrow>
            (\<forall>p. cursor \<le> p \<and> p < xEnd want \<longrightarrow> owns (e # es) p (xGen want))"
        proof (intro iffI allI impI)
          fix p
          assume tail: "\<forall>p. xEnd e \<le> p \<and> p < xEnd want \<longrightarrow> owns es p (xGen want)"
            and p: "cursor \<le> p \<and> p < xEnd want"
          show "owns (e # es) p (xGen want)"
            using tail p own by (cases "p < xEnd e") auto
        next
          fix p
          assume all: "\<forall>p. cursor \<le> p \<and> p < xEnd want \<longrightarrow> owns (e # es) p (xGen want)"
            and p: "xEnd e \<le> p \<and> p < xEnd want"
          then have "owns (e # es) p (xGen want)"
            using past by (meson less_imp_le not_le order.trans)
          then show "owns es p (xGen want)"
            using p by auto
        qed
        ultimately show ?thesis by simp
      qed
    qed
  qed
qed

end
