(* ===== verification/ShmSpec.thy ===== *)
theory ShmSpec
  imports Shm
begin

text \<open>
  What the overlay promises: its invariant, the volume that a reader sees (\<open>shmView\<close>: the
  staged bytes laid over the image), and the effect of each operation on the two.
\<close>

section \<open>Invariant and abstract view\<close>

definition shmInv :: "SHMDisk \<Rightarrow> bool" where
  "shmInv s \<longleftrightarrow>
     shmSorted (extents s) \<and>
     (\<forall>e \<in> set (extents s). xEnd e \<le> shmSize s \<and> xGen e < nextGen s) \<and>
     unat (shmSize s) < 2 ^ 63 \<and>
     (if closed s then extents s = [] \<and> shmFile s = None
      else \<exists>f. shmFile s = Some f \<and> fSize f = unat (shmSize s))"

definition diskByte :: "File \<Rightarrow> u64 \<Rightarrow> u8" where
  "diskByte f p = (if unat p < fSize f then fData f (unat p) else 0)"

definition shmView :: "SHMDisk \<Rightarrow> File \<Rightarrow> u64 \<Rightarrow> u8" where
  "shmView s disk p =
     (case ownerOf (extents s) p of
        Some _ \<Rightarrow> (case shmFile s of Some f \<Rightarrow> fData f (unat p) | None \<Rightarrow> 0)
      | None \<Rightarrow> diskByte disk p)"

lemma shmInv_owner_bound:
  assumes "shmInv s" and "ownerOf (extents s) p = Some g"
  shows "p < shmSize s" and "g < nextGen s"
  using assms ownerOf_iff [of "extents s" p g]
  by (auto simp: shmInv_def owns_def)

lemma shmInv_open:
  assumes "shmInv s" and "\<not> closed s"
  obtains f where "shmFile s = Some f" and "fSize f = unat (shmSize s)" and "fSize f < 2 ^ 63"
  using assms by (auto simp: shmInv_def)

text \<open>
  The bounds of the extents of a list are bounds on the positions that are owned, so the facts
  about \<open>owns\<close> carry the rest of the invariant.
\<close>

lemma extents_bounds_iff:
  assumes "shmSorted es"
  shows "(\<forall>e \<in> set es. xEnd e \<le> b \<and> xGen e < n) \<longleftrightarrow> (\<forall>p g. owns es p g \<longrightarrow> p < b \<and> g < n)"
proof
  assume "\<forall>e \<in> set es. xEnd e \<le> b \<and> xGen e < n"
  then show "\<forall>p g. owns es p g \<longrightarrow> p < b \<and> g < n"
    by (auto simp: owns_def)
next
  assume own: "\<forall>p g. owns es p g \<longrightarrow> p < b \<and> g < n"
  show "\<forall>e \<in> set es. xEnd e \<le> b \<and> xGen e < n"
  proof
    fix e assume e: "e \<in> set es"
    then have lt: "xStart e < xEnd e"
      using assms by (simp add: shmSorted_def)
    let ?p = "xEnd e - 1"
    have up: "unat ?p = unat (xEnd e) - 1"
      using lt by (subst unat_minus_le) (auto simp: word_le_nat_alt word_less_nat_alt)
    have "xStart e \<le> ?p \<and> ?p < xEnd e"
      using lt up by (auto simp: word_le_nat_alt word_less_nat_alt)
    then have "owns es ?p (xGen e)"
      using e by (auto simp: owns_def)
    then have "?p < b \<and> xGen e < n"
      using own by blast
    then show "xEnd e \<le> b \<and> xGen e < n"
      using up lt by (auto simp: word_le_nat_alt word_less_nat_alt)
  qed
qed

section \<open>Staging a write\<close>

lemma new_extent_facts:
  assumes "\<not> shmSize s \<le> off" and "\<not> shmSize s - off < word_of_nat (length data)"
    and "length data < 2 ^ 63" and "data \<noteq> []"
  shows "unat (off + word_of_nat (length data)) = unat off + length data"
    and "unat off + length data \<le> unat (shmSize s)"
    and "off < off + word_of_nat (length data)"
proof -
  have l: "unat (word_of_nat (length data) :: u64) = length data"
    using assms(3) by (intro u64_of_len) simp
  show e: "unat (off + word_of_nat (length data)) = unat off + length data"
    and "unat off + length data \<le> unat (shmSize s)"
    using within_guard(1,2) [OF assms(1,2)] l by simp_all
  show "off < off + word_of_nat (length data)"
    using e assms(4) by (simp add: word_less_nat_alt)
qed

text \<open>A successful, non-empty write, with the new state written out.\<close>

lemma StageWrite_Inr:
  assumes inv: "shmInv s" and len: "length data < 2 ^ 63" and ne: "data \<noteq> []"
    and st: "StageWrite IoOk data off s = (Inr x, s')"
  obtains f where "shmFile s = Some f" and "fSize f = unat (shmSize s)" and "\<not> closed s"
    and "x = \<lparr>xStart = off, xEnd = off + word_of_nat (length data), xGen = nextGen s\<rparr>"
    and "xStart x < xEnd x" and "unat off + length data \<le> unat (shmSize s)"
    and "unat (xEnd x) = unat off + length data"
    and "s' = s\<lparr>shmFile := Some \<lparr>fSize = fSize f,
                  fData = pokeBytes (unat off) data (\<lambda>i. if i < fSize f then fData f i else 0)\<rparr>,
                nextGen := nextGen s + 1,
                extents := coalesceSHM (replaceLoop x False (extents s))\<rparr>"
proof -
  have g: "\<not> shmSize s \<le> off" "\<not> shmSize s - off < word_of_nat (length data)" "\<not> closed s"
    using st ne by (auto simp: StageWrite_def Let_def split: if_splits)
  obtain f where f: "shmFile s = Some f" "fSize f = unat (shmSize s)" "fSize f < 2 ^ 63"
    using shmInv_open [OF inv g(3)] .
  note n = new_extent_facts [OF g(1,2) len ne]
  have "File_WriteAt IoOk f data off =
     (length data, None,
      \<lparr>fSize = fSize f,
       fData = pokeBytes (unat off) data (\<lambda>i. if i < fSize f then fData f i else 0)\<rparr>)"
    using n(2) f(2,3) ne by (intro File_WriteAt_inside) simp_all
  then have "StageWrite IoOk data off s =
    (let x = \<lparr>xStart = off, xEnd = off + word_of_nat (length data), xGen = nextGen s\<rparr> in
     (Inr x,
      s\<lparr>shmFile := Some \<lparr>fSize = fSize f,
          fData = pokeBytes (unat off) data (\<lambda>i. if i < fSize f then fData f i else 0)\<rparr>,
        nextGen := nextGen s + 1, extents := coalesceSHM (replaceLoop x False (extents s))\<rparr>))"
    using g f ne by (simp add: StageWrite_def Let_def replaceRangeLocked_def)
  then show ?thesis
    using that [of f] st f g(3) n by (auto simp: Let_def)
qed

lemma staged_extents:
  assumes "shmSorted es" and "xStart x < xEnd x"
  shows "shmSorted (coalesceSHM (replaceLoop x False es))"
    and "ownerOf (coalesceSHM (replaceLoop x False es)) p =
      (if xStart x \<le> p \<and> p < xEnd x then Some (xGen x) else ownerOf es p)"
proof -
  show sorted: "shmSorted (coalesceSHM (replaceLoop x False es))"
    using assms by (intro coalesceSHM_sorted replaceLoop_sorted)
  show "ownerOf (coalesceSHM (replaceLoop x False es)) p =
      (if xStart x \<le> p \<and> p < xEnd x then Some (xGen x) else ownerOf es p)"
    using sorted assms
    by (intro option_eq_by_Some) (auto simp: ownerOf_iff coalesceSHM_owns replaceLoop_owns)
qed

lemma StageWrite_inv_ok:
  assumes "shmInv s" and "length data < 2 ^ 63" and "nextGen s + 1 \<noteq> 0"
    and "StageWrite IoOk data off s = (r, s')"
  shows "shmInv s'"
proof (cases "data = [] \<or> (\<exists>e. r = Inl e)")
  case True
  then have "s' = s"
  proof
    assume "\<exists>e. r = Inl e"
    moreover have "File_WriteAt IoOk f data off = (k, e, f') \<Longrightarrow> e = None \<or> f' = f" for f k e f'
      by (auto simp: File_WriteAt_def Let_def split: if_splits)
    moreover have "File_WriteAt IoOk f data off = (k, None, f') \<Longrightarrow> k = length data" for f k f'
      by (auto simp: File_WriteAt_def Let_def split: if_splits)
    ultimately show ?thesis
      using assms(4)
      by (fastforce simp: StageWrite_def Let_def split: if_splits option.splits prod.splits)
  qed (use assms(4) in \<open>simp add: StageWrite_def\<close>)
  then show ?thesis using assms(1) by simp
next
  case False
  then obtain x where r: "r = Inr x" and ne: "data \<noteq> []"
    by (cases r) auto
  from assms(4) r have st: "StageWrite IoOk data off s = (Inr x, s')" by simp
  obtain f where f: "shmFile s = Some f" "fSize f = unat (shmSize s)" "\<not> closed s"
    and x: "x = \<lparr>xStart = off, xEnd = off + word_of_nat (length data), xGen = nextGen s\<rparr>"
      "xStart x < xEnd x" "unat off + length data \<le> unat (shmSize s)"
      "unat (xEnd x) = unat off + length data"
    and s': "s' = s\<lparr>shmFile := Some \<lparr>fSize = fSize f,
                  fData = pokeBytes (unat off) data (\<lambda>i. if i < fSize f then fData f i else 0)\<rparr>,
                nextGen := nextGen s + 1,
                extents := coalesceSHM (replaceLoop x False (extents s))\<rparr>"
    using StageWrite_Inr [OF assms(1,2) ne st] .
  have sorted: "shmSorted (extents s)" using assms(1) by (simp add: shmInv_def)
  have gen: "g < nextGen s + 1" if "g \<le> nextGen s" for g
    using that assms(3) by (simp add: word_less_nat_alt word_le_nat_alt unat_plus_one)
  have "xEnd x \<le> shmSize s" using x(3,4) by (simp add: word_le_nat_alt)
  then have "\<forall>p g. owns (coalesceSHM (replaceLoop x False (extents s))) p g \<longrightarrow>
      p < shmSize s \<and> g < nextGen s + 1"
    using shmInv_owner_bound [OF assms(1)] ownerOf_iff [OF sorted] x(1,2) gen
    by (fastforce simp: coalesceSHM_owns replaceLoop_owns split: if_splits)
  then show ?thesis
    using assms(1) f s' staged_extents(1) [OF sorted x(2)]
      extents_bounds_iff [OF staged_extents(1) [OF sorted x(2)]]
    by (simp add: shmInv_def)
qed


text \<open>
  Read your writes: after a successful write the volume shows the written bytes in the written
  range and is unchanged everywhere else.
\<close>

lemma StageWrite_view:
  assumes inv: "shmInv s" and len: "length data < 2 ^ 63"
    and st: "StageWrite IoOk data off s = (Inr x, s')"
  shows "shmView s' disk p =
    (if off \<le> p \<and> unat p < unat off + length data then data ! (unat p - unat off)
     else shmView s disk p)"
proof (cases "data = []")
  case True
  then have "s' = s" using st by (simp add: StageWrite_def)
  then show ?thesis using True by (auto simp: word_le_nat_alt)
next
  case False
  obtain f where f: "shmFile s = Some f" "fSize f = unat (shmSize s)" "\<not> closed s"
    and x: "x = \<lparr>xStart = off, xEnd = off + word_of_nat (length data), xGen = nextGen s\<rparr>"
      "xStart x < xEnd x" "unat off + length data \<le> unat (shmSize s)"
      "unat (xEnd x) = unat off + length data"
    and s': "s' = s\<lparr>shmFile := Some \<lparr>fSize = fSize f,
                  fData = pokeBytes (unat off) data (\<lambda>i. if i < fSize f then fData f i else 0)\<rparr>,
                nextGen := nextGen s + 1,
                extents := coalesceSHM (replaceLoop x False (extents s))\<rparr>"
    using StageWrite_Inr [OF inv len False st] .
  have sorted: "shmSorted (extents s)" using inv by (simp add: shmInv_def)
  have hit: "xStart x \<le> p \<and> p < xEnd x \<longleftrightarrow> off \<le> p \<and> unat p < unat off + length data"
    using x(1,4) by (simp add: word_less_nat_alt)
  have own: "ownerOf (extents s') p =
      (if off \<le> p \<and> unat p < unat off + length data then Some (xGen x)
       else ownerOf (extents s) p)"
    using staged_extents(2) [OF sorted x(2)] hit s' by simp
  have old: "unat p < fSize f" if "ownerOf (extents s) p = Some g" for g
    using shmInv_owner_bound(1) [OF inv that] f(2) by (simp add: word_less_nat_alt)
  show ?thesis
  proof (cases "off \<le> p \<and> unat p < unat off + length data")
    case True
    then show ?thesis
      using own s' by (simp add: shmView_def pokeBytes_def word_le_nat_alt)
  next
    case False
    then have "pokeBytes (unat off) data (\<lambda>i. if i < fSize f then fData f i else 0) (unat p)
        = fData f (unat p)" if "ownerOf (extents s) p = Some g" for g
      using old [OF that] by (auto simp: pokeBytes_def word_le_nat_alt)
    then show ?thesis
      using own s' f(1) False by (auto simp: shmView_def split: option.splits)
  qed
qed

section \<open>Reading\<close>

lemma File_ReadAt_padded:
  assumes "File_ReadAt IoOk disk n off = (b, err)" and "unat off < 2 ^ 63"
  shows "take n b @ replicate (n - length b) 0
      = map (\<lambda>i. if unat off + i < fSize disk then fData disk (unat off + i) else 0) [0..<n]"
    and "err = None \<or> err = Some EOF"
proof -
  have b: "b = peekBytes (unat off) (min n (fSize disk - unat off)) (fData disk)"
    and e: "err = (if length b < n then Some EOF else None)"
    using assms by (auto simp: File_ReadAt_def sint_u64_neg Let_def)
  show "err = None \<or> err = Some EOF" using e by simp
  show "take n b @ replicate (n - length b) 0
      = map (\<lambda>i. if unat off + i < fSize disk then fData disk (unat off + i) else 0) [0..<n]"
    by (rule nth_equalityI) (auto simp: b nth_append io_simps)
qed

text \<open>One step of the overlay loop writes the bytes of one extent over the buffer.\<close>

lemma splice_nth:
  assumes "i < length dst" and "o' + length got \<le> length dst"
  shows "(take o' dst @ got @ drop (o' + length got) dst) ! i
      = (if o' \<le> i \<and> i < o' + length got then got ! (i - o') else dst ! i)"
  using assms by (auto simp: nth_append)

lemma overlayLoop_ok:
  assumes "shmSorted es" and "\<forall>e \<in> set es. unat (xEnd e) \<le> fSize f" and "fSize f < 2 ^ 63"
    and "unat start + length dst < 2 ^ 64" and "reqEnd = start + word_of_nat (length dst)"
  shows "overlayLoop (\<lambda>_ _. IoOk) (Some f) start reqEnd es dst =
     Inr (map (\<lambda>i. case ownerOf es (start + word_of_nat i) of
                     Some _ \<Rightarrow> fData f (unat start + i) | None \<Rightarrow> dst ! i) [0..<length dst])"
  using assms
proof (induction es arbitrary: dst)
  case Nil
  then show ?case by (simp add: map_nth)
next
  case (Cons e es)
  have e: "xStart e < xEnd e" "startsAt (xEnd e) es" "shmSorted es"
    using Cons.prems(1) by (auto simp: shmSorted_Cons_startsAt)
  have req: "unat reqEnd = unat start + length dst"
    using Cons.prems(4,5) by (simp add: unat_add_of_nat)
  have pos: "unat (start + word_of_nat i) = unat start + i" if "i < length dst" for i
    using that Cons.prems(4) by (intro unat_add_of_nat) simp
  have ih: "overlayLoop (\<lambda>_ _. IoOk) (Some f) start reqEnd es d =
     Inr (map (\<lambda>i. case ownerOf es (start + word_of_nat i) of
                     Some _ \<Rightarrow> fData f (unat start + i) | None \<Rightarrow> d ! i) [0..<length dst])"
    if "length d = length dst" for d
    using Cons.IH [of d] Cons.prems e that by simp
  have later: "ownerOf es p = None" if "p < xEnd e" for p
    using that owns_later [OF Cons.prems(1), of p] by (auto simp: ownerOf_None [OF e(3)] leD)
  consider (before) "xEnd e \<le> start" | (after) "start < xEnd e" "reqEnd \<le> xStart e"
    | (hit) "start < xEnd e" "xStart e < reqEnd"
    by fastforce
  then show ?case
  proof cases
    case before
    then have miss: "\<not> (xStart e \<le> start + word_of_nat i \<and> start + word_of_nat i < xEnd e)"
      if "i < length dst" for i
      using pos [OF that] by (simp add: word_less_nat_alt word_le_nat_alt)
    have "ownerOf (e # es) (start + word_of_nat i) = ownerOf es (start + word_of_nat i)"
      if "i < length dst" for i
      using miss [OF that] by auto
    then show ?thesis
      using before ih [of dst] by (simp del: ownerOf.simps cong: map_cong)
  next
    case after
    have "ownerOf (e # es) (start + word_of_nat i) = None" if "i < length dst" for i
    proof -
      have lt: "start + word_of_nat i < xStart e"
        using pos [OF that] after(2) req that by (simp add: word_less_nat_alt word_le_nat_alt)
      then have "start + word_of_nat i < xEnd e" using e(1) by simp
      then show ?thesis using lt later by simp
    qed
    then have "map (\<lambda>i. case ownerOf (e # es) (start + word_of_nat i) of
            Some _ \<Rightarrow> fData f (unat start + i) | None \<Rightarrow> dst ! i) [0..<length dst]
        = map ((!) dst) [0..<length dst]"
      by (simp del: ownerOf.simps cong: map_cong)
    moreover have "\<not> xEnd e \<le> start"
      using after(1) by simp
    ultimately show ?thesis
      using after(2) by (simp add: map_nth del: ownerOf.simps)
  next
    case hit
    define a where "a = maxU64 start (xStart e)"
    define b where "b = minU64 reqEnd (xEnd e)"
    let ?o = "unat (a - start)" and ?n = "unat (b - a)"
    let ?got = "peekBytes (unat a) ?n (fData f)"
    let ?d = "take ?o dst @ ?got @ drop (?o + ?n) dst"
    have past: "\<not> xEnd e \<le> start" "\<not> reqEnd \<le> xStart e"
      using hit by auto
    show ?thesis
    proof (cases "dst = []")
      case True
      then have "reqEnd = start" using req by (simp add: word_unat_eq_iff)
      then have "b \<le> a" by (auto simp: a_def b_def min_def max_def)
      then show ?thesis
        using past True ih [of dst]
        by (simp add: a_def [symmetric] b_def [symmetric] del: maxU64_eq minU64_eq)
    next
      case ne: False
      have na: "unat a = max (unat start) (unat (xStart e))"
        and nb: "unat b = min (unat start + length dst) (unat (xEnd e))"
        using req by (auto simp: a_def b_def max_def min_def word_le_nat_alt)
      have lts: "unat start < unat (xEnd e)" "unat (xStart e) < unat start + length dst"
        "unat (xStart e) < unat (xEnd e)"
        using hit e(1) req by (auto simp: word_less_nat_alt)
      then have ab: "a < b"
        unfolding word_less_nat_alt na nb using ne by (simp add: max_def min_def)
      have o': "?o = unat a - unat start"
        by (intro unat_minus_le) (simp add: a_def)
      have n': "?n = unat b - unat a"
        using ab by (intro unat_minus_le less_imp_le)
      have on: "?o + ?n \<le> length dst" "unat a + ?n = unat b" "unat start + ?o = unat a"
        unfolding o' n' using na nb lts by auto
      have "unat b \<le> fSize f"
        using nb Cons.prems(2) by auto
      then have rd: "File_ReadAt IoOk f ?n a = (?got, None)"
        using on(2) Cons.prems(3) by (intro File_ReadAt_inside) simp_all
      have "\<not> b \<le> a"
        using ab by simp
      then have step: "overlayLoop (\<lambda>_ _. IoOk) (Some f) start reqEnd (e # es) dst =
          overlayLoop (\<lambda>_ _. IoOk) (Some f) start reqEnd es ?d"
        using past rd
        by (simp add: a_def [symmetric] b_def [symmetric] Let_def del: maxU64_eq minU64_eq)
      have ld: "length ?d = length dst" using on(1) by simp
      have body: "(case ownerOf es (start + word_of_nat i) of
            Some _ \<Rightarrow> fData f (unat start + i) | None \<Rightarrow> ?d ! i) =
          (case ownerOf (e # es) (start + word_of_nat i) of
            Some _ \<Rightarrow> fData f (unat start + i) | None \<Rightarrow> dst ! i)" if i: "i < length dst" for i
      proof -
        have "xStart e \<le> start + word_of_nat i \<and> start + word_of_nat i < xEnd e \<longleftrightarrow>
            ?o \<le> i \<and> i < ?o + ?n"
          using pos [OF i] na nb on i by (auto simp: word_le_nat_alt word_less_nat_alt)
        moreover have "?d ! i = (if ?o \<le> i \<and> i < ?o + ?n
            then fData f (unat start + i) else dst ! i)"
          using splice_nth [OF i, of ?o ?got] on(1) on(3) [symmetric] by (auto simp: io_simps)
        ultimately show ?thesis
          using later by (auto split: option.splits)
      qed
      show ?thesis
        unfolding step ih [OF ld] using body by (simp del: ownerOf.simps cong: map_cong)
    qed
  qed
qed

text \<open>
  Every read inside the volume returns what the volume shows: the staged bytes where an extent
  owns the position, the bytes of the image elsewhere (zeros past its end).
\<close>

lemma SHMDisk_ReadAt_view:
  assumes inv: "shmInv s" and fits: "unat off + n \<le> unat (shmSize s)" and n: "n > 0"
  shows "SHMDisk_ReadAt (\<lambda>_ _. IoOk) (File_ReadAt IoOk disk) s n off =
     Inr (map (\<lambda>i. shmView s disk (off + word_of_nat i)) [0..<n])"
proof -
  have size: "unat (shmSize s) < 2 ^ 63" using inv by (simp add: shmInv_def)
  obtain b err where r: "File_ReadAt IoOk disk n off = (b, err)" by fastforce
  have u: "unat (word_of_nat n :: u64) = n" "unat off < 2 ^ 63" "unat off + n < 2 ^ 64"
    using size fits by (auto intro: u64_of_len)
  have guard: "\<not> (off \<ge> shmSize s \<or> word_of_nat n > shmSize s - off)"
  proof -
    have "off < shmSize s" using fits n by (simp add: word_less_nat_alt)
    moreover have "unat (shmSize s - off) = unat (shmSize s) - unat off"
      using fits by (intro unat_minus_le) (simp add: word_le_nat_alt)
    ultimately show ?thesis using u(1) fits by (simp add: word_less_nat_alt not_le)
  qed
  let ?dst = "map (\<lambda>i. if unat off + i < fSize disk then fData disk (unat off + i) else 0) [0..<n]"
  have pos: "unat (off + word_of_nat i) = unat off + i" if "i < n" for i
    using that u(3) by (intro unat_add_of_nat) simp
  have red: "SHMDisk_ReadAt (\<lambda>_ _. IoOk) (File_ReadAt IoOk disk) s n off =
      (if closed s then Inr ?dst
       else overlayLoop (\<lambda>_ _. IoOk) (shmFile s) off (off + word_of_nat n) (extents s) ?dst)"
    using File_ReadAt_padded [OF r u(2)] n guard u(2) r
    by (auto simp: SHMDisk_ReadAt_def sint_u64_neg)
  show ?thesis
  proof (cases "closed s")
    case True
    then show ?thesis
      using inv red pos by (simp add: shmInv_def shmView_def diskByte_def)
  next
    case False
    then obtain f where f: "shmFile s = Some f" "fSize f = unat (shmSize s)" "fSize f < 2 ^ 63"
      using shmInv_open [OF inv] by metis
    have "overlayLoop (\<lambda>_ _. IoOk) (Some f) off (off + word_of_nat n) (extents s) ?dst =
       Inr (map (\<lambda>i. case ownerOf (extents s) (off + word_of_nat i) of
                     Some _ \<Rightarrow> fData f (unat off + i) | None \<Rightarrow> ?dst ! i) [0..<length ?dst])"
      using inv f u(3) by (intro overlayLoop_ok) (auto simp: shmInv_def word_le_nat_alt)
    then show ?thesis
      using False red f(1) pos by (auto simp: shmView_def diskByte_def split: option.splits)
  qed
qed

section \<open>Releasing\<close>

text \<open>
  \<open>current x s\<close>: the overlay is open and generation \<open>xGen x\<close> still owns the whole of \<open>x\<close>.
\<close>

definition current :: "ShmExtent \<Rightarrow> SHMDisk \<Rightarrow> bool" where
  "current x s \<longleftrightarrow> \<not> closed s \<and> xStart x < xEnd x \<and>
     (\<forall>q. xStart x \<le> q \<and> q < xEnd x \<longrightarrow> ownerOf (extents s) q = Some (xGen x))"

lemma current_covers:
  "shmSorted (extents s) \<Longrightarrow> xStart x < xEnd x \<Longrightarrow> \<not> closed s \<Longrightarrow>
     coversGenerationLocked x s \<longleftrightarrow> current x s"
  by (simp add: coversGenerationLocked_def current_def coversLoop_iff ownerOf_iff)

lemma owns_unique: "shmSorted es \<Longrightarrow> owns es q g \<Longrightarrow> owns es q g' \<Longrightarrow> g' = g"
  using ownerOf_iff [of es q] by (metis option.inject)

text \<open>An extent that is current lies in the volume.\<close>

lemma current_bound:
  assumes "shmInv s" and "current x s"
  shows "unat (xEnd x) < 2 ^ 63"
proof -
  have lt: "xStart x < xEnd x" using assms(2) by (simp add: current_def)
  let ?p = "xEnd x - 1"
  have up: "unat ?p = unat (xEnd x) - 1"
    using lt by (subst unat_minus_le) (auto simp: word_le_nat_alt word_less_nat_alt)
  have "xStart x \<le> ?p \<and> ?p < xEnd x"
    using lt up by (auto simp: word_le_nat_alt word_less_nat_alt)
  then have "?p < shmSize s"
    using assms shmInv_owner_bound(1) unfolding current_def by blast
  then show ?thesis
    using up assms(1) by (auto simp: shmInv_def word_less_nat_alt)
qed

lemma removed_extents:
  assumes "shmSorted es" and "st < en"
  shows "shmSorted (coalesceSHM (removeLoop st en g es))"
    and "ownerOf (coalesceSHM (removeLoop st en g es)) q =
      (if st \<le> q \<and> q < en \<and> ownerOf es q = Some g then None else ownerOf es q)"
proof -
  show sorted: "shmSorted (coalesceSHM (removeLoop st en g es))"
    using assms by (intro coalesceSHM_sorted removeLoop_sorted)
  show "ownerOf (coalesceSHM (removeLoop st en g es)) q =
      (if st \<le> q \<and> q < en \<and> ownerOf es q = Some g then None else ownerOf es q)"
    using sorted assms(1)
    by (intro option_eq_by_Some)
      (auto simp: ownerOf_iff coalesceSHM_owns removeLoop_owns dest: owns_unique)
qed

text \<open>The state after one iteration of the release loop.\<close>

definition released :: "ShmExtent \<Rightarrow> SHMDisk \<Rightarrow> SHMDisk" where
  "released x s = removeRangeGenerationLocked (xStart x) (xEnd x) (xGen x)
     (snd (punchLocked IoOk (xStart x) (xEnd x - xStart x) s))"

lemma ReleaseLoop_step:
  assumes "shmInv s" and "\<not> closed s"
  shows "\<exists>fe'. ReleaseLoop pf (x # xs) fe s =
     ReleaseLoop pf xs fe' (if current x s \<and> pf x = IoOk then released x s else s)"
proof (cases "xEnd x \<le> xStart x")
  case True
  then show ?thesis by (auto simp: current_def)
next
  case False
  obtain f where f: "shmFile s = Some f"
    using shmInv_open [OF assms] .
  have cov: "coversGenerationLocked x s \<longleftrightarrow> current x s"
    using assms False by (intro current_covers) (auto simp: shmInv_def)
  have same: "s\<lparr>shmFile := Some f\<rparr> = s"
    using f by simp
  have hole: "File_PunchHole oc f (xStart x) (xEnd x - xStart x) =
     (case oc of
        IoOk \<Rightarrow> (None, f\<lparr>fData := zeroBytes (unat (xStart x)) (unat (xEnd x)) (fData f)\<rparr>)
      | IoFail e _ \<Rightarrow> (Some e, f))" if "current x s" for oc
    using current_bound [OF assms(1) that] that
    by (intro File_PunchHole_range) (auto simp: current_def)
  have ne: "xEnd x - xStart x \<noteq> 0" if "current x s"
    using that by (auto simp: current_def)
  show ?thesis
  proof (cases "current x s")
    case True
    then show ?thesis
      using False assms(2) f cov hole [OF True] ne [OF True]
      by (cases "pf x") (auto simp: same released_def punchLocked_def)
  next
    case nc: False
    then show ?thesis using False assms(2) cov by auto
  qed
qed

lemma ReleaseLoop_closed:
  "closed s \<Longrightarrow> snd (ReleaseLoop pf xs fe s) = s"
  by (induction xs arbitrary: fe) auto

lemma released_owner:
  assumes "shmInv s" and "current x s"
  shows "ownerOf (extents (released x s)) q =
    (if xStart x \<le> q \<and> q < xEnd x then None else ownerOf (extents s) q)"
proof -
  have e: "extents (released x s)
      = coalesceSHM (removeLoop (xStart x) (xEnd x) (xGen x) (extents s))"
    by (simp add: released_def removeRangeGenerationLocked_def punchLocked_def Let_def
        split: option.split prod.split)
  show ?thesis
    unfolding e using assms by (subst removed_extents(2)) (auto simp: shmInv_def current_def)
qed

lemma released_state:
  assumes "shmInv s" and "current x s" and "shmFile s = Some f"
  shows "released x s = s\<lparr>
     shmFile := Some (f\<lparr>fData := zeroBytes (unat (xStart x)) (unat (xEnd x)) (fData f)\<rparr>),
     extents := coalesceSHM (removeLoop (xStart x) (xEnd x) (xGen x) (extents s))\<rparr>"
proof -
  have lt: "xStart x < xEnd x" using assms(2) by (simp add: current_def)
  moreover have "xEnd x - xStart x \<noteq> 0" using lt by simp
  ultimately show ?thesis
    using assms(3) current_bound [OF assms(1,2)]
    by (simp add: released_def punchLocked_def File_PunchHole_range
        removeRangeGenerationLocked_def)
qed

lemma released_inv:
  assumes "shmInv s" and "current x s"
  shows "shmInv (released x s)"
proof -
  obtain f where f: "shmFile s = Some f" "fSize f = unat (shmSize s)"
    using shmInv_open [OF assms(1)] assms(2) by (auto simp: current_def)
  have sorted: "shmSorted (extents s)" and "xStart x < xEnd x"
    using assms by (auto simp: shmInv_def current_def)
  then have so: "shmSorted (extents (released x s))"
    using removed_extents(1) by (simp add: released_state [OF assms f(1)])
  have "\<forall>p g. owns (extents (released x s)) p g \<longrightarrow> p < shmSize s \<and> g < nextGen s"
    using released_owner [OF assms] shmInv_owner_bound [OF assms(1)]
    by (simp flip: ownerOf_iff [OF so] split: if_splits)
  then have "\<forall>e \<in> set (extents (released x s)). xEnd e \<le> shmSize s \<and> xGen e < nextGen s"
    using extents_bounds_iff [OF so] by blast
  then show ?thesis
    using so f assms by (simp add: shmInv_def released_state [OF assms f(1)] current_def)
qed

lemma released_view:
  assumes "shmInv s" and "current x s"
  shows "shmView (released x s) disk q =
    (if xStart x \<le> q \<and> q < xEnd x then diskByte disk q else shmView s disk q)"
proof -
  obtain f where f: "shmFile s = Some f"
    using shmInv_open [OF assms(1)] assms(2) by (auto simp: current_def)
  show ?thesis
    using released_owner [OF assms, of q] released_state [OF assms f] f
    by (auto simp: shmView_def zeroBytes_def word_le_nat_alt word_less_nat_alt
        split: option.splits)
qed

lemma ReleaseLoop_inv:
  "shmInv s \<Longrightarrow> shmInv (snd (ReleaseLoop pf xs fe s))"
proof (induction xs arbitrary: fe s)
  case Nil
  then show ?case by simp
next
  case (Cons x xs)
  show ?case
  proof (cases "closed s")
    case True
    then show ?thesis using ReleaseLoop_closed Cons.prems by simp
  next
    case False
    obtain fe' where "ReleaseLoop pf (x # xs) fe s =
        ReleaseLoop pf xs fe' (if current x s \<and> pf x = IoOk then released x s else s)"
      using ReleaseLoop_step [OF Cons.prems False] by blast
    then show ?thesis using Cons.IH Cons.prems released_inv by simp
  qed
qed

lemma ReleaseIfCurrent_inv:
  "shmInv s \<Longrightarrow> shmInv (snd (ReleaseIfCurrent pf xs s))"
  by (simp add: ReleaseIfCurrent_def ReleaseLoop_inv)

text \<open>The call the writer makes: one extent.\<close>

lemma ReleaseIfCurrent_one:
  assumes "shmInv s"
  shows "snd (ReleaseIfCurrent pf [x] s) =
    (if current x s \<and> pf x = IoOk then released x s else s)"
proof (cases "closed s")
  case True
  then show ?thesis
    using ReleaseLoop_closed by (auto simp: ReleaseIfCurrent_def current_def)
next
  case False
  obtain fe' where "ReleaseLoop pf [x] None s =
      ReleaseLoop pf [] fe' (if current x s \<and> pf x = IoOk then released x s else s)"
    using ReleaseLoop_step [OF assms False] by blast
  then show ?thesis by (simp add: ReleaseIfCurrent_def)
qed

section \<open>Creation, failed writes, closing\<close>

lemma NewSHMDisk_inv:
  assumes "NewSHMDisk create trunc path base volSize = Inr s"
  shows "shmInv s" and "extents s = []" and "shmSize s = volSize" and "nextGen s = 1"
    and "\<not> closed s"
  using assms
  by (auto simp: NewSHMDisk_def shmInv_def sint_u64_neg split: if_splits IoOutcome.splits)

lemma shmInv_closed_view: "shmInv s \<Longrightarrow> closed s \<Longrightarrow> shmView s disk p = diskByte disk p"
  by (simp add: shmInv_def shmView_def)

lemma SHMDisk_Close_state:
  "snd (SHMDisk_Close cl rm s) =
     (if closed s then s else s\<lparr>closed := True, shmFile := None, extents := []\<rparr>)"
  by (simp add: SHMDisk_Close_def Let_def)

lemma SHMDisk_Close_inv: "shmInv s \<Longrightarrow> shmInv (snd (SHMDisk_Close cl rm s))"
  by (simp add: SHMDisk_Close_state shmInv_def)

text \<open>
  Whatever \<open>pwrite\<close> answers, a write that fails leaves the extents and the generation counter
  alone, and touches the overlay file only inside the range of the request.
\<close>

lemma StageWrite_Inl:
  assumes "StageWrite oc data off s = (Inl e, s')"
  shows "extents s' = extents s" and "nextGen s' = nextGen s" and "closed s' = closed s"
    and "shmSize s' = shmSize s"
  using assms
  by (auto simp: StageWrite_def Let_def split: if_splits option.splits prod.splits)

lemma File_WriteAt_frame:
  assumes "File_WriteAt oc f d off = (n, err, f')" and "unat off + length d \<le> fSize f"
  shows "fSize f' = fSize f"
    and "i < fSize f \<Longrightarrow> i < unat off \<or> unat off + length d \<le> i \<Longrightarrow> fData f' i = fData f i"
  using assms
  by (auto simp: File_WriteAt_def Let_def pokeBytes_def max_def split: if_splits IoOutcome.splits)

lemma StageWrite_Inr_outcome:
  "StageWrite oc data off s = (Inr x, s') \<Longrightarrow> data = [] \<or> oc = IoOk"
  by (cases oc)
    (auto simp: StageWrite_def File_WriteAt_def Let_def split: if_splits option.splits)

lemma StageWrite_inv:
  assumes inv: "shmInv s" and len: "length data < 2 ^ 63" and g: "nextGen s + 1 \<noteq> 0"
    and st: "StageWrite oc data off s = (r, s')"
  shows "shmInv s'"
proof (cases "\<exists>x. r = Inr x")
  case True
  then obtain x where r: "r = Inr x" by blast
  have "data = [] \<or> oc = IoOk"
    using StageWrite_Inr_outcome st r by blast
  then show ?thesis
  proof
    assume "data = []"
    then show ?thesis using st inv by (auto simp: StageWrite_def)
  qed (use StageWrite_inv_ok [OF inv len g] st in blast)
next
  case False
  then obtain e where r: "r = Inl e" by (cases r) auto
  note same = StageWrite_Inl [OF st [unfolded r]]
  show ?thesis
  proof (cases "shmFile s' = shmFile s")
    case True
    then show ?thesis using inv same by (simp add: shmInv_def)
  next
    case False
    then have gd: "data \<noteq> []" "\<not> shmSize s \<le> off"
        "\<not> shmSize s - off < word_of_nat (length data)" "\<not> closed s"
      using st r by (auto simp: StageWrite_def Let_def split: if_splits)
    obtain f where f: "shmFile s = Some f" "fSize f = unat (shmSize s)"
      using shmInv_open [OF inv gd(4)] .
    obtain n err f' where w: "File_WriteAt oc f data off = (n, err, f')"
      by (cases "File_WriteAt oc f data off") auto
    have "shmFile s' = Some f'"
      using st r gd f w by (auto simp: StageWrite_def Let_def split: if_splits option.splits)
    moreover have "fSize f' = unat (shmSize s)"
      using File_WriteAt_frame(1) [OF w] new_extent_facts(2) [OF gd(2,3) len gd(1)] f(2) by simp
    ultimately show ?thesis using inv same gd(4) by (simp add: shmInv_def)
  qed
qed

section \<open>The interface the readers of the volume rely on\<close>

text \<open>
  What \<open>io.ReaderAt\<close> promises to its clients (the NTFS tracker and FUSE \<open>Read\<close>): in every good
  state of the store there is one volume, and a successful read returns its bytes.
\<close>

locale volume =
  fixes readAt :: "'s \<Rightarrow> nat \<Rightarrow> i64 \<Rightarrow> GoError + bytes"
    and view :: "'s \<Rightarrow> u64 \<Rightarrow> u8"
    and limit :: "'s \<Rightarrow> u64"
    and good :: "'s \<Rightarrow> bool"
  assumes read_inside: "good \<sigma> \<Longrightarrow> 0 < n \<Longrightarrow> unat off + n \<le> unat (limit \<sigma>) \<Longrightarrow>
      readAt \<sigma> n off = Inr (map (\<lambda>i. view \<sigma> (off + word_of_nat i)) [0..<n])"
    and read_outside: "good \<sigma> \<Longrightarrow> 0 < n \<Longrightarrow> n < 2 ^ 63 \<Longrightarrow> unat (limit \<sigma>) < unat off + n \<Longrightarrow>
      \<exists>e. readAt \<sigma> n off = Inl e"
begin

lemma read_Inr:
  assumes "good \<sigma>" and "0 < n" and "n < 2 ^ 63" and "readAt \<sigma> n off = Inr b"
  shows "b = map (\<lambda>i. view \<sigma> (off + word_of_nat i)) [0..<n]"
    and "unat off + n \<le> unat (limit \<sigma>)"
proof -
  show "unat off + n \<le> unat (limit \<sigma>)"
    using read_outside [OF assms(1-3), of off] assms(4) by fastforce
  then show "b = map (\<lambda>i. view \<sigma> (off + word_of_nat i)) [0..<n]"
    using read_inside [OF assms(1,2)] assms(4) by simp
qed

lemma read_length:
  "good \<sigma> \<Longrightarrow> 0 < n \<Longrightarrow> n < 2 ^ 63 \<Longrightarrow> readAt \<sigma> n off = Inr b \<Longrightarrow> length b = n"
  using read_Inr(1) [of \<sigma> n off b] by simp

end

text \<open>The overlay over the image file, with the state \<open>(overlay, image)\<close>.\<close>

definition shmReadAt :: "SHMDisk \<times> File \<Rightarrow> nat \<Rightarrow> i64 \<Rightarrow> GoError + bytes" where
  "shmReadAt \<sigma> n off =
     SHMDisk_ReadAt (\<lambda>_ _. IoOk) (File_ReadAt IoOk (snd \<sigma>)) (fst \<sigma>) n off"

lemma SHMDisk_ReadAt_outside:
  assumes "shmInv s" and "0 < n" and "n < 2 ^ 63" and "unat (shmSize s) < unat off + n"
  shows "\<exists>e. SHMDisk_ReadAt rd base s n off = Inl e"
proof (cases "shmSize s \<le> off")
  case True
  then show ?thesis using assms(2) by (simp add: SHMDisk_ReadAt_def)
next
  case False
  then have "unat (shmSize s - off) = unat (shmSize s) - unat off"
    by (intro unat_minus_le) simp
  moreover have "unat (word_of_nat n :: u64) = n"
    using assms(3) by (intro u64_of_len) simp
  ultimately have "shmSize s - off < word_of_nat n"
    unfolding word_less_nat_alt using assms(2,4) by linarith
  then show ?thesis using assms(2) by (simp add: SHMDisk_ReadAt_def)
qed

interpretation shm: volume shmReadAt "\<lambda>\<sigma>. shmView (fst \<sigma>) (snd \<sigma>)"
    "\<lambda>\<sigma>. shmSize (fst \<sigma>)" "\<lambda>\<sigma>. shmInv (fst \<sigma>)"
  by unfold_locales
    (auto simp: shmReadAt_def SHMDisk_ReadAt_view SHMDisk_ReadAt_outside)

section \<open>Properties\<close>

text \<open>The states the overlay goes through, whatever the kernel answers.\<close>

inductive shmReachable :: "SHMDisk \<Rightarrow> bool" where
  new: "NewSHMDisk create trunc path (base :: File option) volSize = Inr s \<Longrightarrow> shmReachable s"
| stage: "shmReachable s \<Longrightarrow> length data < 2 ^ 63 \<Longrightarrow> nextGen s + 1 \<noteq> 0 \<Longrightarrow>
    StageWrite oc data off s = (r, s') \<Longrightarrow> shmReachable s'"
| release: "shmReachable s \<Longrightarrow> shmReachable (snd (ReleaseIfCurrent pf xs s))"
| close: "shmReachable s \<Longrightarrow> shmReachable (snd (SHMDisk_Close cl rm s))"

text \<open>
  C27. In every state the overlay can reach, whatever outcomes the system calls have, its extents
  are sorted, disjoint, non-empty, inside the volume and of generations already handed out, and
  the overlay file has the size of the volume (until the overlay is closed).  The 64-bit
  generation counter is assumed not to wrap.
\<close>

theorem shm_invariant:
  assumes "shmReachable s"
  shows "shmInv s"
  using assms
  by induction
    (blast intro: NewSHMDisk_inv StageWrite_inv ReleaseIfCurrent_inv SHMDisk_Close_inv)+

text \<open>A small overlay used by the witnesses: 64 bytes, with three of them staged.\<close>

definition shm0 :: SHMDisk where
  "shm0 = \<lparr>shmFile = Some \<lparr>fSize = 64, fData = (\<lambda>_. 0)\<rparr>, shmSize = 64, shmPath = ''x'',
           nextGen = 1, closed = False, extents = []\<rparr>"

definition shm1 :: SHMDisk where
  "shm1 = snd (StageWrite IoOk [7, 8, 9] 10 shm0)"

lemmas shm_eval = shm0_def StageWrite_def File_WriteAt_def replaceRangeLocked_def
  coalesceSHM_def Let_def

lemma shm0_New: "NewSHMDisk IoOk IoOk ''x'' (Some \<lparr>fSize = 64, fData = (\<lambda>_. 1)\<rparr>) 64 = Inr shm0"
  by (simp add: NewSHMDisk_def shm0_def)

lemma shm0_inv: "shmInv shm0"
  using NewSHMDisk_inv(1) [OF shm0_New] .

lemma shm1_stage:
  "StageWrite IoOk [7, 8, 9] 10 shm0 = (Inr \<lparr>xStart = 10, xEnd = 13, xGen = 1\<rparr>, shm1)"
  by (simp add: shm1_def shm_eval)

lemma shm1_inv: "shmInv shm1"
  using StageWrite_inv [OF shm0_inv _ _ shm1_stage] by (simp add: shm0_def)

theorem shm_invariant_witness: "shmReachable shm1 \<and> shmInv shm1 \<and> extents shm1 \<noteq> []"
proof -
  have r: "shmReachable shm1"
    by (rule shmReachable.stage [OF shmReachable.new [OF shm0_New] _ _ shm1_stage])
      (simp_all add: shm0_def)
  have "extents shm1 \<noteq> []"
    by (simp add: shm1_def shm_eval)
  then show ?thesis using r shm_invariant [OF r] by blast
qed

text \<open>
  C15. Read your writes: once a write is staged, every read inside the volume returns the written
  bytes in the written range, and in every other position what the volume showed before.
\<close>

theorem shm_read_your_writes:
  assumes "shmInv s" and "length data < 2 ^ 63" and "StageWrite IoOk data off s = (Inr x, s')"
    and "nextGen s + 1 \<noteq> 0" and "0 < n" and "unat pos + n \<le> unat (shmSize s)"
  shows "SHMDisk_ReadAt (\<lambda>_ _. IoOk) (File_ReadAt IoOk disk) s' n pos =
    Inr (map (\<lambda>i. let p = pos + word_of_nat i in
           if off \<le> p \<and> unat p < unat off + length data then data ! (unat p - unat off)
           else shmView s disk p) [0..<n])"
proof -
  have "shmSize s' = shmSize s"
    using assms(3) by (auto simp: StageWrite_def Let_def replaceRangeLocked_def
        split: if_splits option.splits prod.splits)
  then show ?thesis
    using SHMDisk_ReadAt_view [OF StageWrite_inv [OF assms(1,2,4,3)], of pos n disk] assms(5,6)
      StageWrite_view [OF assms(1,2,3)]
    by (simp add: Let_def)
qed

theorem shm_read_your_writes_witness:
  "SHMDisk_ReadAt (\<lambda>_ _. IoOk) (File_ReadAt IoOk \<lparr>fSize = 64, fData = (\<lambda>_. 1)\<rparr>) shm1 5 9
     = Inr [1, 7, 8, 9, 1]"
  using shm_read_your_writes [OF shm0_inv _ shm1_stage, of 5 9 "\<lparr>fSize = 64, fData = (\<lambda>_. 1)\<rparr>"]
  by (simp add: shm0_def Let_def shmView_def diskByte_def upt_rec word_le_nat_alt)

text \<open>
  C17. Releasing a staged extent never uncovers anything newer: unless the extent's generation
  still owns all of its bytes the overlay is left exactly as it was, and when it does, the volume
  changes only inside the extent, where the image shows through.
\<close>

theorem shm_release_safe:
  assumes "shmInv s"
  shows "if current x s
    then shmView (snd (ReleaseIfCurrent pf [x] s)) disk q =
      (if pf x = IoOk \<and> xStart x \<le> q \<and> q < xEnd x then diskByte disk q else shmView s disk q)
    else snd (ReleaseIfCurrent pf [x] s) = s"
  using released_view [OF assms, of x disk q] ReleaseIfCurrent_one [OF assms, of pf x]
  by auto

theorem shm_release_safe_witness:
  "current \<lparr>xStart = 10, xEnd = 13, xGen = 1\<rparr> shm1 \<and>
   snd (ReleaseIfCurrent (\<lambda>_. IoOk) [\<lparr>xStart = 10, xEnd = 13, xGen = 2\<rparr>] shm1) = shm1 \<and>
   shmView (snd (ReleaseIfCurrent (\<lambda>_. IoOk) [\<lparr>xStart = 10, xEnd = 13, xGen = 1\<rparr>] shm1))
     \<lparr>fSize = 64, fData = (\<lambda>_. 1)\<rparr> 11 = 1"
proof -
  have e: "extents shm1 = [\<lparr>xStart = 10, xEnd = 13, xGen = 1\<rparr>]" "\<not> closed shm1"
    by (simp_all add: shm1_def shm_eval)
  have c: "current \<lparr>xStart = 10, xEnd = 13, xGen = 1\<rparr> shm1"
    using e by (simp add: current_def)
  have nc: "\<not> current \<lparr>xStart = 10, xEnd = 13, xGen = 2\<rparr> shm1"
    using e by (auto simp: current_def intro!: exI [of _ 10])
  show ?thesis
    using c nc shm_release_safe [OF shm1_inv, of "\<lparr>xStart = 10, xEnd = 13, xGen = 2\<rparr>" "\<lambda>_. IoOk"]
      shm_release_safe [OF shm1_inv, of "\<lparr>xStart = 10, xEnd = 13, xGen = 1\<rparr>" "\<lambda>_. IoOk"
        "\<lparr>fSize = 64, fData = (\<lambda>_. 1)\<rparr>" 11]
    by (simp add: diskByte_def)
qed

text \<open>
  A write that fails (out of the volume, overlay closed, or any error of \<open>pwrite\<close>, even after
  part of the bytes went out) changes the volume at most inside the requested range, and hands
  out no generation.
\<close>

theorem shm_failed_write_frame:
  assumes "shmInv s" and "length data < 2 ^ 63" and "StageWrite oc data off s = (Inl e, s')"
    and "q < off \<or> unat off + length data \<le> unat q"
  shows "shmView s' disk q = shmView s disk q \<and> nextGen s' = nextGen s"
proof (cases "shmFile s' = shmFile s")
  case True
  then show ?thesis using StageWrite_Inl [OF assms(3)]
    by (simp add: shmView_def split: option.split)
next
  case False
  then have gd: "data \<noteq> []" "\<not> shmSize s \<le> off"
      "\<not> shmSize s - off < word_of_nat (length data)" "\<not> closed s"
    using assms(3) by (auto simp: StageWrite_def Let_def split: if_splits)
  obtain f where f: "shmFile s = Some f" "fSize f = unat (shmSize s)"
    using shmInv_open [OF assms(1) gd(4)] .
  obtain n err f' where w: "File_WriteAt oc f data off = (n, err, f')"
    by (cases "File_WriteAt oc f data off") auto
  have "shmFile s' = Some f'"
    using assms(3) gd f w by (auto simp: StageWrite_def Let_def split: if_splits option.splits)
  moreover have "fData f' (unat q) = fData f (unat q)" if "ownerOf (extents s) q = Some g" for g
    using File_WriteAt_frame(2) [OF w] new_extent_facts(2) [OF gd(2,3) assms(2) gd(1)] f(2)
      assms(4) shmInv_owner_bound(1) [OF assms(1) that]
    by (simp add: word_less_nat_alt)
  ultimately show ?thesis
    using StageWrite_Inl [OF assms(3)] f(1) by (auto simp: shmView_def split: option.splits)
qed

theorem shm_failed_write_frame_witness:
  "\<exists>s'. StageWrite (IoFail (Errno 28) 1) [1, 2, 3] 11 shm1 = (Inl (Errno 28), s') \<and>
        shmView s' \<lparr>fSize = 64, fData = (\<lambda>_. 1)\<rparr> 10 = shmView shm1 \<lparr>fSize = 64, fData = (\<lambda>_. 1)\<rparr> 10"
proof -
  have "fst (StageWrite (IoFail (Errno 28) 1) [1, 2, 3] 11 shm1) = Inl (Errno 28)"
    by (simp add: shm1_def shm_eval)
  then obtain s' where st: "StageWrite (IoFail (Errno 28) 1) [1, 2, 3] 11 shm1 = (Inl (Errno 28), s')"
    by (cases "StageWrite (IoFail (Errno 28) 1) [1, 2, 3] 11 shm1") auto
  then show ?thesis
    using shm_failed_write_frame [OF shm1_inv _ st, of 10] by auto
qed

text \<open>
  Closing is final: it can be repeated without effect, later writes are refused with
  \<open>ErrSHMClosed\<close> and later reads see the image alone.
\<close>

theorem shm_close_final:
  assumes "shmInv s" and "0 < length data" and "length data < 2 ^ 63"
    and "unat off + length data \<le> unat (shmSize s)" and "s' = snd (SHMDisk_Close cl rm s)"
  shows "SHMDisk_Close cl' rm' s' = (None, s') \<and>
    StageWrite oc data off s' = (Inl ErrSHMClosed, s') \<and>
    SHMDisk_ReadAt (\<lambda>_ _. IoOk) (File_ReadAt IoOk disk) s' (length data) off =
      Inr (map (\<lambda>i. diskByte disk (off + word_of_nat i)) [0..<length data])"
proof -
  have s': "closed s'" "shmSize s' = shmSize s" "shmInv s'"
    using assms(5) SHMDisk_Close_inv [OF assms(1)] by (auto simp: SHMDisk_Close_state)
  have lt: "off < shmSize s"
    unfolding word_less_nat_alt using assms(2,4) by linarith
  then have "unat (shmSize s - off) = unat (shmSize s) - unat off"
    by (intro unat_minus_le less_imp_le)
  moreover have "unat (word_of_nat (length data) :: u64) = length data"
    using assms(3) by (intro u64_of_len) simp
  ultimately have "word_of_nat (length data) \<le> shmSize s - off"
    using assms(4) by (simp add: word_le_nat_alt)
  then have "StageWrite oc data off s' = (Inl ErrSHMClosed, s')"
    using s' lt assms(2) by (auto simp: StageWrite_def Let_def not_le not_less)
  moreover have "SHMDisk_Close cl' rm' s' = (None, s')"
    using s' by (simp add: SHMDisk_Close_def)
  ultimately show ?thesis
    using SHMDisk_ReadAt_view [OF s'(3), of off "length data" disk] assms(2,4) s'(2)
      shmInv_closed_view [OF s'(3,1), of disk]
    by simp
qed

lemma shm1_size: "shmSize shm1 = 64"
  by (simp add: shm1_def shm_eval)

theorem shm_close_final_witness:
  "StageWrite IoOk [1] 5 (snd (SHMDisk_Close IoOk IoOk shm1))
     = (Inl ErrSHMClosed, snd (SHMDisk_Close IoOk IoOk shm1)) \<and>
   SHMDisk_Close IoOk IoOk (snd (SHMDisk_Close IoOk IoOk shm1))
     = (None, snd (SHMDisk_Close IoOk IoOk shm1))"
  using shm_close_final [OF shm1_inv _ _ _ refl, of "[1]" 5 IoOk IoOk IoOk IoOk IoOk]
  by (simp add: shm1_size)

text \<open>
  C39. An overwritten write is never released: once a newer write takes even one byte of a staged
  extent, releasing the old extent does nothing, so the bytes of it that are still live stay in
  the overlay.
\<close>

theorem shm_partial_overwrite_sticks:
  assumes "shmInv s" and "length data < 2 ^ 63" and "nextGen s + 1 \<noteq> 0"
    and "StageWrite IoOk data off s = (Inr y, s')" and "current x s"
    and "xStart x \<le> p" and "p < xEnd x" and "xStart y \<le> p" and "p < xEnd y"
    and "xStart x \<le> q" and "q < xEnd x" and "\<not> (xStart y \<le> q \<and> q < xEnd y)"
  shows "snd (ReleaseIfCurrent pf [x] s') = s' \<and> ownerOf (extents s') q = Some (xGen x)"
proof -
  have ne: "data \<noteq> []"
    using assms(4,8,9) by (auto simp: StageWrite_def)
  have y: "xGen y = nextGen s" "xStart y < xEnd y"
    and ext: "extents s' = coalesceSHM (replaceLoop y False (extents s))"
    by (rule StageWrite_Inr [OF assms(1,2) ne assms(4)], simp)+
  have own: "ownerOf (extents s') r =
      (if xStart y \<le> r \<and> r < xEnd y then Some (nextGen s) else ownerOf (extents s) r)" for r
    using staged_extents(2) [OF _ y(2)] ext y(1) assms(1) by (simp add: shmInv_def)
  have "ownerOf (extents s) p = Some (xGen x)"
    using assms(5-7) by (simp add: current_def)
  then have "xGen x \<noteq> nextGen s"
    using shmInv_owner_bound(2) [OF assms(1), of p "xGen x"] by auto
  then have "\<not> current x s'"
    using own [of p] assms(6-9) by (auto simp: current_def)
  then have "snd (ReleaseIfCurrent pf [x] s') = s'"
    using ReleaseIfCurrent_one [OF StageWrite_inv [OF assms(1-4)]] by simp
  moreover have "ownerOf (extents s') q = Some (xGen x)"
    using own [of q] assms(5,10-12) by (auto simp: current_def)
  ultimately show ?thesis ..
qed

definition shm2 :: SHMDisk where
  "shm2 = snd (StageWrite IoOk [5] 11 shm1)"

theorem shm_partial_overwrite_sticks_witness:
  "snd (ReleaseIfCurrent (\<lambda>_. IoOk) [\<lparr>xStart = 10, xEnd = 13, xGen = 1\<rparr>] shm2) = shm2 \<and>
   ownerOf (extents shm2) 10 = Some 1 \<and> ownerOf (extents shm2) 11 = Some 2"
proof -
  have e: "extents shm1 = [\<lparr>xStart = 10, xEnd = 13, xGen = 1\<rparr>]" "\<not> closed shm1"
      "nextGen shm1 = 2"
    by (simp_all add: shm1_def shm_eval)
  have st: "StageWrite IoOk [5] 11 shm1 = (Inr \<lparr>xStart = 11, xEnd = 12, xGen = 2\<rparr>, shm2)"
    by (simp add: shm2_def shm1_def shm_eval)
  have c: "current \<lparr>xStart = 10, xEnd = 13, xGen = 1\<rparr> shm1"
    using e by (simp add: current_def)
  have "ownerOf (extents shm2) 11 = Some 2"
    using e by (simp add: shm2_def shm_eval shm1_def)
  then show ?thesis
    using shm_partial_overwrite_sticks [OF shm1_inv _ _ st c, of 11 10 "\<lambda>_. IoOk"] e by simp
qed

end
