(* ===== verification/MpegTS.thy ===== *)
theory MpegTS
  imports Prelude
begin

text \<open>
  The MPEG-TS detector of \<open>mpegts.go\<close>: packet validation, the search for ten consecutive packets,
  and the scanner that turns the host's writes into chunks of whole packets.
\<close>

section \<open>Constants and state\<close>

abbreviation tsPacketSize :: nat where "tsPacketSize \<equiv> 188"
abbreviation tsSyncByte :: u8 where "tsSyncByte \<equiv> 0x47"
abbreviation tsProbePackets :: nat where "tsProbePackets \<equiv> 10"
abbreviation tsProbeSize :: nat where "tsProbeSize \<equiv> 1880"
abbreviation tsTailSize :: nat where "tsTailSize \<equiv> 1879"
abbreviation maxBroadcastPackets :: nat where "maxBroadcastPackets \<equiv> 128"

record TSChunk =
  tcStart :: u64
  tcEnd :: u64
  tcData :: bytes

record TSScanner =
  buffer :: bytes
  bufferStart :: u64
  expected :: u64
  haveExpected :: bool
  detected :: bool

definition NewTSScanner :: TSScanner where
  "NewTSScanner = \<lparr>buffer = [], bufferStart = 0, expected = 0,
                   haveExpected = False, detected = False\<rparr>"

definition resetScanner :: "u64 \<Rightarrow> TSScanner \<Rightarrow> TSScanner" where
  "resetScanner off s = s\<lparr>buffer := [], bufferStart := off, expected := off,
                          haveExpected := True, detected := False\<rparr>"

section \<open>Packets\<close>

definition validTSPacket :: "bytes \<Rightarrow> bool" where
  "validTSPacket data =
     (if length data < tsPacketSize then False
      else if data ! 0 \<noteq> tsSyncByte then False
      else if data ! 3 AND 0x30 = 0 then False
      else True)"

text \<open>The inner loop of \<open>findMPEGTS\<close>: ten valid packets in a row from index \<open>i\<close>.\<close>

definition probeAt :: "bytes \<Rightarrow> nat \<Rightarrow> bool" where
  "probeAt data i =
     list_all (\<lambda>packet. validTSPacket (drop (i + packet * tsPacketSize) data))
       [0..<tsProbePackets]"

definition findMPEGTS :: "bytes \<Rightarrow> nat option" where
  "findMPEGTS data =
     (if length data < tsProbeSize then None
      else find (\<lambda>i. data ! i = tsSyncByte \<and> probeAt data i)
             [0..<length data - tsProbeSize + 1])"

section \<open>The scanner\<close>

text \<open>\<open>dropFront n\<close> is the \<open>copy\<close> and reslice that discards the first \<open>n\<close> buffered bytes.\<close>

definition dropFront :: "nat \<Rightarrow> TSScanner \<Rightarrow> TSScanner" where
  "dropFront n s = s\<lparr>buffer := drop n (buffer s),
                     bufferStart := bufferStart s + word_of_nat n\<rparr>"

definition keepTail :: "TSScanner \<Rightarrow> TSScanner" where
  "keepTail s =
     (if length (buffer s) \<le> tsTailSize then s
      else dropFront (length (buffer s) - tsTailSize) s)"

text \<open>
  The head of the loop body of \<open>emit\<close>: find the next packet if the buffer does not start with
  one.  \<open>Inl\<close> leaves the loop, \<open>Inr\<close> goes on.
\<close>

definition resync :: "TSScanner \<Rightarrow> TSScanner + TSScanner" where
  "resync s =
     (if validTSPacket (buffer s) then Inr s
      else case findMPEGTS (buffer s) of
        None \<Rightarrow> Inl (keepTail s)
      | Some idx \<Rightarrow>
          let s1 = (if idx > 0 then dropFront idx s else s)
          in (if length (buffer s1) < tsPacketSize then Inl s1 else Inr s1))"

text \<open>The loop that counts \<open>validPackets\<close>, at most \<open>k\<close>.\<close>

fun countValid :: "bytes \<Rightarrow> nat \<Rightarrow> nat" where
  "countValid b 0 = 0"
| "countValid b (Suc k) =
     (if validTSPacket b then Suc (countValid (drop tsPacketSize b) k) else 0)"

definition packetRun :: "bytes \<Rightarrow> nat" where
  "packetRun b =
     (let packetCount = length b div tsPacketSize
      in countValid b (if packetCount > maxBroadcastPackets then maxBroadcastPackets
                       else packetCount))"

lemma resync_length: "resync s = Inr s1 \<Longrightarrow> length (buffer s1) \<le> length (buffer s)"
  by (auto simp: resync_def dropFront_def Let_def split: if_splits option.splits)

function emit :: "TSScanner \<Rightarrow> TSChunk list \<times> TSScanner" where
  "emit s =
     (if length (buffer s) < tsPacketSize then ([], s)
      else case resync s of
        Inl s' \<Rightarrow> ([], s')
      | Inr s1 \<Rightarrow>
          let validPackets = packetRun (buffer s1)
          in (if length (buffer s1) < tsPacketSize then ([], s1)
              else if validPackets = 0 then emit (dropFront 1 s1)
              else
                let n = validPackets * tsPacketSize;
                    chunk = \<lparr>tcStart = bufferStart s1,
                             tcEnd = bufferStart s1 + word_of_nat n,
                             tcData = take n (buffer s1)\<rparr>;
                    (out, s') = emit (dropFront n s1)
                in (chunk # out, s')))"
  by pat_completeness auto
termination
  by (relation "measure (\<lambda>s. length (buffer s))")
    (auto simp: dropFront_def dest!: resync_length)

declare emit.simps [simp del]

text \<open>\<open>Feed\<close>: the chunks, the flag that the write belongs to a transport stream, the new state.\<close>

definition Feed :: "u64 \<Rightarrow> bytes \<Rightarrow> TSScanner \<Rightarrow> TSChunk list \<times> bool \<times> TSScanner" where
  "Feed off data s =
     (if data = [] then ([], detected s, s)
      else if detected s then
        (if off = expected s then
           let s1 = s\<lparr>buffer := buffer s @ data,
                      expected := off + word_of_nat (length data)\<rparr>;
               (out, s2) = emit s1
           in (out, True, s2)
         else case findMPEGTS data of
           None \<Rightarrow> ([], False, s)
         | Some idx \<Rightarrow>
             let s1 = s\<lparr>buffer := drop idx data,
                        bufferStart := off + word_of_nat idx,
                        expected := off + word_of_nat (length data)\<rparr>;
                 (out, s2) = emit s1
             in (out, True, s2))
      else
        let s0 = (if \<not> haveExpected s \<or> off \<noteq> expected s then resetScanner off s else s);
            s1 = s0\<lparr>buffer := buffer s0 @ data,
                    expected := off + word_of_nat (length data)\<rparr>
        in (case findMPEGTS (buffer s1) of
              None \<Rightarrow> ([], False, keepTail s1)
            | Some idx \<Rightarrow>
                let s2 = (if idx > 0 then dropFront idx s1 else s1)\<lparr>detected := True\<rparr>;
                    (out, s3) = emit s2
                in (out, True, s3)))"

text \<open>A sequence of writes, with all the chunks it produced.\<close>

fun feedAll :: "(u64 \<times> bytes) list \<Rightarrow> TSScanner \<Rightarrow> TSChunk list \<times> TSScanner" where
  "feedAll [] s = ([], s)"
| "feedAll ((off, data) # ws) s =
     (let (out, _, s1) = Feed off data s; (outs, s2) = feedAll ws s1 in (out @ outs, s2))"

section \<open>Packets: what the search finds\<close>

lemma validTSPacket_iff:
  "validTSPacket b \<longleftrightarrow>
     tsPacketSize \<le> length b \<and> b ! 0 = tsSyncByte \<and> b ! 3 AND 0x30 \<noteq> 0"
  by (auto simp: validTSPacket_def)

lemma validTSPacket_take:
  "tsPacketSize \<le> n \<Longrightarrow> validTSPacket (take n b) = validTSPacket b"
  by (auto simp: validTSPacket_iff)

lemma validTSPacket_append:
  "tsPacketSize \<le> length b \<Longrightarrow> validTSPacket (b @ c) = validTSPacket b"
  by (auto simp: validTSPacket_iff nth_append)

lemma probeAt_iff:
  "probeAt data i \<longleftrightarrow> (\<forall>packet < tsProbePackets. validTSPacket (drop (i + packet * tsPacketSize) data))"
  by (auto simp: probeAt_def list_all_iff)

lemma findMPEGTS_Some:
  assumes "findMPEGTS data = Some i"
  shows "i + tsProbeSize \<le> length data" and "probeAt data i"
    and "\<And>j. j < i \<Longrightarrow> \<not> probeAt data j"
proof -
  have len: "tsProbeSize \<le> length data"
    and f: "find (\<lambda>i. data ! i = tsSyncByte \<and> probeAt data i)
        [0..<length data - tsProbeSize + 1] = Some i"
    using assms by (auto simp: findMPEGTS_def split: if_splits)
  then obtain k where k: "k < length data - tsProbeSize + 1" "i = k"
      "data ! i = tsSyncByte \<and> probeAt data i"
      "\<forall>j < k. \<not> (data ! j = tsSyncByte \<and> probeAt data j)"
    by (auto simp: find_Some_iff simp del: upt_Suc)
  show "i + tsProbeSize \<le> length data" using k len by simp
  show "probeAt data i" using k by simp
  show "\<not> probeAt data j" if "j < i" for j
  proof
    assume p: "probeAt data j"
    then have "validTSPacket (drop j data)"
      by (auto simp: probeAt_iff dest: spec [of _ 0])
    then have "data ! j = tsSyncByte"
      by (auto simp: validTSPacket_iff)
    then show False using k p that by auto
  qed
qed

lemma probeAt_fits: "probeAt data i \<Longrightarrow> i + tsProbeSize \<le> length data"
proof -
  assume "probeAt data i"
  then have "validTSPacket (drop (i + 9 * tsPacketSize) data)"
    by (auto simp: probeAt_iff dest: spec [of _ 9])
  then have "tsPacketSize \<le> length data - (i + 9 * tsPacketSize)"
    by (simp add: validTSPacket_iff)
  then show ?thesis by linarith
qed

lemma probeAt_head: "probeAt data i \<Longrightarrow> validTSPacket (drop i data)"
  by (auto simp: probeAt_iff dest: spec [of _ 0])

lemma findMPEGTS_None:
  "findMPEGTS data = None \<longleftrightarrow> (\<forall>i. \<not> probeAt data i)"
proof
  assume n: "findMPEGTS data = None"
  show "\<forall>i. \<not> probeAt data i"
  proof (rule allI, rule notI)
    fix i assume p: "probeAt data i"
    then have "data ! i = tsSyncByte"
      using probeAt_head [OF p] by (auto simp: validTSPacket_iff)
    then show False
      using n p probeAt_fits [OF p]
      by (auto simp: findMPEGTS_def find_None_iff split: if_splits)
  qed
next
  assume "\<forall>i. \<not> probeAt data i"
  then show "findMPEGTS data = None"
    by (auto simp: findMPEGTS_def find_None_iff)
qed

lemma countValid_le: "countValid b k \<le> k"
  by (induction b k rule: countValid.induct) auto

lemma countValid_valid:
  "i < countValid b k \<Longrightarrow> validTSPacket (drop (i * tsPacketSize) b)"
proof (induction b k arbitrary: i rule: countValid.induct)
  case (1 b)
  then show ?case by simp
next
  case (2 b k)
  show ?case
  proof (cases i)
    case 0
    then show ?thesis using "2.prems" by (simp split: if_splits)
  next
    case (Suc j)
    then show ?thesis
      using "2.IH" [of j] "2.prems" by (auto simp: add.commute split: if_splits)
  qed
qed

lemma packetRun_eq:
  "packetRun b = countValid b (min maxBroadcastPackets (length b div tsPacketSize))"
  by (auto simp: packetRun_def Let_def min_def)

lemma packetRun_bounds:
  "packetRun b \<le> maxBroadcastPackets" "packetRun b * tsPacketSize \<le> length b"
proof -
  have "packetRun b \<le> min maxBroadcastPackets (length b div tsPacketSize)"
    by (simp only: packetRun_eq countValid_le)
  then show "packetRun b \<le> maxBroadcastPackets" "packetRun b * tsPacketSize \<le> length b"
    by auto
qed

lemma packetRun_valid: "i < packetRun b \<Longrightarrow> validTSPacket (drop (i * tsPacketSize) b)"
  by (simp add: packetRun_def Let_def countValid_valid split: if_splits)

lemma packetRun_pos: "validTSPacket b \<Longrightarrow> 0 < packetRun b"
proof -
  assume v: "validTSPacket b"
  then have "0 < min maxBroadcastPackets (length b div tsPacketSize)"
    by (simp add: validTSPacket_iff div_greater_zero_iff)
  then obtain k where "min maxBroadcastPackets (length b div tsPacketSize) = Suc k"
    using gr0_implies_Suc by blast
  then show ?thesis
    using v by (simp add: packetRun_eq)
qed

lemma dropFront_simps [simp]:
  "buffer (dropFront n s) = drop n (buffer s)"
  "bufferStart (dropFront n s) = bufferStart s + word_of_nat n"
  "expected (dropFront n s) = expected s"
  "haveExpected (dropFront n s) = haveExpected s"
  "detected (dropFront n s) = detected s"
  by (simp_all add: dropFront_def)

lemma dropFront_0 [simp]: "dropFront 0 s = s"
  by (simp add: dropFront_def)

lemma dropFront_dropFront: "dropFront m (dropFront n s) = dropFront (n + m) s"
  by (simp add: dropFront_def add.assoc drop_drop add.commute)

text \<open>
  After \<open>resync\<close> goes on, the buffer starts with a valid packet; the branch of \<open>emit\<close> that
  advances a single byte is never taken.
\<close>

lemma resync_Inr:
  assumes "resync s = Inr s1"
  shows "validTSPacket (buffer s1)" and "\<exists>i \<le> length (buffer s). s1 = dropFront i s"
proof -
  have "validTSPacket (buffer s1) \<and> (\<exists>i \<le> length (buffer s). s1 = dropFront i s)"
  proof (cases "validTSPacket (buffer s)")
    case True
    then have "s1 = dropFront 0 s" using assms by (simp add: resync_def)
    then show ?thesis using True by auto
  next
    case False
    then obtain i where f: "findMPEGTS (buffer s) = Some i" and s1: "s1 = dropFront i s"
      using assms by (auto simp: resync_def Let_def split: option.splits if_splits)
    show ?thesis
      using probeAt_head [OF findMPEGTS_Some(2) [OF f]] findMPEGTS_Some(1) [OF f] s1
      by (auto intro: exI [of _ i])
  qed
  then show "validTSPacket (buffer s1)" and "\<exists>i \<le> length (buffer s). s1 = dropFront i s"
    by auto
qed

lemma resync_Inl:
  assumes "resync s = Inl s'"
  shows "s' = keepTail s" and "findMPEGTS (buffer s) = None"
proof -
  have "validTSPacket (drop i (buffer s)) \<Longrightarrow> \<not> length (drop i (buffer s)) < tsPacketSize" for i
    by (simp add: validTSPacket_iff)
  then show "s' = keepTail s" and "findMPEGTS (buffer s) = None"
    using assms probeAt_head [OF findMPEGTS_Some(2), of "buffer s"]
    by (auto simp: resync_def Let_def split: option.splits if_splits)
qed

lemma keepTail_drop: "\<exists>i \<le> length (buffer s). keepTail s = dropFront i s"
  by (auto simp: keepTail_def intro: exI [of _ 0] exI [of _ "length (buffer s) - tsTailSize"])

lemma keepTail_length: "length (buffer (keepTail s)) \<le> tsTailSize"
  by (simp add: keepTail_def)

text \<open>The loop of \<open>emit\<close> with the dead branches gone.\<close>

lemma emit_unfold:
  "emit s =
     (if length (buffer s) < tsPacketSize then ([], s)
      else case resync s of
        Inl s' \<Rightarrow> ([], s')
      | Inr s1 \<Rightarrow>
          let n = packetRun (buffer s1) * tsPacketSize;
              (out, s') = emit (dropFront n s1)
          in (\<lparr>tcStart = bufferStart s1, tcEnd = bufferStart s1 + word_of_nat n,
               tcData = take n (buffer s1)\<rparr> # out, s'))"
proof -
  have "\<not> length (buffer s1) < tsPacketSize \<and> packetRun (buffer s1) \<noteq> 0"
    if "resync s = Inr s1" for s1
    using resync_Inr(1) [OF that] packetRun_pos [of "buffer s1"]
    by (auto simp: validTSPacket_iff)
  then show ?thesis
    by (subst emit.simps) (auto simp: Let_def split: sum.splits)
qed

end
