(* ===== verification/MpegTSSpec.thy ===== *)
theory MpegTSSpec
  imports MpegTS
begin

text \<open>
  What the scanner promises: the shape and the place of the chunks it emits, the invariant of its
  state, that every emitted byte was written by the host at the position the chunk names, and that
  a contiguous stream of valid packets comes out complete and in order, however it was cut into
  writes.
\<close>

section \<open>Where the chunks of one emission lie\<close>

text \<open>
  \<open>chunkAt b st k c\<close>: chunk \<open>c\<close> holds the bytes of \<open>b\<close> from index \<open>k\<close> on, when \<open>b\<close> starts at
  position \<open>st\<close> of the disk.  \<open>laidOut\<close>: the chunks follow one another without overlap.
\<close>

definition chunkAt :: "bytes \<Rightarrow> u64 \<Rightarrow> nat \<Rightarrow> TSChunk \<Rightarrow> bool" where
  "chunkAt b st k c \<longleftrightarrow>
     k + length (tcData c) \<le> length b \<and> tcData c = take (length (tcData c)) (drop k b) \<and>
     tcStart c = st + word_of_nat k \<and> tcEnd c = tcStart c + word_of_nat (length (tcData c))"

fun laidOut :: "bytes \<Rightarrow> u64 \<Rightarrow> nat \<Rightarrow> TSChunk list \<Rightarrow> nat \<Rightarrow> bool" where
  "laidOut b st k [] m \<longleftrightarrow> k \<le> m"
| "laidOut b st k (c # cs) m \<longleftrightarrow>
     (\<exists>k1. k \<le> k1 \<and> chunkAt b st k1 c \<and> laidOut b st (k1 + length (tcData c)) cs m)"

text \<open>A chunk is a run of 1 to 128 valid packets.\<close>

definition chunkOk :: "TSChunk \<Rightarrow> bool" where
  "chunkOk c \<longleftrightarrow>
     (\<exists>k. 1 \<le> k \<and> k \<le> maxBroadcastPackets \<and> length (tcData c) = k * tsPacketSize \<and>
          (\<forall>i < k. validTSPacket (drop (i * tsPacketSize) (tcData c)))) \<and>
     tcEnd c = tcStart c + word_of_nat (length (tcData c))"

lemma chunkAt_shift:
  assumes "chunkAt (drop j b) (st + word_of_nat j) k c" and "j \<le> length b"
  shows "chunkAt b st (j + k) c"
  using assms by (auto simp: chunkAt_def add.commute add.left_commute)

lemma laidOut_shift:
  "laidOut (drop j b) (st + word_of_nat j) k cs m \<Longrightarrow> j \<le> length b \<Longrightarrow>
     laidOut b st (j + k) cs (j + m)"
proof (induction cs arbitrary: k)
  case Nil
  then show ?case by simp
next
  case (Cons c cs)
  then obtain k1 where k1: "k \<le> k1" "chunkAt (drop j b) (st + word_of_nat j) k1 c"
    "laidOut (drop j b) (st + word_of_nat j) (k1 + length (tcData c)) cs m"
    by auto
  then have "laidOut b st (j + k1 + length (tcData c)) cs (j + m)"
    using Cons.IH Cons.prems(2) by (metis add.assoc)
  then show ?case
    using k1 chunkAt_shift [OF k1(2) Cons.prems(2)] by (auto intro!: exI [of _ "j + k1"])
qed

lemma laidOut_mono: "laidOut b st k cs m \<Longrightarrow> k' \<le> k \<Longrightarrow> laidOut b st k' cs m"
  by (cases cs) (auto intro: order.trans)

lemma laidOut_chunk:
  "laidOut b st k cs m \<Longrightarrow> c \<in> set cs \<Longrightarrow> \<exists>j. chunkAt b st j c"
  by (induction cs arbitrary: k) auto

lemma packetRun_chunk:
  fixes b :: bytes
  assumes "validTSPacket b"
  shows "chunkOk \<lparr>tcStart = st, tcEnd = st + word_of_nat (packetRun b * tsPacketSize),
                  tcData = take (packetRun b * tsPacketSize) b\<rparr>"
proof -
  let ?k = "packetRun b"
  have k: "1 \<le> ?k" "?k \<le> maxBroadcastPackets" "?k * tsPacketSize \<le> length b"
    using packetRun_pos [OF assms] packetRun_bounds [of b] by auto
  have "validTSPacket (drop (i * tsPacketSize) (take (?k * tsPacketSize) b))" if "i < ?k" for i
  proof -
    have "tsPacketSize \<le> ?k * tsPacketSize - i * tsPacketSize"
      using that by (metis diff_mult_distrib mult_le_mono1 mult_1 Suc_leI zero_less_diff
          One_nat_def)
    then show ?thesis
      using packetRun_valid [OF that] by (simp add: drop_take validTSPacket_take)
  qed
  then show ?thesis
    using k by (auto simp: chunkOk_def min_def intro!: exI [of _ ?k])
qed

lemma emit_spec:
  assumes "emit s = (cs, s')"
  shows "\<exists>m \<le> length (buffer s). s' = dropFront m s \<and>
           laidOut (buffer s) (bufferStart s) 0 cs m \<and> (\<forall>c \<in> set cs. chunkOk c) \<and>
           length (buffer s') \<le> tsTailSize"
  using assms
proof (induction "length (buffer s)" arbitrary: s cs s' rule: less_induct)
  case less
  show ?case
  proof (cases "length (buffer s) < tsPacketSize")
    case True
    then show ?thesis
      using less.prems by (intro exI [of _ 0]) (auto simp: emit_unfold [of s])
  next
    case long: False
    show ?thesis
    proof (cases "resync s")
      case (Inl s1)
      then have "cs = []" "s' = keepTail s"
        using less.prems long resync_Inl(1) by (auto simp: emit_unfold [of s])
      then show ?thesis
        using keepTail_drop [of s] keepTail_length [of s] by auto
    next
      case (Inr s1)
      obtain i where i: "i \<le> length (buffer s)" "s1 = dropFront i s"
        using resync_Inr(2) [OF Inr] by blast
      let ?n = "packetRun (buffer s1) * tsPacketSize"
      let ?c = "\<lparr>tcStart = bufferStart s1, tcEnd = bufferStart s1 + word_of_nat ?n,
                 tcData = take ?n (buffer s1)\<rparr>"
      obtain out s2 where e: "emit (dropFront ?n s1) = (out, s2)"
        by fastforce
      then have r: "cs = ?c # out" "s' = s2"
        using less.prems long Inr by (auto simp: emit_unfold [of s] Let_def)
      have v: "validTSPacket (buffer s1)" using resync_Inr(1) [OF Inr] .
      have n: "?n \<le> length (buffer s1)" "0 < ?n"
        using packetRun_bounds packetRun_pos [OF v] by auto
      let ?t = "dropFront (i + ?n) s"
      have t: "dropFront ?n s1 = ?t" "i + ?n \<le> length (buffer s)"
        using i n by (auto simp: dropFront_dropFront)
      have "length (buffer ?t) < length (buffer s)"
        using n t(2) by simp
      then obtain m where m: "m \<le> length (buffer ?t)" "s2 = dropFront m ?t"
          "laidOut (buffer ?t) (bufferStart ?t) 0 out m" "\<forall>c \<in> set out. chunkOk c"
          "length (buffer s2) \<le> tsTailSize"
        using less.hyps e t(1) by metis
      have rest: "laidOut (buffer s) (bufferStart s) (i + ?n) out (i + ?n + m)"
        using laidOut_shift [of "i + ?n" "buffer s" "bufferStart s" 0] m(3) t(2) by simp
      have lc: "length (tcData ?c) = ?n" using n by simp
      then have "chunkAt (buffer s) (bufferStart s) i ?c"
        using i t(2) unfolding chunkAt_def by simp
      then have "laidOut (buffer s) (bufferStart s) 0 (?c # out) (i + ?n + m)"
        using rest lc by auto
      then show ?thesis
        using m t(2) r packetRun_chunk [OF v]
        by (intro exI [of _ "i + ?n + m"]) (auto simp: dropFront_dropFront add.assoc)
    qed
  qed
qed

section \<open>The invariant of the scanner\<close>

definition tsInv :: "TSScanner \<Rightarrow> bool" where
  "tsInv s \<longleftrightarrow>
     length (buffer s) \<le> tsTailSize \<and>
     (detected s \<longrightarrow> haveExpected s) \<and>
     (haveExpected s \<longrightarrow> expected s = bufferStart s + word_of_nat (length (buffer s))) \<and>
     (\<not> haveExpected s \<longrightarrow> buffer s = [])"

lemma tsInv_New: "tsInv NewTSScanner"
  by (simp add: tsInv_def NewTSScanner_def)

text \<open>The three shapes of a step: no change, buffer and keep the tail, buffer and emit.\<close>

definition buffered :: "u64 \<Rightarrow> bytes \<Rightarrow> u64 \<Rightarrow> bool \<Rightarrow> TSScanner" where
  "buffered st b ex d =
     \<lparr>buffer = b, bufferStart = st, expected = ex, haveExpected = True, detected = d\<rparr>"

lemma buffered_simps [simp]:
  "buffer (buffered st b ex d) = b"
  "bufferStart (buffered st b ex d) = st"
  "expected (buffered st b ex d) = ex"
  "haveExpected (buffered st b ex d)"
  "detected (buffered st b ex d) = d"
  by (simp_all add: buffered_def)

lemma Feed_cases:
  assumes "tsInv s" and "Feed off data s = (cs, flag, s')" and "data \<noteq> []"
  obtains (same) "detected s" "off \<noteq> expected s" "findMPEGTS data = None"
      "cs = []" "flag = False" "s' = s"
    | (append) "detected s" "off = expected s" "flag = True"
      "emit (buffered (bufferStart s) (buffer s @ data)
         (off + word_of_nat (length data)) True) = (cs, s')"
    | (segment) i where "detected s" "off \<noteq> expected s" "findMPEGTS data = Some i" "flag = True"
      "emit (buffered (off + word_of_nat i) (drop i data)
         (off + word_of_nat (length data)) True) = (cs, s')"
    | (candidate) st b where "\<not> detected s"
      "(st, b) = (if haveExpected s \<and> off = expected s
                  then (bufferStart s, buffer s @ data) else (off, data))"
      "findMPEGTS b = None" "cs = []" "flag = False"
      "s' = keepTail (buffered st b (off + word_of_nat (length data)) False)"
    | (found) st b i where "\<not> detected s"
      "(st, b) = (if haveExpected s \<and> off = expected s
                  then (bufferStart s, buffer s @ data) else (off, data))"
      "findMPEGTS b = Some i" "flag = True"
      "emit (dropFront i (buffered st b (off + word_of_nat (length data)) True)) = (cs, s')"
proof (cases "detected s")
  case det: True
  then have he: "haveExpected s" using assms(1) by (simp add: tsInv_def)
  show ?thesis
  proof (cases "off = expected s")
    case True
    have "s\<lparr>buffer := buffer s @ data, expected := off + word_of_nat (length data)\<rparr> =
        buffered (bufferStart s) (buffer s @ data) (off + word_of_nat (length data)) True"
      using det he by (simp add: buffered_def)
    then show ?thesis
      using append assms(2,3) det True by (auto simp: Feed_def Let_def split: prod.splits)
  next
    case False
    show ?thesis
    proof (cases "findMPEGTS data")
      case None
      then show ?thesis using same assms(2,3) det False by (simp add: Feed_def)
    next
      case (Some i)
      have "s\<lparr>buffer := drop i data, bufferStart := off + word_of_nat i,
              expected := off + word_of_nat (length data)\<rparr> =
          buffered (off + word_of_nat i) (drop i data) (off + word_of_nat (length data)) True"
        using det he by (simp add: buffered_def)
      then show ?thesis
        using segment assms(2,3) det False Some
        by (auto simp: Feed_def Let_def split: prod.splits)
    qed
  qed
next
  case nd: False
  define s0 where "s0 = (if \<not> haveExpected s \<or> off \<noteq> expected s then resetScanner off s else s)"
  define st where "st = bufferStart s0"
  define b where "b = buffer s0 @ data"
  have stb: "(st, b) = (if haveExpected s \<and> off = expected s
                  then (bufferStart s, buffer s @ data) else (off, data))"
    by (auto simp: st_def b_def s0_def resetScanner_def)
  have s1: "s0\<lparr>buffer := buffer s0 @ data, expected := off + word_of_nat (length data)\<rparr> =
      buffered st b (off + word_of_nat (length data)) False"
    using nd by (auto simp: s0_def st_def b_def buffered_def resetScanner_def)
  let ?b = "buffered st b (off + word_of_nat (length data))"
  have "Feed off data s =
      (let s1 = s0\<lparr>buffer := buffer s0 @ data, expected := off + word_of_nat (length data)\<rparr>
       in case findMPEGTS (buffer s1) of
            None \<Rightarrow> ([], False, keepTail s1)
          | Some idx \<Rightarrow>
              let s2 = (if idx > 0 then dropFront idx s1 else s1)\<lparr>detected := True\<rparr>;
                  (out, s3) = emit s2
              in (out, True, s3))"
    using nd assms(3) by (simp add: Feed_def Let_def s0_def)
  moreover have "(if i > 0 then dropFront i (?b False) else ?b False)\<lparr>detected := True\<rparr> =
      dropFront i (?b True)" for i
    by (simp add: buffered_def dropFront_def)
  ultimately have F: "Feed off data s = (case findMPEGTS b of
        None \<Rightarrow> ([], False, keepTail (?b False))
      | Some i \<Rightarrow> let (out, s3) = emit (dropFront i (?b True)) in (out, True, s3))"
    by (simp only: s1 Let_def buffered_simps)
  show ?thesis
  proof (cases "findMPEGTS b")
    case None
    then show ?thesis using candidate [OF nd stb] assms(2) F by simp
  next
    case (Some i)
    then show ?thesis using found [OF nd stb] assms(2) F by (auto split: prod.splits)
  qed
qed


lemma dropFront_end:
  assumes "m \<le> length (buffer s)"
    and "expected s = bufferStart s + word_of_nat (length (buffer s))"
  shows "expected (dropFront m s) =
     bufferStart (dropFront m s) + word_of_nat (length (buffer (dropFront m s)))"
  using assms by (simp add: of_nat_diff)

lemma tsInv_dropFront:
  assumes "m \<le> length (buffer s)" and "haveExpected s"
    and "expected s = bufferStart s + word_of_nat (length (buffer s))"
    and "length (buffer (dropFront m s)) \<le> tsTailSize"
  shows "tsInv (dropFront m s)"
  using dropFront_end [OF assms(1,3)] assms(2,4) by (simp add: tsInv_def)

lemma emit_inv:
  assumes "emit s = (cs, s')" and "haveExpected s"
    and "expected s = bufferStart s + word_of_nat (length (buffer s))"
  shows "tsInv s'"
  using emit_spec [OF assms(1)] tsInv_dropFront [OF _ assms(2,3)] by blast

lemma candidate_end:
  assumes "tsInv s"
    and "(st, b) = (if haveExpected s \<and> off = expected s
                    then (bufferStart s, buffer s @ data) else (off, data))"
  shows "off + word_of_nat (length data) = st + word_of_nat (length b)"
  using assms by (auto simp: tsInv_def add.assoc split: if_splits)

lemma Feed_inv:
  assumes "tsInv s" and "Feed off data s = (cs, flag, s')"
  shows "tsInv s'"
proof (cases "data = []")
  case True
  then show ?thesis using assms by (simp add: Feed_def)
next
  case False
  from assms False show ?thesis
  proof (cases rule: Feed_cases)
    case same
    then show ?thesis using assms(1) by simp
  next
    case append
    show ?thesis
      by (rule emit_inv [OF append(4)])
        (use append assms(1) in \<open>auto simp: tsInv_def add.assoc\<close>)
  next
    case (segment i)
    show ?thesis
      by (rule emit_inv [OF segment(5)])
        (use findMPEGTS_Some(1) [OF segment(3)] in \<open>simp_all add: of_nat_diff\<close>)
  next
    case (candidate st b)
    show ?thesis
      using candidate(6) keepTail_drop [of "buffered st b (off + word_of_nat (length data)) False"]
        keepTail_length [of "buffered st b (off + word_of_nat (length data)) False"]
        tsInv_dropFront candidate_end [OF assms(1) candidate(2)]
      by fastforce
  next
    case (found st b i)
    show ?thesis
      by (rule emit_inv [OF found(5)])
        (use findMPEGTS_Some(1) [OF found(3)] candidate_end [OF assms(1) found(2)]
          in \<open>simp_all add: of_nat_diff\<close>)
  qed
qed

section \<open>Every emitted byte was written there\<close>

definition wrote :: "(u64 \<times> bytes) list \<Rightarrow> u64 \<Rightarrow> u8 \<Rightarrow> bool" where
  "wrote ws p v \<longleftrightarrow>
     (\<exists>(off, data) \<in> set ws. \<exists>j < length data. p = off + word_of_nat j \<and> data ! j = v)"

definition blockWrote :: "(u64 \<times> bytes) list \<Rightarrow> u64 \<Rightarrow> bytes \<Rightarrow> bool" where
  "blockWrote ws st b \<longleftrightarrow> (\<forall>i < length b. wrote ws (st + word_of_nat i) (b ! i))"

lemma blockWrote_Nil [simp]: "blockWrote ws st []"
  by (simp add: blockWrote_def)

lemma blockWrote_mono: "blockWrote ws st b \<Longrightarrow> set ws \<subseteq> set ws' \<Longrightarrow> blockWrote ws' st b"
  by (fastforce simp: blockWrote_def wrote_def)

lemma blockWrote_single: "(off, data) \<in> set ws \<Longrightarrow> blockWrote ws off data"
  by (fastforce simp: blockWrote_def wrote_def)

lemma blockWrote_append:
  assumes "blockWrote ws st b" and "blockWrote ws (st + word_of_nat (length b)) d"
  shows "blockWrote ws st (b @ d)"
  unfolding blockWrote_def
proof (intro allI impI)
  fix i assume i: "i < length (b @ d)"
  show "wrote ws (st + word_of_nat i) ((b @ d) ! i)"
  proof (cases "i < length b")
    case True
    then show ?thesis using assms(1) by (simp add: blockWrote_def nth_append)
  next
    case False
    then have "i - length b < length d"
      using i by auto
    then have "wrote ws (st + word_of_nat (length b) + word_of_nat (i - length b))
        (d ! (i - length b))"
      using assms(2) unfolding blockWrote_def by blast
    then show ?thesis using False by (simp add: nth_append word_off_add del: of_nat_add)
  qed
qed

lemma blockWrote_sub:
  assumes "blockWrote ws st b" and "m \<le> length b"
  shows "blockWrote ws (st + word_of_nat m) (take n (drop m b))"
  unfolding blockWrote_def
proof (intro allI impI)
  fix i assume "i < length (take n (drop m b))"
  then have "m + i < length b" "take n (drop m b) ! i = b ! (m + i)" by auto
  then show "wrote ws (st + word_of_nat m + word_of_nat i) (take n (drop m b) ! i)"
    using assms(1) by (simp add: blockWrote_def word_off_add del: of_nat_add)
qed

lemma blockWrote_drop:
  "blockWrote ws st b \<Longrightarrow> m \<le> length b \<Longrightarrow> blockWrote ws (st + word_of_nat m) (drop m b)"
  using blockWrote_sub [of ws st b m "length b"] by simp

lemma emit_wrote:
  assumes "emit s = (cs, s')" and "blockWrote ws (bufferStart s) (buffer s)"
  shows "blockWrote ws (bufferStart s') (buffer s')"
    and "c \<in> set cs \<Longrightarrow> chunkOk c \<and> blockWrote ws (tcStart c) (tcData c)"
proof -
  obtain m where m: "m \<le> length (buffer s)" "s' = dropFront m s"
    "laidOut (buffer s) (bufferStart s) 0 cs m" "\<forall>c \<in> set cs. chunkOk c"
    using emit_spec [OF assms(1)] by blast
  show "blockWrote ws (bufferStart s') (buffer s')"
    using blockWrote_drop [OF assms(2) m(1)] m(2) by simp
  assume c: "c \<in> set cs"
  then obtain j where "chunkAt (buffer s) (bufferStart s) j c"
    using laidOut_chunk [OF m(3)] by blast
  then have "j \<le> length (buffer s)" "tcStart c = bufferStart s + word_of_nat j"
    "tcData c = take (length (tcData c)) (drop j (buffer s))"
    unfolding chunkAt_def by auto
  then show "chunkOk c \<and> blockWrote ws (tcStart c) (tcData c)"
    using blockWrote_sub [OF assms(2)] m(4) c by metis
qed

lemma Feed_wrote:
  assumes inv: "tsInv s" and F: "Feed off data s = (cs, flag, s')"
    and buf: "blockWrote ws (bufferStart s) (buffer s)" and here: "(off, data) \<in> set ws"
  shows "blockWrote ws (bufferStart s') (buffer s') \<and>
     (\<forall>c \<in> set cs. chunkOk c \<and> blockWrote ws (tcStart c) (tcData c))"
proof (cases "data = []")
  case True
  then show ?thesis using F buf by (simp add: Feed_def)
next
  case False
  have data: "blockWrote ws off data" using blockWrote_single here .
  have cand: "blockWrote ws st b"
    if "(st, b) = (if haveExpected s \<and> off = expected s
          then (bufferStart s, buffer s @ data) else (off, data))" for st b
    using that inv data blockWrote_append [OF buf] by (auto simp: tsInv_def split: if_splits)
  from inv F False show ?thesis
  proof (cases rule: Feed_cases)
    case same
    then show ?thesis using buf by simp
  next
    case append
    have "blockWrote ws (bufferStart s) (buffer s @ data)"
      using inv append(1,2) data blockWrote_append [OF buf] by (simp add: tsInv_def)
    then show ?thesis using emit_wrote [OF append(4)] by simp
  next
    case (segment i)
    have "blockWrote ws (off + word_of_nat i) (drop i data)"
      using data findMPEGTS_Some(1) [OF segment(3)] by (intro blockWrote_drop) simp_all
    then show ?thesis using emit_wrote [OF segment(5)] by simp
  next
    case (candidate st b)
    obtain m where "m \<le> length b"
      "s' = dropFront m (buffered st b (off + word_of_nat (length data)) False)"
      using candidate(6) keepTail_drop by (metis buffered_simps(1))
    then show ?thesis
      using blockWrote_drop [OF cand [OF candidate(2)]] candidate(4) by simp
  next
    case (found st b i)
    have "blockWrote ws (st + word_of_nat i) (drop i b)"
      using cand [OF found(2)] findMPEGTS_Some(1) [OF found(3)]
      by (intro blockWrote_drop) simp_all
    then show ?thesis using emit_wrote [OF found(5)] by simp
  qed
qed

lemma feedAll_wrote:
  assumes "tsInv s" and "feedAll ws s = (cs, s')"
    and "blockWrote hist (bufferStart s) (buffer s)" and "set ws \<subseteq> set hist"
  shows "tsInv s' \<and> (\<forall>c \<in> set cs. chunkOk c \<and> blockWrote hist (tcStart c) (tcData c))"
  using assms
proof (induction ws arbitrary: s cs s')
  case Nil
  then show ?case by simp
next
  case (Cons w ws)
  obtain off data where w: "w = (off, data)" by fastforce
  obtain out flag s1 where F: "Feed off data s = (out, flag, s1)"
    by (cases "Feed off data s") auto
  obtain outs s2 where R: "feedAll ws s1 = (outs, s2)" by fastforce
  have "cs = out @ outs" "s' = s2"
    using Cons.prems(2) w F R by auto
  then show ?case
    using Cons.IH [OF Feed_inv [OF Cons.prems(1) F] R] Cons.prems(3,4) w
      Feed_wrote [OF Cons.prems(1) F Cons.prems(3)]
    by auto
qed

section \<open>A stream of valid packets comes out complete\<close>

text \<open>
  \<open>streamValid b\<close>: every whole packet of \<open>b\<close> is valid.  \<open>whole b\<close> is the length of the whole
  packets of \<open>b\<close>.
\<close>

definition streamValid :: "bytes \<Rightarrow> bool" where
  "streamValid b \<longleftrightarrow>
     (\<forall>i. (i + 1) * tsPacketSize \<le> length b \<longrightarrow> validTSPacket (drop (i * tsPacketSize) b))"

definition whole :: "bytes \<Rightarrow> nat" where
  "whole b = length b div tsPacketSize * tsPacketSize"

lemma whole_le: "whole b \<le> length b"
  by (simp add: whole_def)

lemma whole_rest: "length b - whole b < tsPacketSize"
  by (simp add: whole_def minus_div_mult_eq_mod)

lemma streamValidD:
  "streamValid b \<Longrightarrow> (i + 1) * tsPacketSize \<le> length b \<Longrightarrow>
     validTSPacket (drop (i * tsPacketSize) b)"
  unfolding streamValid_def by blast

lemma streamValid_drop:
  assumes "streamValid b"
  shows "streamValid (drop (k * tsPacketSize) b)"
  unfolding streamValid_def
proof (intro allI impI)
  fix i assume "(i + 1) * tsPacketSize \<le> length (drop (k * tsPacketSize) b)"
  then have "(i + k + 1) * tsPacketSize \<le> length b"
    by (simp add: algebra_simps)
  then have "validTSPacket (drop ((i + k) * tsPacketSize) b)"
    by (rule streamValidD [OF assms])
  then show "validTSPacket (drop (i * tsPacketSize) (drop (k * tsPacketSize) b))"
    by (simp add: algebra_simps)
qed

lemma streamValid_prefix:
  assumes "streamValid (b @ c)"
  shows "streamValid b"
  unfolding streamValid_def
proof (intro allI impI)
  fix i assume i: "(i + 1) * tsPacketSize \<le> length b"
  then have "validTSPacket (drop (i * tsPacketSize) (b @ c))"
    by (intro streamValidD [OF assms]) simp
  moreover have "drop (i * tsPacketSize) (b @ c) = drop (i * tsPacketSize) b @ c"
    using i by simp
  ultimately show "validTSPacket (drop (i * tsPacketSize) b)"
    using i validTSPacket_append [of "drop (i * tsPacketSize) b" c] by simp
qed

lemma streamValid_head: "streamValid b \<Longrightarrow> tsPacketSize \<le> length b \<Longrightarrow> validTSPacket b"
  by (auto simp: streamValid_def dest: spec [of _ 0])

lemma streamValid_probe:
  assumes "streamValid b" and "tsProbeSize \<le> length b"
  shows "findMPEGTS b = Some 0"
proof -
  have "validTSPacket (drop (k * tsPacketSize) b)" if "k < tsProbePackets" for k
  proof -
    have "(k + 1) * tsPacketSize \<le> tsProbeSize" using that by simp
    then show ?thesis by (intro streamValidD [OF assms(1)] order.trans [OF _ assms(2)])
  qed
  then have "probeAt b 0" by (simp add: probeAt_iff)
  then show ?thesis
    using findMPEGTS_None [of b] findMPEGTS_Some(3) [of b _ 0]
    by (cases "findMPEGTS b") auto
qed

lemma emit_stream:
  assumes "streamValid (buffer s)"
  shows "snd (emit s) = dropFront (whole (buffer s)) s"
    and "concat (map tcData (fst (emit s))) = take (whole (buffer s)) (buffer s)"
proof -
  have "snd (emit s) = dropFront (whole (buffer s)) s \<and>
      concat (map tcData (fst (emit s))) = take (whole (buffer s)) (buffer s)"
    using assms
  proof (induction "length (buffer s)" arbitrary: s rule: less_induct)
    case less
    show ?case
    proof (cases "length (buffer s) < tsPacketSize")
      case True
      then show ?thesis by (simp add: emit_unfold [of s] whole_def)
    next
      case False
      then have v: "validTSPacket (buffer s)"
        using streamValid_head less.prems by simp
      then have r: "resync s = Inr s" by (simp add: resync_def)
      let ?k = "packetRun (buffer s)"
      let ?t = "dropFront (?k * tsPacketSize) s"
      have k: "?k * tsPacketSize \<le> length (buffer s)" "0 < ?k"
        using packetRun_bounds packetRun_pos [OF v] by auto
      have "length (buffer ?t) < length (buffer s)" "streamValid (buffer ?t)"
        using k False streamValid_drop less.prems by auto
      note ih = less.hyps [OF this]
      have "?k \<le> length (buffer s) div tsPacketSize"
        using k(1) by (simp add: less_eq_div_iff_mult_less_eq)
      moreover have "(length (buffer s) - ?k * tsPacketSize) div tsPacketSize
          = length (buffer s) div tsPacketSize - ?k"
        by (rule div_minus_mult) simp
      ultimately have w: "?k * tsPacketSize + whole (buffer ?t) = whole (buffer s)"
        by (simp add: whole_def diff_mult_distrib)
      have "take (?k * tsPacketSize) (buffer s) @ take (whole (buffer ?t)) (buffer ?t)
          = take (whole (buffer s)) (buffer s)"
        unfolding w [symmetric] by (simp add: take_add)
      moreover obtain out s2 where e: "emit ?t = (out, s2)" by fastforce
      ultimately show ?thesis
        using False r ih w by (simp add: emit_unfold [of s] Let_def dropFront_dropFront)
    qed
  qed
  then show "snd (emit s) = dropFront (whole (buffer s)) s"
    and "concat (map tcData (fst (emit s))) = take (whole (buffer s)) (buffer s)"
    by auto
qed

text \<open>
  The state after the prefix \<open>P\<close> of a stream that starts at \<open>base\<close>, and what has been emitted
  by then.
\<close>

definition streamed :: "bytes \<Rightarrow> bytes" where
  "streamed P = (if length P < tsProbeSize then [] else take (whole P) P)"

definition afterPrefix :: "u64 \<Rightarrow> bytes \<Rightarrow> TSScanner \<Rightarrow> bool" where
  "afterPrefix base P s \<longleftrightarrow>
     (if length P < tsProbeSize
      then \<not> detected s \<and> buffer s = P \<and>
           (if P = [] then \<not> haveExpected s
            else haveExpected s \<and> expected s = base + word_of_nat (length P))
      else detected s \<and> expected s = base + word_of_nat (length P) \<and>
           buffer s = drop (whole P) P)"

lemma Feed_prefix:
  assumes P: "afterPrefix base P s" and sv: "streamValid (P @ d)" and ne: "d \<noteq> []"
    and F: "Feed (base + word_of_nat (length P)) d s = (cs, flag, s')"
  shows "afterPrefix base (P @ d) s' \<and> streamed (P @ d) = streamed P @ concat (map tcData cs)"
proof -
  let ?off = "base + word_of_nat (length P)"
  have off: "?off + word_of_nat (length d) = base + word_of_nat (length (P @ d))"
    by (simp add: word_off_add)
  show ?thesis
  proof (cases "length P < tsProbeSize")
    case True
    let ?s0 = "if \<not> haveExpected s \<or> ?off \<noteq> expected s then resetScanner ?off s else s"
    let ?s1 = "?s0\<lparr>buffer := buffer ?s0 @ d, expected := ?off + word_of_nat (length d)\<rparr>"
    have nd: "\<not> detected s" and b: "buffer ?s1 = P @ d"
      and s1: "\<not> detected ?s1" "haveExpected ?s1"
      using P True by (auto simp: afterPrefix_def resetScanner_def split: if_splits)
    show ?thesis
    proof (cases "length (P @ d) < tsProbeSize")
      case short: True
      then have "findMPEGTS (P @ d) = None" by (simp add: findMPEGTS_def)
      then have "cs = []" "s' = keepTail ?s1"
        using F nd ne b unfolding Feed_def Let_def by auto
      moreover have "keepTail ?s1 = ?s1"
        using short b unfolding keepTail_def by simp
      ultimately have r: "cs = []" "s' = ?s1" by auto
      have "expected ?s1 = base + word_of_nat (length (P @ d))"
        using off by simp
      then have "afterPrefix base (P @ d) ?s1"
        unfolding afterPrefix_def using short b s1 ne by simp
      then show ?thesis using r short by (simp add: streamed_def)
    next
      case long: False
      define s2 where "s2 = ?s1\<lparr>detected := True\<rparr>"
      have "findMPEGTS (P @ d) = Some 0"
        using streamValid_probe [OF sv] long by simp
      then have "(cs, s') = emit s2"
        using F nd ne b unfolding Feed_def Let_def s2_def by (auto split: prod.splits)
      moreover have s2: "buffer s2 = P @ d" "detected s2"
        "expected s2 = base + word_of_nat (length (P @ d))"
        using b off by (simp_all add: s2_def)
      ultimately have "s' = dropFront (whole (P @ d)) s2"
        "concat (map tcData cs) = take (whole (P @ d)) (P @ d)"
        using emit_stream [of s2] sv by (metis fst_conv snd_conv)+
      then show ?thesis
        using s2 long True by (simp add: afterPrefix_def streamed_def)
    qed
  next
    case False
    then have s: "detected s" "expected s = ?off" "buffer s = drop (whole P) P"
      using P by (auto simp: afterPrefix_def)
    define s1 where "s1 = s\<lparr>buffer := buffer s @ d, expected := ?off + word_of_nat (length d)\<rparr>"
    have e: "emit s1 = (cs, s')"
      using F s ne by (auto simp: Feed_def Let_def s1_def split: prod.splits)
    have b: "buffer s1 = drop (whole P) (P @ d)"
      using s(3) whole_le [of P] by (simp add: s1_def)
    have "streamValid (buffer s1)"
      using streamValid_drop [OF sv] unfolding b whole_def by blast
    note es = emit_stream [OF this]
    have "whole (buffer s1) = whole (P @ d) - whole P" "whole P \<le> whole (P @ d)"
      unfolding b whole_def
      by (simp_all add: div_minus_mult diff_mult_distrib div_le_mono)
    then have w: "whole P + whole (buffer s1) = whole (P @ d)" by simp
    have s': "s' = dropFront (whole (buffer s1)) s1"
      using es(1) e by simp
    have "drop n (buffer s1) = drop (whole P + n) (P @ d)" for n
      by (simp only: b drop_drop add.commute)
    then have "buffer s' = drop (whole (P @ d)) (P @ d)"
      unfolding s' dropFront_simps w [symmetric] .
    moreover have "detected s'" "expected s' = base + word_of_nat (length (P @ d))"
      using s(1) off by (simp_all add: s' s1_def)
    moreover have r: "concat (map tcData cs) = take (whole (buffer s1)) (drop (whole P) (P @ d))"
      using es(2) e b by simp
    have "take (whole P) P @ concat (map tcData cs) = take (whole (P @ d)) (P @ d)"
      unfolding w [symmetric] take_add r using whole_le [of P] by simp
    ultimately show ?thesis
      using False by (simp add: afterPrefix_def streamed_def)
  qed
qed

fun contiguousWrites :: "u64 \<Rightarrow> bytes list \<Rightarrow> (u64 \<times> bytes) list" where
  "contiguousWrites base [] = []"
| "contiguousWrites base (d # ds) =
     (base, d) # contiguousWrites (base + word_of_nat (length d)) ds"

lemma feedAll_stream:
  assumes "afterPrefix base P s" and "streamValid (P @ concat ds)"
  shows "streamed (P @ concat ds) = streamed P @
    concat (map tcData (fst (feedAll (contiguousWrites (base + word_of_nat (length P)) ds) s)))"
  using assms
proof (induction ds arbitrary: P s)
  case Nil
  then show ?case by simp
next
  case (Cons d ds)
  obtain cs flag s1 where F: "Feed (base + word_of_nat (length P)) d s = (cs, flag, s1)"
    by (cases "Feed (base + word_of_nat (length P)) d s") auto
  have sv: "streamValid (P @ d)"
    using Cons.prems(2) streamValid_prefix [of "P @ d" "concat ds"] by simp
  have step: "afterPrefix base (P @ d) s1 \<and> streamed (P @ d) = streamed P @ concat (map tcData cs)"
  proof (cases "d = []")
    case True
    then show ?thesis using F Cons.prems(1) by (simp add: Feed_def)
  next
    case False
    then show ?thesis using Feed_prefix [OF Cons.prems(1) sv _ F] by blast
  qed
  have "streamed ((P @ d) @ concat ds) = streamed (P @ d) @ concat (map tcData
      (fst (feedAll (contiguousWrites (base + word_of_nat (length (P @ d))) ds) s1)))"
    using Cons.IH [of "P @ d" s1] step Cons.prems(2) by simp
  then show ?case
    using step F by (simp add: word_off_add Let_def split: prod.split del: of_nat_add)
qed

lemma stream_emitted:
  assumes "streamValid (concat ds)"
  shows "concat (map tcData (fst (feedAll (contiguousWrites base ds) NewTSScanner))) = streamed (concat ds)"
proof -
  have "afterPrefix base [] NewTSScanner"
    by (simp add: afterPrefix_def NewTSScanner_def)
  moreover have "streamed [] = []"
    by (simp add: streamed_def)
  ultimately show ?thesis
    using feedAll_stream [of base "[]" NewTSScanner ds] assms by simp
qed

section \<open>Concrete packets\<close>

text \<open>A packet without adaptation field and a run of \<open>n\<close> of them.\<close>

definition samplePacket :: bytes where
  "samplePacket = [0x47, 0, 0, 0x10] @ replicate 184 0"

definition sampleStream :: "nat \<Rightarrow> bytes" where
  "sampleStream n = concat (replicate n samplePacket)"

lemma samplePacket_facts: "length samplePacket = tsPacketSize" "validTSPacket (samplePacket @ b)"
  by (simp_all add: samplePacket_def validTSPacket_iff)

lemma length_sampleStream: "length (sampleStream n) = n * tsPacketSize"
  by (induction n) (simp_all add: sampleStream_def samplePacket_facts)

lemma sampleStream_drop: "k \<le> n \<Longrightarrow> drop (k * tsPacketSize) (sampleStream n) = sampleStream (n - k)"
proof (induction k arbitrary: n)
  case 0
  then show ?case by simp
next
  case (Suc k)
  then obtain m where n: "n = Suc m" by (cases n) auto
  have "drop (Suc k * tsPacketSize) (samplePacket @ sampleStream m)
      = drop (k * tsPacketSize) (sampleStream m)"
    using samplePacket_facts(1) by simp
  then show ?case using Suc n by (simp add: sampleStream_def)
qed

lemma sampleStream_valid: "streamValid (sampleStream n)"
  unfolding streamValid_def
proof (intro allI impI)
  fix i assume "(i + 1) * tsPacketSize \<le> length (sampleStream n)"
  then have "Suc i \<le> n"
    unfolding length_sampleStream by simp
  then obtain m where "n - i = Suc m"
    by (metis Suc_diff_le diff_Suc_Suc)
  then have "drop (i * tsPacketSize) (sampleStream n) = samplePacket @ sampleStream m"
    using sampleStream_drop [of i n] \<open>Suc i \<le> n\<close> by (simp add: sampleStream_def)
  then show "validTSPacket (drop (i * tsPacketSize) (sampleStream n))"
    using samplePacket_facts(2) by simp
qed

text \<open>Written in one piece, ten packets come out as one chunk.\<close>

lemma sample_stream_emitted:
  "\<exists>s'. Feed off (sampleStream 10) NewTSScanner =
     ([\<lparr>tcStart = off, tcEnd = off + 1880, tcData = sampleStream 10\<rparr>], True, s')"
proof -
  let ?b = "sampleStream 10"
  note v = sampleStream_valid [of 10] and l = length_sampleStream [of 10]
  have ne: "?b \<noteq> []" using l by auto
  have f: "findMPEGTS ?b = Some 0" using streamValid_probe [OF v] l by simp
  have cv: "countValid (sampleStream n) n = n" for n
  proof (induction n)
    case (Suc n)
    have "drop tsPacketSize (sampleStream (Suc n)) = sampleStream n" "validTSPacket (sampleStream (Suc n))"
      using sampleStream_drop [of 1 "Suc n"] samplePacket_facts(2) by (simp_all add: sampleStream_def)
    then show ?case using Suc by simp
  qed simp
  have run: "packetRun ?b = 10" using cv [of 10] l by (simp add: packetRun_eq)
  have e: "\<exists>s'. emit s = ([\<lparr>tcStart = bufferStart s, tcEnd = bufferStart s + 1880, tcData = ?b\<rparr>], s')" if "buffer s = ?b" for s
  proof -
    have "resync s = Inr s" using that streamValid_head [OF v] l by (simp add: resync_def)
    moreover have "emit (dropFront 1880 s) = ([], dropFront 1880 s)"
      using that l by (simp add: emit_unfold [of "dropFront 1880 s"])
    ultimately show ?thesis using that l run by (simp add: emit_unfold [of s])
  qed
  have "Feed off ?b NewTSScanner =
      (let (out, s') = emit (NewTSScanner\<lparr>buffer := ?b, bufferStart := off, expected := off + 1880, haveExpected := True, detected := True\<rparr>)
       in (out, True, s'))"
    using ne f l by (simp add: Feed_def NewTSScanner_def resetScanner_def Let_def)
  then show ?thesis
    using e [of "NewTSScanner\<lparr>buffer := ?b, bufferStart := off, expected := off + 1880, haveExpected := True, detected := True\<rparr>"]
    by auto
qed
section \<open>Properties\<close>



text \<open>
  Every chunk is a run of 1 to 128 valid 188-byte packets whose \<open>End\<close> is \<open>Start\<close> plus its
  length, and every byte of it was written by the host at the disk position the chunk assigns to
  it: a capture range never names bytes of another write.
\<close>

theorem chunks_are_host_bytes:
  assumes "feedAll ws NewTSScanner = (cs, s')" and "c \<in> set cs"
  shows "chunkOk c \<and> (\<forall>i < length (tcData c). wrote ws (tcStart c + word_of_nat i) (tcData c ! i))"
  using feedAll_wrote [OF tsInv_New assms(1), of ws] assms(2)
  by (simp add: NewTSScanner_def blockWrote_def)

theorem chunks_are_host_bytes_witness:
  "\<exists>cs s' c. feedAll [(4096, sampleStream 10)] NewTSScanner = (cs, s') \<and> c \<in> set cs \<and> chunkOk c"
proof -
  obtain c s' where f: "feedAll [(4096, sampleStream 10)] NewTSScanner = ([c], s')"
    using sample_stream_emitted [of 4096] by auto
  show ?thesis using chunks_are_host_bytes [OF f, of c] f by auto
qed

text \<open>
  \<open>findMPEGTS\<close> finds the first position from which ten valid packets follow one another, and
  fails exactly when there is none.
\<close>

theorem findMPEGTS_first:
  "findMPEGTS data = Some i \<longleftrightarrow>
     probeAt data i \<and> (\<nexists>j. j < i \<and> probeAt data j)"
proof (cases "findMPEGTS data")
  case None
  then show ?thesis using findMPEGTS_None [of data] by auto
next
  case (Some k)
  then show ?thesis
    using findMPEGTS_Some(2,3) [OF Some] by (metis linorder_neqE_nat option.inject)
qed

text \<open>
  C37. The scanner's memory is bounded: whatever is written, it never keeps more than 1879 bytes
  between writes, and its buffer always ends where the next contiguous write begins.
\<close>

theorem scanner_bounded:
  assumes "feedAll ws NewTSScanner = (cs, s)"
  shows "length (buffer s) \<le> tsTailSize \<and>
    (if haveExpected s then expected s = bufferStart s + word_of_nat (length (buffer s))
     else buffer s = [])"
  using feedAll_wrote [OF tsInv_New assms, of ws]
  by (simp add: NewTSScanner_def tsInv_def)

theorem scanner_bounded_witness:
  "feedAll [(4096, [1, 2, 3])] NewTSScanner
     = ([], \<lparr>buffer = [1, 2, 3], bufferStart = 4096, expected = 4099, haveExpected = True,
             detected = False\<rparr>) \<and>
   length [1, 2, 3 :: u8] \<le> tsTailSize"
proof -
  have f: "feedAll [(4096, [1, 2, 3])] NewTSScanner
     = ([], \<lparr>buffer = [1, 2, 3], bufferStart = 4096, expected = 4099, haveExpected = True,
             detected = False\<rparr>)"
    by (simp add: Feed_def NewTSScanner_def resetScanner_def findMPEGTS_def keepTail_def)
  show ?thesis using f scanner_bounded [OF f] by simp
qed

text \<open>
  Once a stream was detected, any write that starts where the last one ended is reported as
  MPEG-TS, whatever it contains: the flag that lets the writer discard a write says nothing about
  the bytes of that write.
\<close>

theorem contiguous_write_is_flagged:
  assumes "detected s" and "data \<noteq> []"
  shows "fst (snd (Feed (expected s) data s)) = True"
  using assms by (simp add: Feed_def Let_def split: prod.split)

theorem contiguous_write_is_flagged_witness:
  "fst (snd (Feed 4096 [1, 2, 3] \<lparr>buffer = [], bufferStart = 4096, expected = 4096,
                                 haveExpected = True, detected = True\<rparr>)) = True"
  using contiguous_write_is_flagged [of "\<lparr>buffer = [], bufferStart = 4096, expected = 4096,
                                 haveExpected = True, detected = True\<rparr>" "[1, 2, 3]"]
  by simp

end
