(* ===== verification/Types.thy ===== *)
theory Types
  imports Shm
begin

text \<open>
  The messages that the stages exchange (types.go) and the Go channels they travel through.

  A channel is its buffered items, its capacity and whether it has been closed.  The blocking
  operations of the code are attempts: a stage that attempts and gets \<open>Blocks\<close> waits, and the step
  relations of the stages have no step for it.  Sending on a closed channel panics.
\<close>

section \<open>Messages\<close>

record CaptureRange =
  cSeq :: u64
  cStart :: u64
  cEnd :: u64

record WriteEvent =
  eSeq :: u64
  eOffset :: u64
  eData :: bytes
  eStaged :: ShmExtent
  eTouchesMFT :: bool

record ObservedWrite =
  oEvent :: WriteEvent
  oMPEGTS :: bool
  oCaptures :: "CaptureRange list"

record PunchRequest =
  pCaptureSeq :: u64
  pStart :: u64
  pEnd :: u64

text \<open>The end \<open>Offset + uint64(len(Data))\<close> of a write, as the stages compute it.\<close>

definition writeEnd :: "WriteEvent \<Rightarrow> u64" where
  "writeEnd w = eOffset w + word_of_nat (length (eData w))"

section \<open>Channels\<close>

record 'a Chan =
  chItems :: "'a list"
  chCap :: nat
  chClosed :: bool

text \<open>What an attempt at an operation comes to; \<open>Panics\<close> is a Go panic.\<close>

datatype 'a Attempt = Done 'a | Blocks | Panics

datatype 'a RecvResult = Received 'a "'a Chan" | RecvClosed | RecvBlocks

definition makeChan :: "nat \<Rightarrow> 'a Chan" where
  "makeChan n = \<lparr>chItems = [], chCap = n, chClosed = False\<rparr>"

definition send :: "'a \<Rightarrow> 'a Chan \<Rightarrow> 'a Chan Attempt" where
  "send a c =
     (if chClosed c then Panics
      else if length (chItems c) < chCap c then Done (c\<lparr>chItems := chItems c @ [a]\<rparr>)
      else Blocks)"

definition recv :: "'a Chan \<Rightarrow> 'a RecvResult" where
  "recv c =
     (case chItems c of
        a # as \<Rightarrow> Received a (c\<lparr>chItems := as\<rparr>)
      | [] \<Rightarrow> if chClosed c then RecvClosed else RecvBlocks)"

definition closeChan :: "'a Chan \<Rightarrow> 'a Chan option" where
  "closeChan c = (if chClosed c then None else Some (c\<lparr>chClosed := True\<rparr>))"

definition chanOk :: "'a Chan \<Rightarrow> bool" where
  "chanOk c \<longleftrightarrow> length (chItems c) \<le> chCap c"

named_theorems chan_simps \<open>what the channel operations do to the buffered items\<close>

lemma makeChan_fields [chan_simps]:
  "chItems (makeChan n) = []" "chCap (makeChan n) = n" "\<not> chClosed (makeChan n)"
  by (simp_all add: makeChan_def)

lemma send_Done [chan_simps]:
  "send a c = Done c' \<longleftrightarrow>
     \<not> chClosed c \<and> length (chItems c) < chCap c \<and> c' = c\<lparr>chItems := chItems c @ [a]\<rparr>"
  by (auto simp: send_def)

lemma send_Blocks [chan_simps]:
  "send a c = Blocks \<longleftrightarrow> \<not> chClosed c \<and> chCap c \<le> length (chItems c)"
  by (auto simp: send_def)

lemma recv_Received [chan_simps]:
  "recv c = Received a c' \<longleftrightarrow> chItems c = a # chItems c' \<and> c' = c\<lparr>chItems := chItems c'\<rparr>"
  by (cases c) (auto simp: recv_def split: list.splits)

lemma recv_RecvClosed [chan_simps]: "recv c = RecvClosed \<longleftrightarrow> chItems c = [] \<and> chClosed c"
  by (auto simp: recv_def split: list.splits)

lemma recv_RecvBlocks [chan_simps]: "recv c = RecvBlocks \<longleftrightarrow> chItems c = [] \<and> \<not> chClosed c"
  by (auto simp: recv_def split: list.splits)

lemma chanOk_make [simp]: "chanOk (makeChan n)"
  by (simp add: chanOk_def chan_simps)

lemma chanOk_send: "send a c = Done c' \<Longrightarrow> chanOk c'"
  by (auto simp: chan_simps chanOk_def)

lemma chanOk_recv: "chanOk c \<Longrightarrow> recv c = Received a c' \<Longrightarrow> chanOk c'"
  by (cases c; cases c') (auto simp: chan_simps chanOk_def)

end
