(* ===== verification/History.thy ===== *)
theory History
  imports Types
begin

text \<open>
  The bounded histories.  Two components remember the most recent entries in a circular array:
  the writer the physical writes it made, the reconciler the MPEG-TS captures it was told of.
  The locale states what both rely on: after any additions the history holds exactly the last
  \<open>cap\<close> entries, oldest first.  \<open>ringView\<close> reads an array with a head and a count that way, and
  the lemmas on it discharge the laws for both arrays.
\<close>

section \<open>The contract\<close>

locale history =
  fixes capacity :: nat
    and fresh :: "'s"
    and add :: "'e \<Rightarrow> 's \<Rightarrow> 's"
    and entries :: "'s \<Rightarrow> 'e list"
    and wf :: "'s \<Rightarrow> bool"
  assumes fresh_wf: "wf fresh"
    and fresh_entries: "entries fresh = []"
    and add_wf: "wf s \<Longrightarrow> wf (add e s)"
    and entries_add: "wf s \<Longrightarrow> entries (add e s) = drop (Suc (length (entries s)) - capacity) (entries s @ [e])"
begin

lemma fold_wf: "wf s \<Longrightarrow> wf (fold add es s)"
  by (induction es arbitrary: s) (auto intro: add_wf)

lemma entries_fold_from:
  assumes "wf s" and "length (entries s) \<le> capacity"
  shows "entries (fold add es s) = drop (length (entries s) + length es - capacity) (entries s @ es)"
  using assms
proof (induction es arbitrary: s)
  case Nil
  then show ?case by simp
next
  case (Cons e es)
  have e: "entries (add e s) = drop (Suc (length (entries s)) - capacity) (entries s @ [e])"
    using Cons.prems by (simp add: entries_add)
  define k where "k = Suc (length (entries s)) - capacity"
  have k: "k \<le> 1"
    using Cons.prems(2) by (simp add: k_def)
  have "length (entries (add e s)) \<le> capacity"
    using e by simp
  then have "entries (fold add (e # es) s) =
      drop (length (entries (add e s)) + length es - capacity) (entries (add e s) @ es)"
    using Cons.IH [OF add_wf [OF Cons.prems(1)]] by simp
  also have "entries (add e s) @ es = drop k (entries s @ e # es)"
    using k unfolding e k_def [symmetric] by (cases "entries s"; cases k) auto
  also have "drop (length (entries (add e s)) + length es - capacity) \<dots>
      = drop (length (entries s) + length (e # es) - capacity) (entries s @ e # es)"
    unfolding drop_drop
    by (rule arg_cong [where f = "\<lambda>n. drop n (entries s @ e # es)"])
      (use Cons.prems(2) in \<open>simp add: e k_def\<close>)
  finally show ?case .
qed

lemma entries_fold: "entries (fold add es fresh) = drop (length es - capacity) es"
  using entries_fold_from [OF fresh_wf, of es] by (simp add: fresh_entries)

lemma recent_kept:
  "length es \<le> capacity \<Longrightarrow> entries (fold add es fresh) = es"
  by (simp add: entries_fold)

end

section \<open>A circular array\<close>

text \<open>
  An array of \<open>cap\<close> elements, the position \<open>head\<close> the next element goes to, and the number \<open>count\<close>
  of elements present, oldest first.
\<close>

definition ringView :: "nat \<Rightarrow> (nat \<Rightarrow> 'e) \<Rightarrow> nat \<Rightarrow> nat \<Rightarrow> 'e list" where
  "ringView cap items head count =
     map (\<lambda>i. items ((head + cap - count + i) mod cap)) [0..<count]"

definition ringOk :: "nat \<Rightarrow> nat \<Rightarrow> nat \<Rightarrow> bool" where
  "ringOk cap head count \<longleftrightarrow> head < cap \<and> count \<le> cap"

lemma length_ringView [simp]: "length (ringView cap items head count) = count"
  by (simp add: ringView_def)

lemma ringView_nth:
  "i < count \<Longrightarrow> ringView cap items head count ! i = items ((head + cap - count + i) mod cap)"
  by (simp add: ringView_def)

lemma ring_back:
  fixes head cap k :: nat
  assumes "head < cap" and "0 < k" and "k \<le> cap"
  shows "(head + cap - k) mod cap = (if k \<le> head then head - k else head + cap - k)"
proof (cases "k \<le> head")
  case True
  then have "head + cap - k = (head - k) + cap" by linarith
  then have "(head + cap - k) mod cap = (head - k) mod cap" by (simp only: mod_add_self2)
  then show ?thesis using True assms by simp
next
  case False
  then show ?thesis using assms by simp
qed

lemma ringOk_add:
  "ringOk cap head count \<Longrightarrow>
   ringOk cap (Suc head mod cap) (if count < cap then Suc count else count)"
  by (auto simp: ringOk_def)

lemma ring_next:
  fixes head cap k :: nat
  assumes "head < cap" and "0 < k" and "k < cap"
  shows "(Suc head mod cap + cap - Suc k) mod cap = (head + cap - k) mod cap"
proof (cases "Suc head = cap")
  case True
  then show ?thesis
    using assms ring_back [of head cap k] by simp
next
  case False
  then show ?thesis using assms by simp
qed

lemma ringView_add:
  assumes "ringOk cap head count"
  shows "ringView cap (items(head := e)) (Suc head mod cap) (if count < cap then Suc count else count)
       = drop (Suc count - cap) (ringView cap items head count @ [e])"
proof -
  define count' where "count' = (if count < cap then Suc count else count)"
  have h: "head < cap" "count \<le> cap" "0 < cap"
    using assms by (auto simp: ringOk_def)
  have c: "0 < count'" "count' \<le> cap" "count' = Suc count - (Suc count - cap)"
    using h by (auto simp: count'_def)
  have "ringView cap (items(head := e)) (Suc head mod cap) count' ! i =
        drop (Suc count - cap) (ringView cap items head count @ [e]) ! i" if i: "i < count'" for i
  proof (cases "Suc i = count'")
    case True
    have "Suc head mod cap + cap - count' + i = Suc head mod cap + (cap - 1)"
      using True c by simp
    moreover have "(Suc head mod cap + (cap - 1)) mod cap = head"
      using h mod_add_left_eq [of "Suc head" cap "cap - 1"] by simp
    ultimately have "ringView cap (items(head := e)) (Suc head mod cap) count' ! i = e"
      using i by (simp add: ringView_nth)
    moreover have "Suc count - cap + i = count"
      using True c h by linarith
    then have "drop (Suc count - cap) (ringView cap items head count @ [e]) ! i = e"
      using h by (subst nth_drop) (simp_all add: nth_append)
    ultimately show ?thesis by simp
  next
    case False
    define k where "k = count' - Suc i"
    have k: "0 < k" "k < cap" "Suc k \<le> count'"
      using False i c(2) unfolding k_def by linarith+
    have j: "Suc head mod cap + cap - count' + i = Suc head mod cap + cap - Suc k"
      using i c(2) unfolding k_def by linarith
    have p: "(Suc head mod cap + cap - Suc k) mod cap = (head + cap - k) mod cap"
      using h k by (intro ring_next)
    have ne: "(head + cap - k) mod cap \<noteq> head"
      using h k by (auto simp: ring_back)
    have q: "head + cap - k = head + cap - count + (Suc count - cap + i)"
      using i c h k by (simp add: k_def count'_def split: if_splits)
    have lt: "Suc count - cap + i < count"
      using i c h False by (auto simp: count'_def split: if_splits)
    have "ringView cap (items(head := e)) (Suc head mod cap) count' ! i = items ((head + cap - k) mod cap)"
      using i j p ne by (simp add: ringView_nth)
    also have "\<dots> = ringView cap items head count ! (Suc count - cap + i)"
      using lt by (simp add: ringView_nth q)
    also have "\<dots> = drop (Suc count - cap) (ringView cap items head count @ [e]) ! i"
      using lt h by (subst nth_drop) (simp_all add: nth_append)
    finally show ?thesis .
  qed
  then show ?thesis
    using c unfolding count'_def [symmetric] by (intro nth_equalityI) auto
qed

text \<open>Reading from the newest entry back, the order \<open>hasNewerOverlap\<close> walks in.\<close>

lemma ringView_newest:
  assumes "ringOk cap head count"
  shows "map (\<lambda>i. items ((head + cap - 1 - i) mod cap)) [0..<count] = rev (ringView cap items head count)"
proof (rule nth_equalityI)
  fix i assume "i < length (map (\<lambda>i. items ((head + cap - 1 - i) mod cap)) [0..<count])"
  then have i: "i < count" by simp
  have "head + cap - count + (count - Suc i) = head + cap - 1 - i"
    using i assms by (simp add: ringOk_def)
  then show "map (\<lambda>i. items ((head + cap - 1 - i) mod cap)) [0..<count] ! i =
        rev (ringView cap items head count) ! i"
    using i by (simp add: rev_nth ringView_nth)
qed simp

end
