(* ===== verification/Writer.thy ===== *)
theory Writer
  imports History ShmSpec
begin

text \<open>
  The writer (writer.go): the goroutine that owns the backing image.  It writes what was
  observed, releases the overlay, answers barriers, and punches holes for captured MPEG-TS data
  unless a newer write overlaps.

  A barrier channel is identified by a number and \<open>wReplies\<close> lists the errors sent on barrier
  channels in order; each is closed after its one reply.  \<open>WriterIo\<close> holds the results of the
  system calls one iteration makes.
\<close>

section \<open>State\<close>

definition writerQueueDepth :: nat where
  "writerQueueDepth = 2048"

definition writerHistoryCapacity :: nat where
  "writerHistoryCapacity = 131072"

datatype writerCommand =
    writerWrite ObservedWrite
  | writerBarrier nat

record WriteRecord =
  rSeq :: u64
  rStart :: u64
  rEnd :: u64

record Writer =
  wDisk :: File
  wShm :: SHMDisk
  wIn :: "writerCommand Chan"
  wPunchIn :: "PunchRequest Chan"
  wRecent :: "nat \<Rightarrow> WriteRecord"
  wRecentHead :: nat
  wRecentCount :: nat
  wReplies :: "(nat \<times> GoError option) list"

record WriterIo =
  ioWriteAt :: IoOutcome
  ioRelease :: "ShmExtent \<Rightarrow> IoOutcome"
  ioSync :: "GoError option"
  ioFallocate :: IoOutcome

definition NewWriter :: "File \<Rightarrow> SHMDisk \<Rightarrow> Writer" where
  "NewWriter disk s =
     \<lparr>wDisk = disk, wShm = s,
      wIn = makeChan writerQueueDepth,
      wPunchIn = makeChan writerQueueDepth,
      wRecent = (\<lambda>_. \<lparr>rSeq = 0, rStart = 0, rEnd = 0\<rparr>), wRecentHead = 0, wRecentCount = 0,
      wReplies = []\<rparr>"

section \<open>Submitting\<close>

text \<open>
  A command is sent with a blocking send.  A punch is sent by a select with a default, which
  gives up (\<open>False\<close>) on a full queue.
\<close>

definition Writer_submit :: "writerCommand \<Rightarrow> Writer \<Rightarrow> Writer Attempt" where
  "Writer_submit cmd w =
     (case send cmd (wIn w) of
        Done c \<Rightarrow> Done (w\<lparr>wIn := c\<rparr>)
      | Blocks \<Rightarrow> Blocks
      | Panics \<Rightarrow> Panics)"

definition Writer_SubmitWrite :: "ObservedWrite \<Rightarrow> Writer \<Rightarrow> Writer Attempt" where
  "Writer_SubmitWrite ev w = Writer_submit (writerWrite ev) w"

definition Writer_SubmitBarrier :: "nat \<Rightarrow> Writer \<Rightarrow> Writer Attempt" where
  "Writer_SubmitBarrier b w = Writer_submit (writerBarrier b) w"

definition Writer_SubmitPunch :: "PunchRequest \<Rightarrow> Writer \<Rightarrow> (bool \<times> Writer) Attempt" where
  "Writer_SubmitPunch req w =
     (case send req (wPunchIn w) of
        Done c \<Rightarrow> Done (True, w\<lparr>wPunchIn := c\<rparr>)
      | Blocks \<Rightarrow> Done (False, w)
      | Panics \<Rightarrow> Panics)"

definition Writer_CloseInput :: "Writer \<Rightarrow> Writer Attempt" where
  "Writer_CloseInput w =
     (case closeChan (wIn w) of None \<Rightarrow> Panics | Some c \<Rightarrow> Done (w\<lparr>wIn := c\<rparr>))"

definition Writer_ClosePunchInput :: "Writer \<Rightarrow> Writer Attempt" where
  "Writer_ClosePunchInput w =
     (case closeChan (wPunchIn w) of None \<Rightarrow> Panics | Some c \<Rightarrow> Done (w\<lparr>wPunchIn := c\<rparr>))"

section \<open>Processing\<close>

definition rememberWrite :: "u64 \<Rightarrow> u64 \<Rightarrow> u64 \<Rightarrow> Writer \<Rightarrow> Writer" where
  "rememberWrite sq start en w =
     w\<lparr>wRecent := (wRecent w)(wRecentHead w := \<lparr>rSeq = sq, rStart = start, rEnd = en\<rparr>),
       wRecentHead := (wRecentHead w + 1) mod writerHistoryCapacity,
       wRecentCount :=
         (if wRecentCount w < writerHistoryCapacity then wRecentCount w + 1 else wRecentCount w)\<rparr>"

text \<open>
  The loop of \<open>hasNewerOverlap\<close> over the offsets \<open>i\<close> back from the newest record.  The code's
  \<open>recentHead - 1 - i + len\<close> is written with the addition first, natural numbers having no
  negative intermediate values.
\<close>

fun newerLoop :: "Writer \<Rightarrow> u64 \<Rightarrow> u64 \<Rightarrow> u64 \<Rightarrow> nat list \<Rightarrow> bool" where
  "newerLoop w sq start en [] = False"
| "newerLoop w sq start en (i # is) =
     (let r = wRecent w ((wRecentHead w + writerHistoryCapacity - 1 - i) mod writerHistoryCapacity)
      in if rSeq r \<le> sq then newerLoop w sq start en is
         else if start < rEnd r \<and> rStart r < en then True
         else newerLoop w sq start en is)"

definition hasNewerOverlap :: "u64 \<Rightarrow> u64 \<Rightarrow> u64 \<Rightarrow> Writer \<Rightarrow> bool" where
  "hasNewerOverlap sq start en w = newerLoop w sq start en [0..<wRecentCount w]"

definition releaseStaged :: "WriterIo \<Rightarrow> ShmExtent \<Rightarrow> Writer \<Rightarrow> Writer" where
  "releaseStaged io x w = w\<lparr>wShm := snd (ReleaseIfCurrent (ioRelease io) [x] (wShm w))\<rparr>"

definition processWrite :: "WriterIo \<Rightarrow> ObservedWrite \<Rightarrow> Writer \<Rightarrow> Writer" where
  "processWrite io ev w =
     (let wr = oEvent ev;
          en = eOffset wr + word_of_nat (length (eData wr))
      in if oMPEGTS ev then releaseStaged io (eStaged wr) w
         else
           let w1 = rememberWrite (eSeq wr) (eOffset wr) en w;
               (n, err, disk') = File_WriteAt (ioWriteAt io) (wDisk w1) (eData wr) (eOffset wr);
               w2 = w1\<lparr>wDisk := disk'\<rparr>
           in if err \<noteq> None then w2
              else if n \<noteq> length (eData wr) then w2
              else releaseStaged io (eStaged wr) w2)"

definition processCommand :: "WriterIo \<Rightarrow> writerCommand \<Rightarrow> Writer \<Rightarrow> Writer" where
  "processCommand io cmd w =
     (case cmd of
        writerWrite ev \<Rightarrow> processWrite io ev w
      | writerBarrier b \<Rightarrow> w\<lparr>wReplies := wReplies w @ [(b, ioSync io)]\<rparr>)"

definition processPunch :: "WriterIo \<Rightarrow> PunchRequest \<Rightarrow> Writer \<Rightarrow> Writer" where
  "processPunch io req w =
     (if pEnd req \<le> pStart req then w
      else if hasNewerOverlap (pCaptureSeq req) (pStart req) (pEnd req) w then w
      else w\<lparr>wDisk := snd (File_PunchHole (ioFallocate io) (wDisk w)
                                (pStart req) (pEnd req - pStart req))\<rparr>)"

section \<open>The goroutine\<close>

text \<open>
  \<open>run\<close> as a step function: the two local channel variables (\<open>False\<close> when set to nil) and the
  place in the loop.  \<open>pick\<close> says which ready case the two-way select takes; \<open>None\<close> is a step
  that has to wait.
\<close>

datatype WriterPC = DrainLoop | WaitSelect | Returned

record WriterRun =
  runW :: Writer
  runIn :: bool
  runPunchIn :: bool
  runAt :: WriterPC

definition runCommand :: "WriterIo \<Rightarrow> WriterRun \<Rightarrow> WriterRun option" where
  "runCommand io r =
     (case recv (wIn (runW r)) of
        Received cmd c \<Rightarrow>
          Some (r\<lparr>runW := processCommand io cmd ((runW r)\<lparr>wIn := c\<rparr>), runAt := DrainLoop\<rparr>)
      | RecvClosed \<Rightarrow> Some (r\<lparr>runIn := False, runAt := DrainLoop\<rparr>)
      | RecvBlocks \<Rightarrow> None)"

definition runPunch :: "WriterIo \<Rightarrow> WriterRun \<Rightarrow> WriterRun option" where
  "runPunch io r =
     (case recv (wPunchIn (runW r)) of
        Received req c \<Rightarrow>
          Some (r\<lparr>runW := processPunch io req ((runW r)\<lparr>wPunchIn := c\<rparr>), runAt := DrainLoop\<rparr>)
      | RecvClosed \<Rightarrow> Some (r\<lparr>runPunchIn := False, runAt := DrainLoop\<rparr>)
      | RecvBlocks \<Rightarrow> None)"

definition writerStep :: "WriterIo \<Rightarrow> bool \<Rightarrow> WriterRun \<Rightarrow> WriterRun option" where
  "writerStep io pick r =
     (case runAt r of
        DrainLoop \<Rightarrow>
          if runIn r
          then (case runCommand io r of
                  Some r' \<Rightarrow> Some r'
                | None \<Rightarrow> Some (r\<lparr>runAt := WaitSelect\<rparr>))
          else Some (r\<lparr>runAt := WaitSelect\<rparr>)
      | WaitSelect \<Rightarrow>
          if \<not> runIn r \<and> \<not> runPunchIn r then Some (r\<lparr>runAt := Returned\<rparr>)
          else if runIn r \<and> runPunchIn r then (if pick then runPunch io r else runCommand io r)
          else if runIn r then runCommand io r
          else runPunch io r
      | Returned \<Rightarrow> None)"

definition writerStart :: "Writer \<Rightarrow> WriterRun" where
  "writerStart w = \<lparr>runW = w, runIn = True, runPunchIn = True, runAt = DrainLoop\<rparr>"

text \<open>Several steps under a schedule; the run stops where it returns or has to wait.\<close>

fun writerRun :: "(nat \<Rightarrow> WriterIo) \<Rightarrow> (nat \<Rightarrow> bool) \<Rightarrow> nat \<Rightarrow> nat \<Rightarrow> WriterRun \<Rightarrow> WriterRun" where
  "writerRun io pick k 0 r = r"
| "writerRun io pick k (Suc n) r =
     (case writerStep (io k) (pick k) r of
        None \<Rightarrow> r
      | Some r' \<Rightarrow> writerRun io pick (Suc k) n r')"

end
