(* ===== verification/WriterSpec.thy ===== *)
theory WriterSpec
  imports Writer
begin

text \<open>
  What the writer promises: its record of recent writes is exact, a punch never destroys a newer
  write, a failed write leaves the overlay in charge, and a run with closed inputs drains both
  queues, writes and barriers first.
\<close>

section \<open>Effect of the file operations on the bytes of the image\<close>

lemma diskByte_WriteAt [io_simps]:
  assumes "0 \<le> sint off" and "File_WriteAt oc f d off = (n, err, f')"
  shows "diskByte f' p =
     (if unat off \<le> unat p \<and> unat p < unat off + n then d ! (unat p - unat off) else diskByte f p)"
    and "n \<le> length d" and "oc = IoOk \<longleftrightarrow> err = None" and "oc = IoOk \<Longrightarrow> n = length d"
proof -
  show "n \<le> length d" "oc = IoOk \<longleftrightarrow> err = None" "oc = IoOk \<Longrightarrow> n = length d"
    using assms by (auto simp: File_WriteAt_def Let_def split: IoOutcome.splits)
  show "diskByte f' p =
     (if unat off \<le> unat p \<and> unat p < unat off + n then d ! (unat p - unat off) else diskByte f p)"
    using assms
    by (auto simp: File_WriteAt_def Let_def diskByte_def pokeBytes_def min_def
        split: IoOutcome.splits if_splits)
qed

lemma diskByte_PunchHole [io_simps]:
  assumes "lo < hi" and "unat hi < 2 ^ 63"
  shows "diskByte (snd (File_PunchHole oc f lo (hi - lo))) p =
     (if oc = IoOk \<and> lo \<le> p \<and> p < hi then 0 else diskByte f p)"
  using assms
  by (auto simp: File_PunchHole_range diskByte_def zeroBytes_def word_le_nat_alt word_less_nat_alt
      split: IoOutcome.splits)

section \<open>The record of recent writes\<close>

definition remembered :: "Writer \<Rightarrow> WriteRecord list" where
  "remembered w = ringView writerHistoryCapacity (wRecent w) (wRecentHead w) (wRecentCount w)"

definition recentOk :: "Writer \<Rightarrow> bool" where
  "recentOk w \<longleftrightarrow> ringOk writerHistoryCapacity (wRecentHead w) (wRecentCount w)"

interpretation wh: history writerHistoryCapacity "NewWriter disk s"
    "\<lambda>r. rememberWrite (rSeq r) (rStart r) (rEnd r)" remembered recentOk
  for disk s
proof
  fix w :: Writer and r :: WriteRecord
  assume w: "recentOk w"
  then show "recentOk (rememberWrite (rSeq r) (rStart r) (rEnd r) w)"
    using ringOk_add [of writerHistoryCapacity "wRecentHead w" "wRecentCount w"]
    by (auto simp: recentOk_def rememberWrite_def split: if_splits)
  have eta: "\<lparr>rSeq = rSeq r, rStart = rStart r, rEnd = rEnd r\<rparr> = r"
    by (cases r) simp
  show "remembered (rememberWrite (rSeq r) (rStart r) (rEnd r) w)
      = drop (Suc (length (remembered w)) - writerHistoryCapacity) (remembered w @ [r])"
    using ringView_add [OF w [unfolded recentOk_def], of "wRecent w" r]
    by (auto simp: remembered_def rememberWrite_def eta split: if_splits)
qed (simp_all add: recentOk_def remembered_def NewWriter_def ringOk_def ringView_def
    writerHistoryCapacity_def)

lemma newerLoop_iff:
  "newerLoop w sq start en is \<longleftrightarrow>
     (\<exists>r \<in> set (map (\<lambda>i. wRecent w ((wRecentHead w + writerHistoryCapacity - 1 - i) mod writerHistoryCapacity)) is).
        sq < rSeq r \<and> start < rEnd r \<and> rStart r < en)"
  by (induction "is") (auto simp: Let_def not_le)

lemma hasNewerOverlap_iff:
  assumes "recentOk w"
  shows "hasNewerOverlap sq start en w \<longleftrightarrow>
     (\<exists>r \<in> set (remembered w). sq < rSeq r \<and> start < rEnd r \<and> rStart r < en)"
  using ringView_newest [OF assms [unfolded recentOk_def], of "wRecent w"]
  unfolding hasNewerOverlap_def newerLoop_iff remembered_def by (metis set_rev)

section \<open>A history of processed work\<close>

text \<open>What the goroutine has processed so far, in order, each with its system-call results.\<close>

datatype handled = Command writerCommand | Punch PunchRequest

definition handle :: "WriterIo \<times> handled \<Rightarrow> Writer \<Rightarrow> Writer" where
  "handle h w =
     (case snd h of
        Command c \<Rightarrow> processCommand (fst h) c w
      | Punch req \<Rightarrow> processPunch (fst h) req w)"

text \<open>The record a processed item leaves: non-MPEG-TS writes only.\<close>

definition recordOf :: "handled \<Rightarrow> WriteRecord list" where
  "recordOf h =
     (case h of
        Command (writerWrite ev) \<Rightarrow>
          if oMPEGTS ev then []
          else [\<lparr>rSeq = eSeq (oEvent ev), rStart = eOffset (oEvent ev), rEnd = writeEnd (oEvent ev)\<rparr>]
      | _ \<Rightarrow> [])"

definition recordsOf :: "(WriterIo \<times> handled) list \<Rightarrow> WriteRecord list" where
  "recordsOf hs = concat (map (recordOf \<circ> snd) hs)"

definition recentWrites :: "(WriterIo \<times> handled) list \<Rightarrow> WriteRecord list" where
  "recentWrites hs = drop (length (recordsOf hs) - writerHistoryCapacity) (recordsOf hs)"

lemmas history_fields = remembered_def recentOk_def

lemma releaseStaged_history [simp]:
  "remembered (releaseStaged io x w) = remembered w" "recentOk (releaseStaged io x w) = recentOk w"
  "wDisk (releaseStaged io x w) = wDisk w"
  by (simp_all add: releaseStaged_def history_fields)

lemma handle_history:
  "remembered (handle (io, h) w) =
     remembered (fold (\<lambda>r. rememberWrite (rSeq r) (rStart r) (rEnd r)) (recordOf h) w)"
  "recentOk (handle (io, h) w) =
     recentOk (fold (\<lambda>r. rememberWrite (rSeq r) (rStart r) (rEnd r)) (recordOf h) w)"
  by (auto simp: handle_def recordOf_def processCommand_def processPunch_def processWrite_def
      writeEnd_def Let_def history_fields releaseStaged_def
      split: handled.split writerCommand.split prod.split)

lemma recentOk_length: "recentOk w \<Longrightarrow> length (remembered w) \<le> writerHistoryCapacity"
  by (simp add: history_fields ringOk_def)

lemma handle_step:
  assumes "recentOk w"
  shows "remembered (handle h w) =
     drop (length (remembered w) + length (recordOf (snd h)) - writerHistoryCapacity)
       (remembered w @ recordOf (snd h))"
    and "recentOk (handle h w)"
  using handle_history [of "fst h" "snd h" w] wh.fold_wf [OF assms]
    wh.entries_fold_from [OF assms recentOk_length [OF assms]]
  by simp_all

lemma drop_two:
  fixes cap :: nat
  assumes "length xs \<le> cap" and "us = drop (length xs + length ys - cap) (xs @ ys)"
  shows "drop (length us + length zs - cap) (us @ zs)
       = drop (length xs + length (ys @ zs) - cap) (xs @ ys @ zs)"
proof -
  define k where "k = length xs + length ys - cap"
  have k: "k \<le> length (xs @ ys)" by (simp add: k_def)
  have us: "us @ zs = drop k (xs @ ys @ zs)" and len: "length us = length xs + length ys - k"
    using k assms(2) unfolding k_def [symmetric] by simp_all
  have "length us + length zs - cap + k = length xs + length (ys @ zs) - cap"
    using k unfolding len by (auto simp: k_def)
  then show ?thesis
    unfolding us drop_drop by simp
qed

lemma handle_all_from:
  assumes "recentOk w"
  shows "remembered (fold handle hs w) =
     drop (length (remembered w) + length (recordsOf hs) - writerHistoryCapacity)
       (remembered w @ recordsOf hs) \<and> recentOk (fold handle hs w)"
  using assms
proof (induction hs arbitrary: w)
  case Nil
  then show ?case using recentOk_length [of w] by (simp add: recordsOf_def)
next
  case (Cons h hs)
  have r: "recordsOf (h # hs) = recordOf (snd h) @ recordsOf hs"
    by (simp add: recordsOf_def)
  show ?case
    using Cons.IH [OF handle_step(2) [OF Cons.prems, of h]]
      drop_two [OF recentOk_length [OF Cons.prems] handle_step(1) [OF Cons.prems, of h]]
    by (simp add: r del: drop_append length_append)
qed

lemma handle_all_history:
  "remembered (fold handle hs (NewWriter disk s)) = recentWrites hs"
  "recentOk (fold handle hs (NewWriter disk s))"
  using handle_all_from [OF wh.fresh_wf, of hs disk s]
  by (simp_all add: recentWrites_def wh.fresh_entries)

text \<open>
  The writer's guard against destroying newer data is exact: after any sequence of writes,
  barriers and punches, \<open>hasNewerOverlap seq start end\<close> holds exactly when one of the last
  131072 non-MPEG-TS writes has a higher sequence number and overlaps the range.
\<close>

theorem newer_overlap_exact:
  "hasNewerOverlap sq start en (fold handle hs (NewWriter disk s)) \<longleftrightarrow>
     (\<exists>r \<in> set (recentWrites hs). sq < rSeq r \<and> start < rEnd r \<and> rStart r < en)"
  using hasNewerOverlap_iff [OF handle_all_history(2)] by (simp add: handle_all_history(1))

text \<open>
  C16. A punch is exact: after any history, a punch of a nonempty range zeroes precisely the
  bytes of that range, and only when the call succeeds and none of the remembered newer writes
  overlaps it; every other byte, the overlay and the barrier replies are as before.
\<close>

theorem punch_exact:
  assumes "pStart req < pEnd req" and "unat (pEnd req) < 2 ^ 63"
    and "w = fold handle hs (NewWriter disk s)"
  shows "(\<forall>p. diskByte (wDisk (processPunch io req w)) p =
       (if ioFallocate io = IoOk \<and> pStart req \<le> p \<and> p < pEnd req \<and>
           \<not> (\<exists>r \<in> set (recentWrites hs).
                pCaptureSeq req < rSeq r \<and> pStart req < rEnd r \<and> rStart r < pEnd req)
        then 0 else diskByte (wDisk w) p)) \<and>
     wShm (processPunch io req w) = wShm w \<and> wReplies (processPunch io req w) = wReplies w"
  using assms(1,2) hasNewerOverlap_iff [OF handle_all_history(2) [of hs disk s]]
  by (auto simp: processPunch_def diskByte_PunchHole assms(3) handle_all_history(1) not_le
      dest: leD)

text \<open>A write of eight bytes at 16 with sequence number 5, and a punch for capture 3 over it.\<close>

definition sampleWrite :: ObservedWrite where
  "sampleWrite =
     \<lparr>oEvent = \<lparr>eSeq = 5, eOffset = 16, eData = replicate 8 7,
                 eStaged = \<lparr>xStart = 16, xEnd = 24, xGen = 1\<rparr>, eTouchesMFT = False\<rparr>,
      oMPEGTS = False, oCaptures = []\<rparr>"

definition quietIo :: WriterIo where
  "quietIo = \<lparr>ioWriteAt = IoOk, ioRelease = (\<lambda>_. IoOk), ioSync = None, ioFallocate = IoOk\<rparr>"

definition samplePunch :: PunchRequest where
  "samplePunch = \<lparr>pCaptureSeq = 3, pStart = 8, pEnd = 20\<rparr>"

lemma sample_records:
  "recentWrites [(quietIo, Command (writerWrite sampleWrite))] = [\<lparr>rSeq = 5, rStart = 16, rEnd = 24\<rparr>]"
  by (simp add: recentWrites_def recordsOf_def recordOf_def sampleWrite_def writeEnd_def
      writerHistoryCapacity_def)

theorem punch_exact_witness:
  "diskByte (wDisk (processPunch quietIo samplePunch
       (fold handle [(quietIo, Command (writerWrite sampleWrite))]
          (NewWriter \<lparr>fSize = 64, fData = (\<lambda>_. 1)\<rparr> shm1)))) 17
   = diskByte (wDisk (fold handle [(quietIo, Command (writerWrite sampleWrite))]
          (NewWriter \<lparr>fSize = 64, fData = (\<lambda>_. 1)\<rparr> shm1))) 17"
proof -
  have p: "pStart samplePunch < pEnd samplePunch" "unat (pEnd samplePunch) < 2 ^ 63"
    by (simp_all add: samplePunch_def)
  show ?thesis
    using punch_exact [OF p refl, of quietIo "[(quietIo, Command (writerWrite sampleWrite))]"
        "\<lparr>fSize = 64, fData = (\<lambda>_. 1)\<rparr>" shm1]
    by (simp add: sample_records samplePunch_def)
qed

section \<open>Writing\<close>

lemma rememberWrite_rest [simp]:
  "wDisk (rememberWrite a b c w) = wDisk w" "wShm (rememberWrite a b c w) = wShm w"
  "wReplies (rememberWrite a b c w) = wReplies w"
  "wIn (rememberWrite a b c w) = wIn w" "wPunchIn (rememberWrite a b c w) = wPunchIn w"
  by (simp_all add: rememberWrite_def)

text \<open>
  \<open>processWrite\<close> in one equation for each of its outcomes, over the disk and the overlay.
\<close>

lemma processWrite_TS:
  "oMPEGTS ev \<Longrightarrow> processWrite io ev w = releaseStaged io (eStaged (oEvent ev)) w"
  by (simp add: processWrite_def Let_def)

lemma processWrite_disk:
  assumes "\<not> oMPEGTS ev"
  shows "wDisk (processWrite io ev w) =
           snd (snd (File_WriteAt (ioWriteAt io) (wDisk w) (eData (oEvent ev)) (eOffset (oEvent ev))))"
    and "wShm (processWrite io ev w) =
           (if 0 \<le> sint (eOffset (oEvent ev)) \<and> ioWriteAt io = IoOk
            then wShm (releaseStaged io (eStaged (oEvent ev)) w) else wShm w)"
proof -
  define oc d off where "oc = ioWriteAt io" and "d = eData (oEvent ev)" and "off = eOffset (oEvent ev)"
  obtain n err f' where f: "File_WriteAt oc (wDisk w) d off = (n, err, f')"
    by (metis prod.exhaust)
  have e: "err = None \<longleftrightarrow> 0 \<le> sint off \<and> oc = IoOk" "err = None \<Longrightarrow> n = length d"
    using f by (auto simp: File_WriteAt_def Let_def split: if_splits IoOutcome.splits)
  show "wDisk (processWrite io ev w) = snd (snd (File_WriteAt (ioWriteAt io) (wDisk w)
          (eData (oEvent ev)) (eOffset (oEvent ev))))"
    using assms f unfolding oc_def d_def off_def
    by (simp add: processWrite_def Let_def)
  show "wShm (processWrite io ev w) =
           (if 0 \<le> sint (eOffset (oEvent ev)) \<and> ioWriteAt io = IoOk
            then wShm (releaseStaged io (eStaged (oEvent ev)) w) else wShm w)"
    using assms f e unfolding oc_def d_def off_def
    by (auto simp: processWrite_def Let_def releaseStaged_def)
qed

text \<open>
  A write that is not MPEG-TS reaches the image, or stays in the overlay: when \<open>WriteAt\<close>
  succeeds the image holds exactly the data in \<open>[Offset, Offset+len)\<close> and its old bytes
  elsewhere; when it fails nothing outside that range changes and the overlay keeps every staged
  byte.  An MPEG-TS write never changes the image.
\<close>

theorem processWrite_commits:
  assumes "wr = oEvent ev" and "unat (eOffset wr) + length (eData wr) < 2 ^ 63"
  shows "if oMPEGTS ev then wDisk (processWrite io ev w) = wDisk w
         else if ioWriteAt io = IoOk then
           (\<forall>p. diskByte (wDisk (processWrite io ev w)) p =
              (if eOffset wr \<le> p \<and> p < writeEnd wr then eData wr ! (unat p - unat (eOffset wr))
               else diskByte (wDisk w) p))
         else
           wShm (processWrite io ev w) = wShm w \<and>
           (\<forall>p. \<not> (eOffset wr \<le> p \<and> p < writeEnd wr) \<longrightarrow>
              diskByte (wDisk (processWrite io ev w)) p = diskByte (wDisk w) p)"
proof -
  obtain n err f' where f: "File_WriteAt (ioWriteAt io) (wDisk w) (eData wr) (eOffset wr) = (n, err, f')"
    by (metis prod.exhaust)
  have off: "0 \<le> sint (eOffset wr)"
    using assms(2) by (simp add: sint_u64_neg flip: not_less)
  have en: "unat (writeEnd wr) = unat (eOffset wr) + length (eData wr)"
    using assms(2) by (simp add: writeEnd_def unat_add_of_nat)
  note byte = diskByte_WriteAt [OF off f]
  show ?thesis
    using byte(2-4) en
    by (auto simp: processWrite_TS processWrite_disk f [unfolded assms(1)] byte(1) assms(1)
        word_le_nat_alt word_less_nat_alt)
qed

theorem processWrite_commits_witness:
  "diskByte (wDisk (processWrite quietIo sampleWrite
       (NewWriter \<lparr>fSize = 64, fData = (\<lambda>_. 1)\<rparr> shm1))) 17 = 7"
  using processWrite_commits [OF refl, of sampleWrite quietIo "NewWriter \<lparr>fSize = 64, fData = (\<lambda>_. 1)\<rparr> shm1"]
  by (simp add: sampleWrite_def quietIo_def writeEnd_def)

section \<open>The goroutine\<close>

text \<open>Work on the queues does not look at the queues.\<close>

lemma newerLoop_cong:
  "wRecent w = wRecent w' \<Longrightarrow> wRecentHead w = wRecentHead w' \<Longrightarrow>
     newerLoop w sq a b is = newerLoop w' sq a b is"
  by (induction "is") (simp_all add: Let_def)

lemma processCommand_queues [simp]:
  "processCommand io c (w\<lparr>wIn := q\<rparr>) = (processCommand io c w)\<lparr>wIn := q\<rparr>"
  "processCommand io c (w\<lparr>wPunchIn := q'\<rparr>) = (processCommand io c w)\<lparr>wPunchIn := q'\<rparr>"
  "wIn (processCommand io c w) = wIn w" "wPunchIn (processCommand io c w) = wPunchIn w"
  by (auto simp: processCommand_def processWrite_def Let_def releaseStaged_def rememberWrite_def
      split: writerCommand.split prod.split)

lemma processPunch_queues [simp]:
  "processPunch io r (w\<lparr>wIn := q\<rparr>) = (processPunch io r w)\<lparr>wIn := q\<rparr>"
  "processPunch io r (w\<lparr>wPunchIn := q'\<rparr>) = (processPunch io r w)\<lparr>wPunchIn := q'\<rparr>"
  "wIn (processPunch io r w) = wIn w" "wPunchIn (processPunch io r w) = wPunchIn w"
proof -
  have h: "hasNewerOverlap a b c (w\<lparr>wIn := q\<rparr>) = hasNewerOverlap a b c w"
      "hasNewerOverlap a b c (w\<lparr>wPunchIn := q'\<rparr>) = hasNewerOverlap a b c w" for a b c
    unfolding hasNewerOverlap_def
    by (simp_all add: newerLoop_cong [of "w\<lparr>wIn := q\<rparr>" w] newerLoop_cong [of "w\<lparr>wPunchIn := q'\<rparr>" w])
  show "processPunch io r (w\<lparr>wIn := q\<rparr>) = (processPunch io r w)\<lparr>wIn := q\<rparr>"
    "processPunch io r (w\<lparr>wPunchIn := q'\<rparr>) = (processPunch io r w)\<lparr>wPunchIn := q'\<rparr>"
    "wIn (processPunch io r w) = wIn w" "wPunchIn (processPunch io r w) = wPunchIn w"
    by (auto simp: processPunch_def h)
qed

text \<open>What a drained queue leaves: each item with the system-call results of its step.\<close>

fun commandsFrom :: "(nat \<Rightarrow> WriterIo) \<Rightarrow> nat \<Rightarrow> writerCommand list \<Rightarrow> Writer \<Rightarrow> Writer" where
  "commandsFrom io k [] w = w"
| "commandsFrom io k (c # cs) w = commandsFrom io (Suc k) cs (processCommand (io k) c w)"

fun punchesFrom :: "(nat \<Rightarrow> WriterIo) \<Rightarrow> nat \<Rightarrow> PunchRequest list \<Rightarrow> Writer \<Rightarrow> Writer" where
  "punchesFrom io k [] w = w"
| "punchesFrom io k (p # ps) w = punchesFrom io (k + 2) ps (processPunch (io k) p w)"

lemma commandsFrom_queues [simp]:
  "commandsFrom io k cs (w\<lparr>wIn := q\<rparr>) = (commandsFrom io k cs w)\<lparr>wIn := q\<rparr>"
  "wPunchIn (commandsFrom io k cs w) = wPunchIn w" "wIn (commandsFrom io k cs w) = wIn w"
  by (induction cs arbitrary: k w) simp_all

lemma punchesFrom_queues [simp]:
  "punchesFrom io k ps (w\<lparr>wPunchIn := q\<rparr>) = (punchesFrom io k ps w)\<lparr>wPunchIn := q\<rparr>"
  "punchesFrom io k ps (w\<lparr>wIn := q'\<rparr>) = (punchesFrom io k ps w)\<lparr>wIn := q'\<rparr>"
  "wPunchIn (punchesFrom io k ps w) = wPunchIn w" "wIn (punchesFrom io k ps w) = wIn w"
  by (induction ps arbitrary: k w) simp_all

lemma drain_commands:
  assumes "chItems (wIn w) = cs"
  shows "writerRun io pick k (length cs + n) \<lparr>runW = w, runIn = True, runPunchIn = b, runAt = DrainLoop\<rparr>
    = writerRun io pick (k + length cs) n
        \<lparr>runW = (commandsFrom io k cs w)\<lparr>wIn := (wIn w)\<lparr>chItems := []\<rparr>\<rparr>,
         runIn = True, runPunchIn = b, runAt = DrainLoop\<rparr>"
  using assms
proof (induction cs arbitrary: k w)
  case Nil
  then have "w\<lparr>wIn := (wIn w)\<lparr>chItems := []\<rparr>\<rparr> = w" by simp
  then show ?case by simp
next
  case (Cons c cs)
  let ?w = "processCommand (io k) c (w\<lparr>wIn := (wIn w)\<lparr>chItems := cs\<rparr>\<rparr>)"
  have "recv (wIn w) = Received c ((wIn w)\<lparr>chItems := cs\<rparr>)"
    using Cons.prems by (simp add: recv_def)
  then have "writerStep (io k) (pick k) \<lparr>runW = w, runIn = True, runPunchIn = b, runAt = DrainLoop\<rparr>
      = Some \<lparr>runW = ?w, runIn = True, runPunchIn = b, runAt = DrainLoop\<rparr>"
    by (simp add: writerStep_def runCommand_def)
  then show ?case
    using Cons.IH [of ?w "Suc k"] by simp
qed

lemma drain_punches:
  assumes "chItems (wPunchIn w) = ps"
  shows "writerRun io pick k (2 * length ps + n)
      \<lparr>runW = w, runIn = False, runPunchIn = True, runAt = WaitSelect\<rparr>
    = writerRun io pick (k + 2 * length ps) n
        \<lparr>runW = (punchesFrom io k ps w)\<lparr>wPunchIn := (wPunchIn w)\<lparr>chItems := []\<rparr>\<rparr>,
         runIn = False, runPunchIn = True, runAt = WaitSelect\<rparr>"
  using assms
proof (induction ps arbitrary: k w)
  case Nil
  then have "w\<lparr>wPunchIn := (wPunchIn w)\<lparr>chItems := []\<rparr>\<rparr> = w" by simp
  then show ?case by simp
next
  case (Cons p ps)
  let ?w = "processPunch (io k) p (w\<lparr>wPunchIn := (wPunchIn w)\<lparr>chItems := ps\<rparr>\<rparr>)"
  have "recv (wPunchIn w) = Received p ((wPunchIn w)\<lparr>chItems := ps\<rparr>)"
    using Cons.prems by (simp add: recv_def)
  then have "writerStep (io k) (pick k) \<lparr>runW = w, runIn = False, runPunchIn = True, runAt = WaitSelect\<rparr>
      = Some \<lparr>runW = ?w, runIn = False, runPunchIn = True, runAt = DrainLoop\<rparr>"
    "writerStep (io (Suc k)) (pick (Suc k)) \<lparr>runW = ?w, runIn = False, runPunchIn = True, runAt = DrainLoop\<rparr>
      = Some \<lparr>runW = ?w, runIn = False, runPunchIn = True, runAt = WaitSelect\<rparr>"
    by (simp_all add: writerStep_def runPunch_def)
  then show ?case
    using Cons.IH [of ?w "Suc (Suc k)"] by (simp add: add.commute)
qed

lemma writerRun_Returned [simp]:
  "runAt r = Returned \<Longrightarrow> writerRun io pick k n r = r"
  by (cases n) (simp_all add: writerStep_def)

text \<open>
  C25. Shutdown drains the writer: with both inputs closed, the goroutine returns after at most
  \<open>|commands| + 2|punches| + 5\<close> iterations whatever the selects pick, having processed every
  queued write and barrier in order and then every queued punch in order.
\<close>

theorem writer_drains:
  assumes "chClosed (wIn w)" and "chClosed (wPunchIn w)"
    and "cs = chItems (wIn w)" and "ps = chItems (wPunchIn w)"
    and "length cs + 2 * length ps + 5 \<le> n"
  shows "writerRun io pick 0 n (writerStart w) =
    \<lparr>runW = (punchesFrom io (length cs + 2) ps (commandsFrom io 0 cs w))
       \<lparr>wIn := (wIn w)\<lparr>chItems := []\<rparr>, wPunchIn := (wPunchIn w)\<lparr>chItems := []\<rparr>\<rparr>,
     runIn = False, runPunchIn = False, runAt = Returned\<rparr>"
proof -
  define w1 where "w1 = (commandsFrom io 0 cs w)\<lparr>wIn := (wIn w)\<lparr>chItems := []\<rparr>\<rparr>"
  define k where "k = length cs + 2"
  define w2 where "w2 = (punchesFrom io k ps w1)\<lparr>wPunchIn := (wPunchIn w)\<lparr>chItems := []\<rparr>\<rparr>"
  define m where "m = n - (length cs + 2 * length ps + 5)"
  have n: "n = length cs + Suc (Suc (2 * length ps + Suc (Suc (Suc m))))"
    using assms(5) by (simp add: m_def)
  have "writerRun io pick 0 n (writerStart w) = writerRun io pick (length cs)
      (Suc (Suc (2 * length ps + Suc (Suc (Suc m)))))
      \<lparr>runW = w1, runIn = True, runPunchIn = True, runAt = DrainLoop\<rparr>"
    unfolding n writerStart_def w1_def
    by (subst drain_commands [OF assms(3) [symmetric]]) (simp del: writerRun.simps)
  also have "\<dots> = writerRun io pick k (2 * length ps + Suc (Suc (Suc m)))
      \<lparr>runW = w1, runIn = False, runPunchIn = True, runAt = WaitSelect\<rparr>"
    using assms(1) by (simp add: writerStep_def runCommand_def recv_def w1_def k_def)
  also have "\<dots> = writerRun io pick (k + 2 * length ps) (Suc (Suc (Suc m)))
      \<lparr>runW = w2, runIn = False, runPunchIn = True, runAt = WaitSelect\<rparr>"
    using drain_punches [of w1 ps io pick k "Suc (Suc (Suc m))"] assms(4)
    by (simp add: w1_def w2_def del: writerRun.simps)
  also have "\<dots> = \<lparr>runW = w2, runIn = False, runPunchIn = False, runAt = Returned\<rparr>"
    using assms(2) by (simp add: writerStep_def runPunch_def recv_def w2_def)
  finally show ?thesis
    by (simp add: w2_def w1_def k_def)
qed

definition closedWriter :: Writer where
  "closedWriter =
     (NewWriter \<lparr>fSize = 64, fData = (\<lambda>_. 1)\<rparr> shm1)
       \<lparr>wIn := \<lparr>chItems = [writerWrite sampleWrite, writerBarrier 1], chCap = 2048, chClosed = True\<rparr>,
        wPunchIn := \<lparr>chItems = [samplePunch], chCap = 2048, chClosed = True\<rparr>\<rparr>"

theorem writer_drains_witness:
  "runAt (writerRun (\<lambda>_. quietIo) (\<lambda>_. True) 0 9 (writerStart closedWriter)) = Returned"
proof -
  have "chClosed (wIn closedWriter)" "chClosed (wPunchIn closedWriter)"
    "[writerWrite sampleWrite, writerBarrier 1] = chItems (wIn closedWriter)"
    "[samplePunch] = chItems (wPunchIn closedWriter)"
    "length [writerWrite sampleWrite, writerBarrier 1] + 2 * length [samplePunch] + 5 \<le> (9 :: nat)"
    by (simp_all add: closedWriter_def)
  from writer_drains [OF this] show ?thesis by (simp only: WriterRun.simps)
qed

end
