(* ===== verification/Hub.thy ===== *)
theory Hub
  imports Types "HOL-Library.Sublist"
begin

text \<open>
  The hub (hub.go): it fans the captured MPEG-TS chunks out to the HTTP clients through bounded
  queues that discard their oldest element when full.

  Each \<open>select\<close> with a default is one atomic step.  Three goroutines run: the sniffer's
  \<open>Broadcast\<close>, the hub's \<open>dispatchLoop\<close> and one \<open>drain\<close> per client; the HTTP handler receives from
  a client's \<open>out\<close>.  \<open>hubStep\<close> interleaves their steps in every way, except that \<open>Register\<close> and
  \<open>Unregister\<close> wait for the read lock that \<open>dispatch\<close> holds.
\<close>

section \<open>The drop-oldest protocol\<close>

text \<open>
  Where a goroutine is in the three selects of \<open>Broadcast\<close> and \<open>dispatch\<close>: about to try the send,
  about to discard the oldest element, about to try the send a last time.
\<close>

datatype 'a OfferPC = OfferIdle | OfferTry 'a | OfferDrop 'a | OfferLast 'a

fun inflight :: "'a OfferPC \<Rightarrow> 'a list" where
  "inflight OfferIdle = []"
| "inflight (OfferTry a) = [a]"
| "inflight (OfferDrop a) = [a]"
| "inflight (OfferLast a) = [a]"

definition discardOldest :: "'a Chan \<Rightarrow> 'a Chan" where
  "discardOldest c = (case recv c of Received _ c' \<Rightarrow> c' | _ \<Rightarrow> c)"

text \<open>One select of \<open>Broadcast\<close> and of \<open>dispatch\<close>; \<open>None\<close> is a panic.\<close>

fun offerStep :: "'a OfferPC \<Rightarrow> 'a Chan \<Rightarrow> ('a OfferPC \<times> 'a Chan) option" where
  "offerStep OfferIdle c = Some (OfferIdle, c)"
| "offerStep (OfferTry a) c =
     (case send a c of
        Done c' \<Rightarrow> Some (OfferIdle, c')
      | Blocks \<Rightarrow> Some (OfferDrop a, c)
      | Panics \<Rightarrow> None)"
| "offerStep (OfferDrop a) c = Some (OfferLast a, discardOldest c)"
| "offerStep (OfferLast a) c =
     (case send a c of
        Done c' \<Rightarrow> Some (OfferIdle, c')
      | Blocks \<Rightarrow> Some (OfferIdle, c)
      | Panics \<Rightarrow> None)"

text \<open>One select of the retry loop in \<open>drain\<close>: it goes on until the send succeeds.\<close>

fun retryStep :: "'a OfferPC \<Rightarrow> 'a Chan \<Rightarrow> ('a OfferPC \<times> 'a Chan) option" where
  "retryStep OfferIdle c = Some (OfferIdle, c)"
| "retryStep (OfferTry a) c =
     (case send a c of
        Done c' \<Rightarrow> Some (OfferIdle, c')
      | Blocks \<Rightarrow> Some (OfferDrop a, c)
      | Panics \<Rightarrow> None)"
| "retryStep (OfferDrop a) c = Some (OfferTry a, discardOldest c)"
| "retryStep (OfferLast a) c = None"

section \<open>Hub and clients\<close>

definition hubQueueDepth :: nat where "hubQueueDepth = 4096"
definition clientInboxDepth :: nat where "clientInboxDepth = 4096"
definition clientOutDepth :: nat where "clientOutDepth = 8192"

text \<open>
  A client with its three channels; \<open>clDone\<close> says that \<open>done\<close> has been closed.  \<open>clPut\<close> is where its
  \<open>drain\<close> goroutine is, \<open>clDrained\<close> that it has returned, and \<open>clTaken\<close> records what the HTTP
  handler received.
\<close>

record Client =
  clInbox :: "bytes Chan"
  clOut :: "bytes Chan"
  clDone :: bool
  clPut :: "bytes OfferPC"
  clDrained :: bool
  clTaken :: "bytes list"

text \<open>
  Where the dispatcher is: waiting for a chunk, between two clients of the chunk \<open>d\<close> with the
  clients still to come, or in the selects for one client.
\<close>

datatype DispatchPC =
    DispatchIdle
  | Dispatching bytes "nat list"
  | Offering nat "bytes OfferPC" bytes "nat list"

text \<open>
  The hub: \<open>hubClients\<close> are the keys of the map, pointers into \<open>hubHeap\<close>.  \<open>hubCast\<close> is where
  \<open>Broadcast\<close> is and \<open>hubSent\<close> records what was broadcast.
\<close>

record Hub =
  hubHeap :: "nat \<Rightarrow> Client"
  hubNext :: nat
  hubClients :: "nat list"
  hubQueue :: "bytes Chan"
  hubDone :: bool
  hubCast :: "bytes OfferPC"
  hubPC :: DispatchPC
  hubSent :: "bytes list"

definition newClient :: Client where
  "newClient =
     \<lparr>clInbox = makeChan clientInboxDepth, clOut = makeChan clientOutDepth, clDone = False,
      clPut = OfferIdle, clDrained = False, clTaken = []\<rparr>"

definition NewHub :: Hub where
  "NewHub =
     \<lparr>hubHeap = (\<lambda>_. newClient), hubNext = 0, hubClients = [], hubQueue = makeChan hubQueueDepth,
      hubDone = False, hubCast = OfferIdle, hubPC = DispatchIdle, hubSent = []\<rparr>"

definition Broadcast :: "bytes \<Rightarrow> Hub \<Rightarrow> Hub" where
  "Broadcast d h =
     (if length d = 0 then h else h\<lparr>hubCast := OfferTry d, hubSent := hubSent h @ [d]\<rparr>)"

definition Broadcast_select :: "Hub \<Rightarrow> Hub option" where
  "Broadcast_select h =
     (case offerStep (hubCast h) (hubQueue h) of
        None \<Rightarrow> None
      | Some (pc, q) \<Rightarrow> Some (h\<lparr>hubCast := pc, hubQueue := q\<rparr>))"

definition Register :: "Hub \<Rightarrow> nat \<times> Hub" where
  "Register h =
     (hubNext h,
      h\<lparr>hubHeap := (hubHeap h)(hubNext h := newClient), hubNext := hubNext h + 1,
        hubClients := hubNext h # hubClients h\<rparr>)"

text \<open>\<open>close(c.done)\<close> panics when the channel is closed already: \<open>None\<close>.\<close>

definition Unregister :: "nat \<Rightarrow> Hub \<Rightarrow> Hub option" where
  "Unregister c h =
     (let ok = c \<in> set (hubClients h);
          h' = (if ok then h\<lparr>hubClients := removeAll c (hubClients h)\<rparr> else h)
      in if \<not> ok then Some h'
         else if clDone (hubHeap h' c) then None
         else Some (h'\<lparr>hubHeap := (hubHeap h')(c := (hubHeap h' c)\<lparr>clDone := True\<rparr>)\<rparr>))"

definition Hub_Close :: "Hub \<Rightarrow> Hub option" where
  "Hub_Close h = (if hubDone h then None else Some (h\<lparr>hubDone := True\<rparr>))"

text \<open>\<open>dispatchLoop\<close> takes the next chunk; \<open>dispatch\<close> then goes through the clients in some order.\<close>

definition dispatchLoop_take :: "nat list \<Rightarrow> Hub \<Rightarrow> Hub option" where
  "dispatchLoop_take order h =
     (case recv (hubQueue h) of
        Received d q \<Rightarrow> Some (h\<lparr>hubQueue := q, hubPC := Dispatching d order\<rparr>)
      | _ \<Rightarrow> None)"

definition dispatch_step :: "Hub \<Rightarrow> Hub option" where
  "dispatch_step h =
     (case hubPC h of
        DispatchIdle \<Rightarrow> None
      | Dispatching d [] \<Rightarrow> Some (h\<lparr>hubPC := DispatchIdle\<rparr>)
      | Dispatching d (c # cs) \<Rightarrow> Some (h\<lparr>hubPC := Offering c (OfferTry d) d cs\<rparr>)
      | Offering c pc d cs \<Rightarrow>
          (case offerStep pc (clInbox (hubHeap h c)) of
             None \<Rightarrow> None
           | Some (pc', q) \<Rightarrow>
               Some (h\<lparr>hubHeap := (hubHeap h)(c := (hubHeap h c)\<lparr>clInbox := q\<rparr>),
                       hubPC := (if pc' = OfferIdle then Dispatching d cs else Offering c pc' d cs)\<rparr>)))"

definition drain_take :: "Client \<Rightarrow> Client option" where
  "drain_take c =
     (case recv (clInbox c) of
        Received d q \<Rightarrow> Some (c\<lparr>clInbox := q, clPut := OfferTry d\<rparr>)
      | _ \<Rightarrow> None)"

definition drain_select :: "Client \<Rightarrow> Client option" where
  "drain_select c =
     (case retryStep (clPut c) (clOut c) of
        None \<Rightarrow> None
      | Some (pc, q) \<Rightarrow> Some (c\<lparr>clPut := pc, clOut := q\<rparr>))"

definition drain_return :: "Client \<Rightarrow> Client option" where
  "drain_return c =
     (case closeChan (clOut c) of
        None \<Rightarrow> None
      | Some q \<Rightarrow> Some (c\<lparr>clOut := q, clDrained := True\<rparr>))"

definition handler_take :: "Client \<Rightarrow> Client option" where
  "handler_take c =
     (case recv (clOut c) of
        Received d q \<Rightarrow> Some (c\<lparr>clOut := q, clTaken := clTaken c @ [d]\<rparr>)
      | _ \<Rightarrow> None)"

definition onClient :: "nat \<Rightarrow> Client \<Rightarrow> Hub \<Rightarrow> Hub" where
  "onClient c x h = h\<lparr>hubHeap := (hubHeap h)(c := x)\<rparr>"

text \<open>
  The interleavings.  \<open>dispatchLoop\<close> picks between \<open>done\<close> and the queue at random when both are
  ready, so it may go on after \<open>Close\<close>; \<open>drain\<close> likewise.
\<close>

inductive hubStep :: "Hub \<Rightarrow> Hub \<Rightarrow> bool" where
  broadcast: "hubCast h = OfferIdle \<Longrightarrow> hubStep h (Broadcast d h)"
| broadcast_select: "Broadcast_select h = Some h' \<Longrightarrow> hubStep h h'"
| register: "hubPC h = DispatchIdle \<Longrightarrow> Register h = (c, h') \<Longrightarrow> hubStep h h'"
| unregister: "hubPC h = DispatchIdle \<Longrightarrow> Unregister c h = Some h' \<Longrightarrow> hubStep h h'"
| close: "Hub_Close h = Some h' \<Longrightarrow> hubStep h h'"
| take: "hubPC h = DispatchIdle \<Longrightarrow> set order = set (hubClients h) \<Longrightarrow> distinct order \<Longrightarrow>
    dispatchLoop_take order h = Some h' \<Longrightarrow> hubStep h h'"
| dispatch: "dispatch_step h = Some h' \<Longrightarrow> hubStep h h'"
| drain_take: "c < hubNext h \<Longrightarrow> \<not> clDrained (hubHeap h c) \<Longrightarrow> clPut (hubHeap h c) = OfferIdle \<Longrightarrow>
    drain_take (hubHeap h c) = Some x \<Longrightarrow> hubStep h (onClient c x h)"
| drain_select: "c < hubNext h \<Longrightarrow> drain_select (hubHeap h c) = Some x \<Longrightarrow> hubStep h (onClient c x h)"
| drain_return: "c < hubNext h \<Longrightarrow> \<not> clDrained (hubHeap h c) \<Longrightarrow> clPut (hubHeap h c) = OfferIdle \<Longrightarrow>
    clDone (hubHeap h c) \<Longrightarrow> drain_return (hubHeap h c) = Some x \<Longrightarrow> hubStep h (onClient c x h)"
| handler: "c < hubNext h \<Longrightarrow> handler_take (hubHeap h c) = Some x \<Longrightarrow> hubStep h (onClient c x h)"

inductive hubReachable :: "Hub \<Rightarrow> bool" where
  new: "hubReachable NewHub"
| step: "hubReachable h \<Longrightarrow> hubStep h h' \<Longrightarrow> hubReachable h'"

end
