(* ===== verification/HubSpec.thy ===== *)
theory HubSpec
  imports Hub
begin

text \<open>
  What the hub promises: every client receives chunks in broadcast order, each at most once;
  the queues stay bounded and the newest chunk always gets in; no interleaving panics.
\<close>

section \<open>The drop-oldest protocol\<close>

lemma discardOldest_items [chan_simps]:
  "chItems (discardOldest c) = tl (chItems c)" "chCap (discardOldest c) = chCap c"
  "chClosed (discardOldest c) = chClosed c"
  by (auto simp: discardOldest_def recv_def split: list.split)

text \<open>
  The invariant of a queue and its one sender: open, within its capacity, and with room when the
  sender is about to try again.
\<close>

definition offerOk :: "'a OfferPC \<Rightarrow> 'a Chan \<Rightarrow> bool" where
  "offerOk pc c \<longleftrightarrow>
     0 < chCap c \<and> \<not> chClosed c \<and> length (chItems c) \<le> chCap c \<and>
     (\<forall>a. pc = OfferLast a \<longrightarrow> length (chItems c) < chCap c)"

lemma offerOk_receive:
  "offerOk pc c \<Longrightarrow> recv c = Received a c' \<Longrightarrow> offerOk pc c'"
  by (cases c; cases c') (auto simp: offerOk_def chan_simps)

lemma subseq_tl: "subseq (tl xs) xs"
  by (cases xs) auto

lemma offerStep_ok:
  assumes "offerOk pc c"
  shows "\<exists>pc' c'. offerStep pc c = Some (pc', c') \<and> offerOk pc' c' \<and> chCap c' = chCap c \<and>
     subseq (chItems c' @ inflight pc') (chItems c @ inflight pc)"
  using assms
  by (cases pc)
    (simp_all add: offerOk_def send_def chan_simps not_less list_emb_append_mono subseq_tl less_diff_conv2,
     auto)

lemma retryStep_ok:
  assumes "offerOk pc c" and "\<forall>a. pc \<noteq> OfferLast a"
  shows "\<exists>pc' c'. retryStep pc c = Some (pc', c') \<and> offerOk pc' c' \<and> (\<forall>a. pc' \<noteq> OfferLast a) \<and>
     chCap c' = chCap c \<and> subseq (chItems c' @ inflight pc') (chItems c @ inflight pc)"
  using assms
  by (cases pc)
    (simp_all add: offerOk_def send_def chan_simps not_less list_emb_append_mono subseq_tl, auto)

lemma subseq_middle: "subseq m' m \<Longrightarrow> subseq (a @ m' @ b) (a @ m @ b)"
  by (simp add: list_emb_append_mono)

section \<open>Invariant\<close>

text \<open>What is still on its way to client \<open>c\<close> in the dispatcher's hands.\<close>

fun pendingFor :: "nat \<Rightarrow> DispatchPC \<Rightarrow> bytes list" where
  "pendingFor c DispatchIdle = []"
| "pendingFor c (Dispatching d cs) = (if c \<in> set cs then [d] else [])"
| "pendingFor c (Offering c' pc d cs) =
     (if c = c' then inflight pc else if c \<in> set cs then [d] else [])"

definition clientStream :: "Client \<Rightarrow> bytes list" where
  "clientStream x = clTaken x @ chItems (clOut x) @ inflight (clPut x) @ chItems (clInbox x)"

definition streamOf :: "nat \<Rightarrow> Hub \<Rightarrow> bytes list" where
  "streamOf c h =
     clientStream (hubHeap h c) @ pendingFor c (hubPC h) @ chItems (hubQueue h) @ inflight (hubCast h)"

definition offerTo :: "nat \<Rightarrow> DispatchPC \<Rightarrow> bytes OfferPC" where
  "offerTo c pc = (case pc of Offering c' o' d cs \<Rightarrow> if c = c' then o' else OfferIdle | _ \<Rightarrow> OfferIdle)"

fun turnOk :: "nat list \<Rightarrow> DispatchPC \<Rightarrow> bool" where
  "turnOk cl DispatchIdle = True"
| "turnOk cl (Dispatching d cs) = (distinct cs \<and> set cs \<subseteq> set cl)"
| "turnOk cl (Offering c pc d cs) = (distinct (c # cs) \<and> set (c # cs) \<subseteq> set cl \<and> pc \<noteq> OfferIdle)"

definition clientOk :: "bytes OfferPC \<Rightarrow> Client \<Rightarrow> bool" where
  "clientOk pc x \<longleftrightarrow>
     offerOk pc (clInbox x) \<and> chCap (clInbox x) = clientInboxDepth \<and>
     chCap (clOut x) = clientOutDepth \<and>
     length (chItems (clOut x)) \<le> clientOutDepth \<and> (\<forall>a. clPut x \<noteq> OfferLast a) \<and>
     (chClosed (clOut x) \<longleftrightarrow> clDrained x) \<and> (clDrained x \<longrightarrow> clPut x = OfferIdle)"

definition hubInv :: "Hub \<Rightarrow> bool" where
  "hubInv h \<longleftrightarrow>
     offerOk (hubCast h) (hubQueue h) \<and> chCap (hubQueue h) = hubQueueDepth \<and>
     distinct (hubClients h) \<and>
     (\<forall>c \<in> set (hubClients h). c < hubNext h \<and> \<not> clDone (hubHeap h c)) \<and>
     turnOk (hubClients h) (hubPC h) \<and>
     (\<forall>c. clientOk (offerTo c (hubPC h)) (hubHeap h c)) \<and>
     (\<forall>c. subseq (streamOf c h) (hubSent h))"

lemma hubInv_below:
  "hubInv h \<Longrightarrow> subseq s (streamOf c h) \<Longrightarrow> subseq s (hubSent h)"
  unfolding hubInv_def by (meson subseq_order.trans)

lemma newClient_ok [simp]: "clientOk OfferIdle newClient"
  by (simp add: clientOk_def newClient_def offerOk_def chan_simps clientInboxDepth_def clientOutDepth_def)

lemma hubInv_New: "hubInv NewHub"
  by (auto simp: hubInv_def NewHub_def offerOk_def chan_simps hubQueueDepth_def offerTo_def
      streamOf_def clientStream_def newClient_def [unfolded makeChan_def] clientOk_def
      clientInboxDepth_def clientOutDepth_def makeChan_def)

lemma onClient_inv:
  assumes "hubInv h" and "clientOk (offerTo c (hubPC h)) x" and "clDone x = clDone (hubHeap h c)"
    and "subseq (clientStream x) (clientStream (hubHeap h c))"
  shows "hubInv (onClient c x h)"
proof -
  have s: "subseq (streamOf c' (onClient c x h)) (streamOf c' h)" for c'
    using assms(4) by (auto simp: streamOf_def onClient_def list_emb_append_mono)
  have "subseq (streamOf c' (onClient c x h)) (hubSent h)" for c'
    using hubInv_below [OF assms(1) s] .
  then show ?thesis
    using assms(1-3) by (auto simp: hubInv_def onClient_def)
qed

lemma Broadcast_inv:
  assumes "hubInv h" and "hubCast h = OfferIdle"
  shows "hubInv (Broadcast d h)"
proof -
  have "subseq (streamOf c h @ [d]) (hubSent h @ [d])" for c
    using assms(1) by (simp add: hubInv_def)
  then show ?thesis
    using assms by (auto simp: Broadcast_def hubInv_def offerOk_def streamOf_def)
qed

lemma Broadcast_select_inv:
  assumes "hubInv h"
  shows "\<exists>h'. Broadcast_select h = Some h' \<and> hubInv h'"
proof -
  obtain pc q where o: "offerStep (hubCast h) (hubQueue h) = Some (pc, q)" "offerOk pc q"
      "chCap q = chCap (hubQueue h)"
      "subseq (chItems q @ inflight pc) (chItems (hubQueue h) @ inflight (hubCast h))"
    using assms offerStep_ok unfolding hubInv_def by blast
  let ?h = "h\<lparr>hubCast := pc, hubQueue := q\<rparr>"
  have "subseq (streamOf c ?h) (streamOf c h)" for c
    using o(4) unfolding streamOf_def by (auto intro!: list_emb_append_mono)
  then have "subseq (streamOf c ?h) (hubSent h)" for c
    using hubInv_below [OF assms] by blast
  then have "hubInv ?h"
    using assms o by (simp add: hubInv_def)
  then show ?thesis using o(1) by (simp add: Broadcast_select_def)
qed

lemma Register_inv:
  assumes "hubInv h" and "hubPC h = DispatchIdle" and "Register h = (c, h')"
  shows "hubInv h'"
proof -
  have "subseq (chItems (hubQueue h) @ inflight (hubCast h)) (streamOf c' h)" for c'
    by (simp add: streamOf_def list_emb_append2)
  then have q: "subseq (chItems (hubQueue h) @ inflight (hubCast h)) (hubSent h)"
    using hubInv_below [OF assms(1)] by blast
  have n: "clientStream newClient = []" "\<not> clDone newClient"
    by (simp_all add: clientStream_def newClient_def chan_simps)
  have s: "streamOf c' h' = (if c' = hubNext h then chItems (hubQueue h) @ inflight (hubCast h) else streamOf c' h)" for c'
    using assms(2,3) n by (auto simp: Register_def streamOf_def)
  have "distinct (hubClients h')" "\<forall>c\<in>set (hubClients h'). c < hubNext h' \<and> \<not> clDone (hubHeap h' c)"
    using assms n by (auto simp: hubInv_def Register_def less_SucI split: if_splits)
  then show ?thesis
    using assms q s by (auto simp: hubInv_def Register_def offerTo_def)
qed

lemma Unregister_inv:
  assumes "hubInv h" and "hubPC h = DispatchIdle"
  shows "\<exists>h'. Unregister c h = Some h' \<and> hubInv h'"
proof (cases "c \<in> set (hubClients h)")
  case False
  then show ?thesis using assms by (simp add: Unregister_def)
next
  case True
  then have d: "\<not> clDone (hubHeap h c)"
    using assms(1) by (simp add: hubInv_def)
  let ?h = "h\<lparr>hubClients := removeAll c (hubClients h), hubHeap := (hubHeap h)(c := (hubHeap h c)\<lparr>clDone := True\<rparr>)\<rparr>"
  have u: "Unregister c h = Some ?h"
    using True d by (simp add: Unregister_def Let_def)
  have s: "streamOf c' ?h = streamOf c' h" for c'
    by (auto simp: streamOf_def clientStream_def)
  have "hubInv ?h"
    using assms s by (auto simp: hubInv_def clientOk_def distinct_removeAll)
  then show ?thesis using u by simp
qed

lemma take_inv:
  assumes "hubInv h" and "hubPC h = DispatchIdle" and "set order = set (hubClients h)"
    and "distinct order" and "dispatchLoop_take order h = Some h'"
  shows "hubInv h'"
proof -
  obtain d q where r: "recv (hubQueue h) = Received d q"
      and h': "h' = h\<lparr>hubQueue := q, hubPC := Dispatching d order\<rparr>"
    using assms(5) by (auto simp: dispatchLoop_take_def split: RecvResult.splits)
  have q: "chItems (hubQueue h) = d # chItems q" "chCap q = chCap (hubQueue h)"
    using r by (auto simp: chan_simps recv_def split: list.splits if_splits)
  have "subseq (streamOf c h') (streamOf c h)" for c
    using assms(2) q unfolding streamOf_def h' by (auto intro!: list_emb_append_mono)
  moreover have "hubSent h' = hubSent h" by (simp add: h')
  ultimately have "subseq (streamOf c h') (hubSent h')" for c
    using hubInv_below [OF assms(1)] by metis
  moreover have "offerOk (hubCast h) q"
    using offerOk_receive [OF _ r] assms(1) by (simp add: hubInv_def)
  ultimately show ?thesis
    using assms q h' by (auto simp: hubInv_def offerTo_def)
qed

lemma dispatch_inv:
  assumes "hubInv h" and "hubPC h \<noteq> DispatchIdle"
  shows "\<exists>h'. dispatch_step h = Some h' \<and> hubInv h'"
proof (cases "hubPC h")
  case DispatchIdle
  then show ?thesis using assms(2) by simp
next
  case (Dispatching d cs)
  have ok: "distinct cs" "set cs \<subseteq> set (hubClients h)" "\<And>c. clientOk OfferIdle (hubHeap h c)"
    using assms(1) Dispatching by (auto simp: hubInv_def offerTo_def)
  define h' where "h' = h\<lparr>hubPC := (case cs of [] \<Rightarrow> DispatchIdle | c # cs' \<Rightarrow> Offering c (OfferTry d) d cs')\<rparr>"
  have st: "dispatch_step h = Some h'"
    using Dispatching by (auto simp: dispatch_step_def h'_def split: list.split)
  have "streamOf c h' = streamOf c h" for c
    using Dispatching ok(1) by (auto simp: streamOf_def h'_def split: list.split)
  moreover have "clientOk (offerTo c (hubPC h')) (hubHeap h' c)" for c
    using ok(3) [of c] by (auto simp: h'_def offerTo_def clientOk_def offerOk_def split: list.split)
  moreover have "turnOk (hubClients h') (hubPC h')"
    using ok by (auto simp: h'_def split: list.split)
  moreover have "offerOk (hubCast h') (hubQueue h') \<and> chCap (hubQueue h') = hubQueueDepth \<and>
     distinct (hubClients h') \<and>
     (\<forall>c \<in> set (hubClients h'). c < hubNext h' \<and> \<not> clDone (hubHeap h' c)) \<and>
     (\<forall>c. subseq (streamOf c h) (hubSent h'))"
    using assms(1) by (simp add: hubInv_def h'_def)
  ultimately have "hubInv h'"
    unfolding hubInv_def by simp
  then show ?thesis using st by blast
next
  case (Offering c pc d cs)
  have ok: "distinct (c # cs)" "set (c # cs) \<subseteq> set (hubClients h)" "clientOk pc (hubHeap h c)"
    using assms(1) Offering by (auto simp: hubInv_def offerTo_def dest!: spec [of _ c])
  obtain pc' q where o: "offerStep pc (clInbox (hubHeap h c)) = Some (pc', q)" "offerOk pc' q"
      "chCap q = chCap (clInbox (hubHeap h c))"
      "subseq (chItems q @ inflight pc') (chItems (clInbox (hubHeap h c)) @ inflight pc)"
    using ok(3) offerStep_ok unfolding clientOk_def by blast
  define h' where "h' = h\<lparr>hubHeap := (hubHeap h)(c := (hubHeap h c)\<lparr>clInbox := q\<rparr>),
     hubPC := (if pc' = OfferIdle then Dispatching d cs else Offering c pc' d cs)\<rparr>"
  have st: "dispatch_step h = Some h'"
    using Offering o(1) by (simp add: dispatch_step_def h'_def)
  have p: "pendingFor c' (hubPC h') = (if c' = c then inflight pc' else pendingFor c' (hubPC h))" for c'
    using Offering ok(1) by (auto simp: h'_def)
  have to: "offerTo c' (hubPC h') = (if c' = c then pc' else OfferIdle)"
      "c' \<noteq> c \<Longrightarrow> offerTo c' (hubPC h) = OfferIdle" for c'
    using Offering by (auto simp: h'_def offerTo_def)
  have "subseq (streamOf c' h') (streamOf c' h)" for c'
  proof (cases "c' = c")
    case True
    define pre post where "pre = clTaken (hubHeap h c) @ chItems (clOut (hubHeap h c)) @ inflight (clPut (hubHeap h c))"
      and "post = chItems (hubQueue h) @ inflight (hubCast h)"
    have "streamOf c h' = pre @ (chItems q @ inflight pc') @ post"
      using p [of c] by (simp add: streamOf_def clientStream_def h'_def pre_def post_def)
    moreover have "streamOf c h = pre @ (chItems (clInbox (hubHeap h c)) @ inflight pc) @ post"
      using Offering by (simp add: streamOf_def clientStream_def pre_def post_def)
    ultimately show ?thesis
      using True subseq_middle [OF o(4)] by simp
  next
    case False
    then show ?thesis
      using p [of c'] by (simp add: streamOf_def h'_def)
  qed
  moreover have "hubSent h' = hubSent h" by (simp add: h'_def)
  ultimately have "subseq (streamOf c' h') (hubSent h')" for c'
    using hubInv_below [OF assms(1)] by metis
  moreover have "clientOk (offerTo c' (hubPC h')) (hubHeap h' c')" for c'
    using assms(1) ok(3) o(2,3) to [of c']
    by (auto simp: hubInv_def h'_def clientOk_def dest!: spec [of _ c'])
  moreover have "turnOk (hubClients h') (hubPC h')"
    using ok by (auto simp: h'_def)
  ultimately have "hubInv h'"
    using assms(1) by (simp add: hubInv_def h'_def)
  then show ?thesis using st by blast
qed

lemma client_of_inv: "hubInv h \<Longrightarrow> clientOk (offerTo c (hubPC h)) (hubHeap h c)"
  by (simp add: hubInv_def)

lemma drain_take_inv:
  assumes "hubInv h" and "clPut (hubHeap h c) = OfferIdle" and "\<not> clDrained (hubHeap h c)"
    and "drain_take (hubHeap h c) = Some x"
  shows "hubInv (onClient c x h)"
proof -
  obtain d q where r: "recv (clInbox (hubHeap h c)) = Received d q"
      and x: "x = (hubHeap h c)\<lparr>clInbox := q, clPut := OfferTry d\<rparr>"
    using assms(4) by (auto simp: drain_take_def split: RecvResult.splits)
  have q: "chItems (clInbox (hubHeap h c)) = d # chItems q" "chCap q = chCap (clInbox (hubHeap h c))"
    using r by (auto simp: chan_simps recv_def split: list.splits if_splits)
  have "offerOk (offerTo c (hubPC h)) q"
    using offerOk_receive [OF _ r] client_of_inv [OF assms(1)] by (simp add: clientOk_def)
  then show ?thesis
    using q assms(2,3) client_of_inv [OF assms(1), of c] x
    by (intro onClient_inv [OF assms(1)]) (auto simp: clientOk_def clientStream_def)
qed

lemma drain_select_inv:
  assumes "hubInv h"
  shows "\<exists>x. drain_select (hubHeap h c) = Some x \<and> hubInv (onClient c x h)"
proof -
  define y where "y = hubHeap h c"
  have y: "clientOk (offerTo c (hubPC h)) y"
    using client_of_inv [OF assms] by (simp add: y_def)
  show ?thesis
  proof (cases "clPut y = OfferIdle")
    case True
    then have "drain_select y = Some y"
      by (simp add: drain_select_def)
    moreover have "hubInv (onClient c y h)"
      using y by (intro onClient_inv [OF assms]) (simp_all add: y_def)
    ultimately show ?thesis unfolding y_def by blast
  next
    case False
    then have "offerOk (clPut y) (clOut y)" "\<forall>a. clPut y \<noteq> OfferLast a"
      using y by (auto simp: clientOk_def offerOk_def clientOutDepth_def)
    from retryStep_ok [OF this] obtain pc q where o: "retryStep (clPut y) (clOut y) = Some (pc, q)"
        "offerOk pc q" "\<forall>a. pc \<noteq> OfferLast a" "chCap q = chCap (clOut y)"
        "subseq (chItems q @ inflight pc) (chItems (clOut y) @ inflight (clPut y))"
      by blast
    let ?x = "y\<lparr>clPut := pc, clOut := q\<rparr>"
    have "clientOk (offerTo c (hubPC h)) ?x"
      using y o False by (auto simp: clientOk_def offerOk_def)
    moreover have "subseq (clientStream ?x) (clientStream y)"
      using subseq_middle [OF o(5), of "clTaken y" "chItems (clInbox y)"] by (simp add: clientStream_def)
    ultimately have "hubInv (onClient c ?x h)"
      by (intro onClient_inv [OF assms]) (simp_all add: y_def)
    then show ?thesis
      using o(1) unfolding y_def drain_select_def by simp
  qed
qed

lemma drain_return_inv:
  assumes "hubInv h" and "clPut (hubHeap h c) = OfferIdle" and "\<not> clDrained (hubHeap h c)"
  shows "\<exists>x. drain_return (hubHeap h c) = Some x \<and> hubInv (onClient c x h)"
proof -
  let ?x = "(hubHeap h c)\<lparr>clOut := (clOut (hubHeap h c))\<lparr>chClosed := True\<rparr>, clDrained := True\<rparr>"
  have ok: "clientOk (offerTo c (hubPC h)) (hubHeap h c)"
    by (rule client_of_inv [OF assms(1)])
  then have "drain_return (hubHeap h c) = Some ?x"
    using assms(3) by (simp add: drain_return_def closeChan_def clientOk_def)
  moreover have "hubInv (onClient c ?x h)"
    using ok assms(2) by (intro onClient_inv [OF assms(1)]) (simp_all add: clientOk_def clientStream_def)
  ultimately show ?thesis by blast
qed

lemma handler_inv:
  assumes "hubInv h" and "handler_take (hubHeap h c) = Some x"
  shows "hubInv (onClient c x h)"
proof -
  obtain d q where r: "recv (clOut (hubHeap h c)) = Received d q"
      and x: "x = (hubHeap h c)\<lparr>clOut := q, clTaken := clTaken (hubHeap h c) @ [d]\<rparr>"
    using assms(2) by (auto simp: handler_take_def split: RecvResult.splits)
  have q: "chItems (clOut (hubHeap h c)) = d # chItems q" "chCap q = chCap (clOut (hubHeap h c))"
      "chClosed q = chClosed (clOut (hubHeap h c))"
    using r by (auto simp: recv_def split: list.splits if_splits)
  show ?thesis
    using q client_of_inv [OF assms(1), of c] x
    by (intro onClient_inv [OF assms(1)]) (auto simp: clientOk_def clientStream_def)
qed

lemma hubStep_inv:
  assumes "hubStep h h'" and "hubInv h"
  shows "hubInv h'"
  using assms
proof (cases rule: hubStep.cases)
  case (broadcast d)
  then show ?thesis using Broadcast_inv assms(2) by simp
next
  case broadcast_select
  then show ?thesis using Broadcast_select_inv [OF assms(2)] by auto
next
  case (register c)
  then show ?thesis using Register_inv assms(2) by blast
next
  case (unregister c)
  then show ?thesis using Unregister_inv [OF assms(2), of c] by auto
next
  case close
  then have "h' = h\<lparr>hubDone := True\<rparr>" by (auto simp: Hub_Close_def split: if_splits)
  then show ?thesis using assms(2) by (simp add: hubInv_def streamOf_def)
next
  case (take order)
  then show ?thesis using take_inv assms(2) by blast
next
  case dispatch
  then show ?thesis using dispatch_inv [OF assms(2)]
    by (cases "hubPC h") (auto simp: dispatch_step_def)
next
  case (drain_take c x)
  then show ?thesis using drain_take_inv assms(2) by simp
next
  case (drain_select c x)
  then show ?thesis using drain_select_inv [OF assms(2), of c] by auto
next
  case (drain_return c x)
  then show ?thesis using drain_return_inv [OF assms(2), of c] by auto
next
  case (handler c x)
  then show ?thesis using handler_inv assms(2) by simp
qed

lemma hubReachable_inv: "hubReachable h \<Longrightarrow> hubInv h"
  by (induction rule: hubReachable.induct) (auto intro: hubInv_New hubStep_inv)

text \<open>A hub with one client and one chunk in the queue, reached by three steps.\<close>

definition hub1 :: Hub where
  "hub1 = snd (Register NewHub)"

definition hub2 :: Hub where
  "hub2 = hub1\<lparr>hubSent := [[71]], hubQueue := (hubQueue hub1)\<lparr>chItems := [[71]]\<rparr>\<rparr>"

lemma hub2_reachable: "hubReachable hub2"
proof -
  have "hubReachable hub1"
    by (rule hubReachable.step [OF hubReachable.new])
      (rule hubStep.register [where c = 0], simp_all add: hub1_def Register_def NewHub_def)
  then have "hubReachable (Broadcast [71] hub1)"
    by (rule hubReachable.step)
      (rule hubStep.broadcast, simp add: hub1_def Register_def NewHub_def)
  then show ?thesis
    by (rule hubReachable.step)
      (rule hubStep.broadcast_select,
       simp add: hub2_def hub1_def Register_def NewHub_def Broadcast_def Broadcast_select_def
         send_def chan_simps hubQueueDepth_def)
qed

section \<open>Properties\<close>

text \<open>
  C19. Every HTTP client sees the captured stream in order: in every reachable state, under every
  interleaving, what a client's handler received followed by what is queued for it is a
  subsequence of what was broadcast.  Chunks may be dropped, never reordered, repeated or made up.
\<close>

theorem hub_stream_in_order:
  assumes "hubReachable h"
  shows "subseq (clTaken (hubHeap h c) @ chItems (clOut (hubHeap h c)) @ chItems (clInbox (hubHeap h c)))
           (hubSent h)"
proof -
  have "subseq (clTaken (hubHeap h c) @ chItems (clOut (hubHeap h c)) @ chItems (clInbox (hubHeap h c)))
      (streamOf c h)"
    unfolding streamOf_def clientStream_def
    by (auto intro!: list_emb_append_mono intro: list_emb_append2 list_emb_prefix simp: list_emb_append2)
  then show ?thesis
    by (rule hubInv_below [OF hubReachable_inv [OF assms]])
qed

theorem hub_stream_in_order_witness:
  "hubSent hub2 = [[71]] \<and>
   subseq (clTaken (hubHeap hub2 0) @ chItems (clOut (hubHeap hub2 0)) @ chItems (clInbox (hubHeap hub2 0)))
     (hubSent hub2)"
  using hub_stream_in_order [OF hub2_reachable, of 0] by (simp add: hub2_def)

text \<open>
  The hub never blocks the sniffer and never discards the newest chunk: in every reachable
  state the queues are within their depths, and the last select of \<open>Broadcast\<close> appends its chunk,
  whatever the dispatcher did in between.
\<close>

theorem hub_keeps_newest:
  assumes "hubReachable h"
  shows "length (chItems (hubQueue h)) \<le> 4096 \<and>
     length (chItems (clInbox (hubHeap h c))) \<le> 4096 \<and> length (chItems (clOut (hubHeap h c))) \<le> 8192 \<and>
     (hubCast h = OfferLast d \<longrightarrow>
        Broadcast_select h =
          Some (h\<lparr>hubCast := OfferIdle, hubQueue := (hubQueue h)\<lparr>chItems := chItems (hubQueue h) @ [d]\<rparr>\<rparr>))"
proof -
  have i: "hubInv h" by (rule hubReachable_inv [OF assms])
  have "offerOk (hubCast h) (hubQueue h)" "chCap (hubQueue h) = hubQueueDepth"
    "clientOk (offerTo c (hubPC h)) (hubHeap h c)"
    using i by (simp_all add: hubInv_def)
  then show ?thesis
    by (auto simp: clientOk_def offerOk_def Broadcast_select_def send_def hubQueueDepth_def
        clientInboxDepth_def clientOutDepth_def)
qed

theorem hub_keeps_newest_witness:
  "hubReachable hub2 \<and> length (chItems (hubQueue hub2)) \<le> 4096"
  using hub_keeps_newest [OF hub2_reachable, of 0 "[71]"] hub2_reachable by simp

text \<open>
  C28. No interleaving panics: in every reachable state each select of \<open>Broadcast\<close>, \<open>dispatch\<close> and
  \<open>drain\<close> goes through, \<open>Unregister\<close> (called both by the handler and when the request context ends)
  never closes \<open>done\<close> twice, and a \<open>drain\<close> that returns closes \<open>out\<close> for the first time.
\<close>

theorem hub_never_panics:
  assumes "hubReachable h"
  shows "Broadcast_select h \<noteq> None \<and>
     (hubPC h = DispatchIdle \<longrightarrow> Unregister c h \<noteq> None) \<and>
     (hubPC h \<noteq> DispatchIdle \<longrightarrow> dispatch_step h \<noteq> None) \<and>
     drain_select (hubHeap h c) \<noteq> None \<and>
     (clPut (hubHeap h c) = OfferIdle \<and> \<not> clDrained (hubHeap h c) \<longrightarrow> drain_return (hubHeap h c) \<noteq> None)"
proof -
  have i: "hubInv h" by (rule hubReachable_inv [OF assms])
  show ?thesis
    using Broadcast_select_inv [OF i] Unregister_inv [OF i, of c] dispatch_inv [OF i]
      drain_select_inv [OF i, of c] drain_return_inv [OF i, of c]
    by auto
qed

theorem hub_never_panics_witness: "Unregister 0 hub2 \<noteq> None"
  using hub_never_panics [OF hub2_reachable, of 0]
  by (simp add: hub2_def hub1_def Register_def NewHub_def)

end
