(* ===== verification/Sniffer.thy ===== *)
theory Sniffer
  imports Types MpegTSSpec
begin

text \<open>
  The sniffer (sniffer.go): the goroutine between dispatcher and writer.  It scans every write
  for MPEG-TS, broadcasts the packets it finds and passes the write on with the ranges they
  occupied.  \<open>snHeld\<close> is the observation that \<open>s.out <- ...\<close> is sending, \<open>snCast\<close> lists the chunks
  handed to the hub (one by one in \<open>Streaming\<close>).
\<close>

definition snifferQueueDepth :: nat where "snifferQueueDepth = 1024"

record Sniffer =
  snIn :: "WriteEvent Chan"
  snOut :: "ObservedWrite Chan"
  snScanner :: TSScanner
  snHeld :: "ObservedWrite option"
  snDone :: bool
  snCast :: "bytes list"

definition NewSniffer :: Sniffer where
  "NewSniffer =
     \<lparr>snIn = makeChan snifferQueueDepth, snOut = makeChan snifferQueueDepth, snScanner = NewTSScanner,
      snHeld = None, snDone = False, snCast = []\<rparr>"

text \<open>The loop over the chunks of one write, and the whole body for one event.\<close>

definition captureOf :: "u64 \<Rightarrow> TSChunk \<Rightarrow> CaptureRange" where
  "captureOf sq c = \<lparr>cSeq = sq, cStart = tcStart c, cEnd = tcEnd c\<rparr>"

definition observe :: "WriteEvent \<Rightarrow> TSScanner \<Rightarrow> bytes list \<times> ObservedWrite \<times> TSScanner" where
  "observe ev s =
     (let (chunks, isMPEGTS, s') = Feed (eOffset ev) (eData ev) s
      in (map tcData chunks,
          \<lparr>oEvent = ev, oMPEGTS = isMPEGTS, oCaptures = map (captureOf (eSeq ev)) chunks\<rparr>,
          s'))"

definition Sniffer_run_step :: "Sniffer \<Rightarrow> Sniffer option" where
  "Sniffer_run_step s =
     (if snDone s then None
      else case snHeld s of
        Some ob \<Rightarrow>
          (case send ob (snOut s) of
             Done c \<Rightarrow> Some (s\<lparr>snOut := c, snHeld := None\<rparr>)
           | _ \<Rightarrow> None)
      | None \<Rightarrow>
          (case recv (snIn s) of
             Received ev c \<Rightarrow>
               let (casts, ob, sc) = observe ev (snScanner s)
               in Some (s\<lparr>snIn := c, snScanner := sc, snHeld := Some ob, snCast := snCast s @ casts\<rparr>)
           | RecvClosed \<Rightarrow>
               (case closeChan (snOut s) of
                  None \<Rightarrow> None
                | Some c \<Rightarrow> Some (s\<lparr>snOut := c, snDone := True\<rparr>))
           | RecvBlocks \<Rightarrow> None))"

section \<open>What a sequence of writes is turned into\<close>

fun observeAll :: "WriteEvent list \<Rightarrow> TSScanner \<Rightarrow> ObservedWrite list \<times> TSScanner" where
  "observeAll [] s = ([], s)"
| "observeAll (ev # evs) s =
     (let (_, ob, s1) = observe ev s; (obs, s2) = observeAll evs s1 in (ob # obs, s2))"

lemma observeAll_append:
  "observeAll (evs @ [ev]) s =
     (let (obs, s1) = observeAll evs s; (_, ob, s2) = observe ev s1 in (obs @ [ob], s2))"
  by (induction evs arbitrary: s) (auto simp: Let_def split: prod.split)

lemma observe_event: "observe ev s = (casts, ob, s') \<Longrightarrow> oEvent ob = ev"
  by (auto simp: observe_def Let_def split: prod.splits)

lemma observeAll_events: "map oEvent (fst (observeAll evs s)) = evs"
proof (induction evs arbitrary: s)
  case Nil
  then show ?case by simp
next
  case (Cons ev evs)
  obtain casts ob s1 where o: "observe ev s = (casts, ob, s1)" by (metis prod.exhaust)
  show ?case
    using Cons.IH [of s1] observe_event [OF o] by (simp add: o Let_def split_beta)
qed

definition hostWrites :: "WriteEvent list \<Rightarrow> (u64 \<times> bytes) list" where
  "hostWrites evs = map (\<lambda>ev. (eOffset ev, eData ev)) evs"

text \<open>
  A capture that is right: stamped with the sequence number of the write that completed it, and
  covering whole packets that the writes so far put exactly there.
\<close>

definition captureOk :: "WriteEvent list \<Rightarrow> WriteEvent \<Rightarrow> CaptureRange \<Rightarrow> bool" where
  "captureOk evs ev c \<longleftrightarrow>
     cSeq c = eSeq ev \<and>
     (\<exists>ch. chunkOk ch \<and> cStart c = tcStart ch \<and> cEnd c = tcEnd ch \<and>
           blockWrote (hostWrites evs) (tcStart ch) (tcData ch))"

lemma Feed_unflagged: "Feed off data s = (cs, False, s') \<Longrightarrow> tsInv s \<Longrightarrow> cs = []"
  by (auto simp: Feed_def Let_def split: if_splits option.splits prod.splits)

lemma observe_ok:
  assumes "tsInv s" and "blockWrote (hostWrites evs) (bufferStart s) (buffer s)"
    and "observe ev s = (casts, ob, s')"
  shows "tsInv s' \<and> blockWrote (hostWrites (evs @ [ev])) (bufferStart s') (buffer s') \<and>
     (\<forall>c \<in> set (oCaptures ob). captureOk (evs @ [ev]) ev c) \<and> (\<not> oMPEGTS ob \<longrightarrow> casts = [])"
proof -
  obtain cs flag where F: "Feed (eOffset ev) (eData ev) s = (cs, flag, s')"
      and o: "ob = \<lparr>oEvent = ev, oMPEGTS = flag, oCaptures = map (captureOf (eSeq ev)) cs\<rparr>"
      and c: "casts = map tcData cs"
    using assms(3) by (auto simp: observe_def Let_def split: prod.splits)
  have w: "blockWrote (hostWrites (evs @ [ev])) (bufferStart s) (buffer s)"
    using assms(2) by (rule blockWrote_mono) (auto simp: hostWrites_def)
  have "(eOffset ev, eData ev) \<in> set (hostWrites (evs @ [ev]))"
    by (simp add: hostWrites_def)
  from Feed_wrote [OF assms(1) F w this] show ?thesis
    using Feed_inv [OF assms(1) F] Feed_unflagged [of "eOffset ev" "eData ev" s cs s'] F assms(1) o c
    by (auto simp: captureOk_def captureOf_def)
qed

lemma observeAll_ok:
  assumes "tsInv s" and "blockWrote (hostWrites before) (bufferStart s) (buffer s)"
    and "observeAll evs s = (obs, s')"
  shows "\<forall>k < length evs. \<forall>c \<in> set (oCaptures (obs ! k)).
     captureOk (before @ take (Suc k) evs) (evs ! k) c"
  using assms
proof (induction evs arbitrary: before s obs)
  case Nil
  then show ?case by simp
next
  case (Cons ev evs)
  obtain casts ob s1 where o: "observe ev s = (casts, ob, s1)" by (metis prod.exhaust)
  obtain obs' where r: "observeAll evs s1 = (obs', s')" and obs: "obs = ob # obs'"
    using Cons.prems(3) o by (auto simp: Let_def split: prod.splits)
  note ok = observe_ok [OF Cons.prems(1,2) o]
  have tail: "\<forall>k < length evs. \<forall>c \<in> set (oCaptures (obs' ! k)).
     captureOk ((before @ [ev]) @ take (Suc k) evs) (evs ! k) c"
    using Cons.IH [OF _ _ r] ok by blast
  show ?case
  proof (intro allI impI ballI)
    fix k c assume k: "k < length (ev # evs)" and c: "c \<in> set (oCaptures (obs ! k))"
    show "captureOk (before @ take (Suc k) (ev # evs)) ((ev # evs) ! k) c"
      using k c ok tail obs by (cases k) auto
  qed
qed

text \<open>
  C26. The sniffer passes every write on, in order, and its captures are right: each is stamped
  with the sequence number of the write that completed it, and names whole valid packets whose
  every byte was written at that disk position by that write or an earlier one.  A write without
  a capture-worthy stream is passed on without captures.
\<close>

theorem sniffer_captures:
  assumes "observeAll evs NewTSScanner = (obs, s')"
  shows "map oEvent obs = evs \<and>
     (\<forall>k c. k < length evs \<and> c \<in> set (oCaptures (obs ! k)) \<longrightarrow>
        captureOk (take (Suc k) evs) (evs ! k) c)"
proof -
  have "blockWrote (hostWrites []) (bufferStart NewTSScanner) (buffer NewTSScanner)"
    by (simp add: NewTSScanner_def)
  from observeAll_ok [OF tsInv_New this assms] show ?thesis
    using observeAll_events [of evs NewTSScanner] assms by auto
qed

definition sampleEvent :: WriteEvent where
  "sampleEvent = \<lparr>eSeq = 1, eOffset = 4096, eData = [1, 2, 3],
     eStaged = \<lparr>xStart = 4096, xEnd = 4099, xGen = 1\<rparr>, eTouchesMFT = False\<rparr>"

theorem sniffer_captures_witness:
  "map oEvent (fst (observeAll [sampleEvent] NewTSScanner)) = [sampleEvent]"
  using sniffer_captures [of "[sampleEvent]" "fst (observeAll [sampleEvent] NewTSScanner)"
      "snd (observeAll [sampleEvent] NewTSScanner)"]
  by simp

end
