(* ===== verification/Mbr.thy ===== *)
theory Mbr
  imports Prelude
begin

text \<open>
  Finding the NTFS partition in the master boot record (mbr.go, partition.go).
\<close>

record Partition =
  ptOffset :: i64
  ptSize :: i64
  ptType :: u8

definition mbrSectorSize :: nat where "mbrSectorSize = 512"

text \<open>\<open>mbrEntry mbr i\<close> is the body of the loop for entry \<open>i\<close>: \<open>None\<close> for \<open>continue\<close>.\<close>

definition mbrEntry :: "bytes \<Rightarrow> nat \<Rightarrow> Partition option" where
  "mbrEntry mbr i =
     (let off = 446 + i * 16;
          partType = mbr ! (off + 4)
      in if partType \<noteq> 0x07 then None
         else
           let startLBA = le32 mbr (off + 8);
               sectors = le32 mbr (off + 12)
           in if startLBA = 0 \<or> sectors = 0 then None
              else Some \<lparr>ptOffset = ucast startLBA * 512, ptSize = ucast sectors * 512,
                         ptType = partType\<rparr>)"

fun mbrLoop :: "bytes \<Rightarrow> nat list \<Rightarrow> GoError + Partition" where
  "mbrLoop mbr [] = Inl (Errorf ''no NTFS partition found'')"
| "mbrLoop mbr (i # is) =
     (case mbrEntry mbr i of Some p \<Rightarrow> Inr p | None \<Rightarrow> mbrLoop mbr is)"

definition findMBRPartition :: "IoOutcome \<Rightarrow> File \<Rightarrow> GoError + Partition" where
  "findMBRPartition oc f =
     (case File_ReadAt oc f mbrSectorSize 0 of
        (mbr, Some err) \<Rightarrow> Inl (Wrapf ''read MBR'' err)
      | (mbr, None) \<Rightarrow>
          if le16 mbr 510 \<noteq> 0xAA55 then Inl (Errorf ''invalid MBR signature'')
          else mbrLoop mbr [0..<4])"

section \<open>Properties\<close>

lemma mbrLoop_Inr:
  "mbrLoop mbr is = Inr p \<longleftrightarrow>
     (\<exists>k < length is. mbrEntry mbr (is ! k) = Some p \<and> (\<forall>j < k. mbrEntry mbr (is ! j) = None))"
  by (induction "is") (auto simp: Ex_less_Suc2 All_less_Suc2 split: option.split)

lemma unat_ucast_u32: "unat (ucast (w :: u32) :: u64) = unat w"
proof -
  have "unat w < 2 ^ 64" using unat_less [of w] by simp
  then show ?thesis by (simp add: unsigned_ucast_eq take_bit_nat_eq_self)
qed

lemma sector_scale:
  fixes w :: u32
  shows "unat (ucast w * 512 :: u64) = unat w * 512"
proof -
  have "unat w < 2 ^ 32"
    using unat_less [of w] by simp
  then have "unat (ucast w :: u64) * unat (512 :: u64) < 2 ^ 64"
    by (simp add: unat_ucast_u32)
  then show ?thesis
    by (simp add: unat_mult_lem [THEN iffD1] unat_ucast_u32)
qed

lemma sector_eq: "(ucast (w :: u32) * 512 :: u64) = x \<longleftrightarrow> unat x = unat w * 512"
  by (metis sector_scale word_unat_eq_iff)

text \<open>
  C40. \<open>findMBRPartition\<close> returns the first of the four entries that has type 0x07 and a nonzero
  start and size, with both scaled to bytes without overflow, whenever the first sector carries
  the boot signature; it fails on every other image.
\<close>

theorem findMBRPartition_first:
  assumes "512 \<le> fSize f" and "fSize f < 2 ^ 63" and "mbr = peekBytes 0 512 (fData f)"
  shows "findMBRPartition IoOk f = Inr p \<longleftrightarrow>
    le16 mbr 510 = 0xAA55 \<and>
    (\<exists>k < 4. mbr ! (450 + 16 * k) = 7 \<and> le32 mbr (454 + 16 * k) \<noteq> 0 \<and> le32 mbr (458 + 16 * k) \<noteq> 0 \<and>
       ptType p = 7 \<and> unat (ptOffset p) = unat (le32 mbr (454 + 16 * k)) * 512 \<and>
       unat (ptSize p) = unat (le32 mbr (458 + 16 * k)) * 512 \<and>
       (\<forall>j < k. mbr ! (450 + 16 * j) \<noteq> 7 \<or> le32 mbr (454 + 16 * j) = 0 \<or> le32 mbr (458 + 16 * j) = 0))"
proof -
  have off: "446 + k * 16 + 4 = 450 + 16 * k" "446 + k * 16 + 8 = 454 + 16 * k"
      "446 + k * 16 + 12 = 458 + 16 * k" for k :: nat
    by simp_all
  have e: "mbrEntry mbr k = Some q \<longleftrightarrow>
      mbr ! (450 + 16 * k) = 7 \<and> le32 mbr (454 + 16 * k) \<noteq> 0 \<and> le32 mbr (458 + 16 * k) \<noteq> 0 \<and>
      ptType q = 7 \<and> unat (ptOffset q) = unat (le32 mbr (454 + 16 * k)) * 512 \<and>
      unat (ptSize q) = unat (le32 mbr (458 + 16 * k)) * 512" for k and q :: Partition
    by (cases q) (auto simp: mbrEntry_def Let_def sector_eq off)
  have n: "mbrEntry mbr k = None \<longleftrightarrow>
      mbr ! (450 + 16 * k) \<noteq> 7 \<or> le32 mbr (454 + 16 * k) = 0 \<or> le32 mbr (458 + 16 * k) = 0" for k
    by (auto simp: mbrEntry_def Let_def off)
  have "File_ReadAt IoOk f mbrSectorSize 0 = (mbr, None)"
    using assms by (simp add: File_ReadAt_inside mbrSectorSize_def)
  moreover have "mbrLoop mbr [0..<4] = Inr p \<longleftrightarrow>
      (\<exists>k < 4. mbrEntry mbr k = Some p \<and> (\<forall>j < k. mbrEntry mbr j = None))"
    unfolding mbrLoop_Inr by (intro iffI; elim exE conjE; rule_tac x = k in exI) simp_all
  ultimately show ?thesis
    by (simp add: findMBRPartition_def e n)
qed

definition sampleMbr :: bytes where
  "sampleMbr = replicate 450 0 @ [7, 0, 0, 0, 8, 0, 0, 0, 16, 0, 0, 0] @ replicate 48 0 @ [0x55, 0xAA]"

theorem findMBRPartition_first_witness:
  "findMBRPartition IoOk \<lparr>fSize = 512, fData = (\<lambda>i. sampleMbr ! i)\<rparr>
     = Inr \<lparr>ptOffset = 4096, ptSize = 8192, ptType = 7\<rparr>"
proof -
  have l: "length sampleMbr = 512"
    by (simp add: sampleMbr_def)
  have m: "sampleMbr = peekBytes 0 512 (\<lambda>i. sampleMbr ! i)"
    using l by (auto intro!: nth_equalityI simp: nth_peekBytes)
  have v: "le16 sampleMbr 510 = 0xAA55" "sampleMbr ! 450 = 7" "le32 sampleMbr 454 = 8" "le32 sampleMbr 458 = 16"
    by (simp_all add: sampleMbr_def le16_def le32_def sub_def nth_append)
  show ?thesis
    using findMBRPartition_first [of "\<lparr>fSize = 512, fData = (\<lambda>i. sampleMbr ! i)\<rparr>" sampleMbr
        "\<lparr>ptOffset = 4096, ptSize = 8192, ptType = 7\<rparr>"] m v
    by (auto intro!: exI [of _ 0])
qed

end
