(* ===== verification/NtfsParse.thy ===== *)
theory NtfsParse
  imports Ranges
begin

text \<open>
  The NTFS parsers of ntfs.go: run lists, the update-sequence fixup, attributes and MFT records.
  Their input is whatever the host wrote to the disk, so each access to a byte slice is checked
  and yields \<open>Panic\<close> when it is out of range, as Go does.
\<close>

section \<open>Checked access\<close>

definition bindE :: "'e + 'a \<Rightarrow> ('a \<Rightarrow> 'e + 'b) \<Rightarrow> 'e + 'b" where
  "bindE m f = (case m of Inl e \<Rightarrow> Inl e | Inr a \<Rightarrow> f a)"

definition getU8 :: "bytes \<Rightarrow> nat \<Rightarrow> GoError + u8" where
  "getU8 b i = (if i < length b then Inr (b ! i) else Inl Panic)"

definition getU16 :: "bytes \<Rightarrow> nat \<Rightarrow> GoError + u16" where
  "getU16 b i = (if i + 2 \<le> length b then Inr (le16 b i) else Inl Panic)"

definition getU32 :: "bytes \<Rightarrow> nat \<Rightarrow> GoError + u32" where
  "getU32 b i = (if i + 4 \<le> length b then Inr (le32 b i) else Inl Panic)"

definition getU64 :: "bytes \<Rightarrow> nat \<Rightarrow> GoError + u64" where
  "getU64 b i = (if i + 8 \<le> length b then Inr (le64 b i) else Inl Panic)"

definition slice :: "bytes \<Rightarrow> nat \<Rightarrow> nat \<Rightarrow> GoError + bytes" where
  "slice b lo hi = (if lo \<le> hi \<and> hi \<le> length b then Inr (take (hi - lo) (drop lo b)) else Inl Panic)"

section \<open>Data\<close>

record NTFSRun =
  nStartVCN :: u64
  nLength :: u64
  nLCN :: i64
  nSparse :: bool

record NTFSAttribute =
  aType :: u32
  aLength :: u32
  aNonResident :: bool
  aName :: string
  aFlags :: u16
  aStartingVCN :: u64
  aLastVCN :: u64
  aAllocatedSize :: u64
  aRealSize :: u64
  aRuns :: "NTFSRun list"

record NTFSRecord =
  nrID :: u64
  nrBaseID :: u64
  nrSequence :: u16
  nrInUse :: bool
  nrIsDir :: bool
  nrDataRanges :: "ByteRange list"

abbreviation ntfsAttrData :: u32 where "ntfsAttrData \<equiv> 0x80"
abbreviation ntfsAttrEnd :: u32 where "ntfsAttrEnd \<equiv> 0xFFFFFFFF"

definition ntfsFileMagic :: bytes where
  "ntfsFileMagic = [0x46, 0x49, 0x4C, 0x45]"

definition ntfsMagic :: bytes where
  "ntfsMagic = [0x4E, 0x54, 0x46, 0x53, 0x20, 0x20, 0x20, 0x20]"

section \<open>Run lists\<close>

text \<open>The loop \<open>x |= uint64(data[i+j]) << (8*j)\<close> over the bytes of a field.\<close>

fun orBytes :: "nat \<Rightarrow> u64 \<Rightarrow> bytes \<Rightarrow> u64" where
  "orBytes j x [] = x"
| "orBytes j x (b # bs) = orBytes (Suc j) (x OR push_bit (8 * j) (ucast b)) bs"

definition signExtend :: "nat \<Rightarrow> u64 \<Rightarrow> i64" where
  "signExtend bits raw =
     (if bits = 64 then raw
      else
        let v = raw AND (push_bit bits 1 - 1)
        in if raw AND push_bit (bits - 1) 1 \<noteq> 0 then v - push_bit bits 1 else v)"

function runlistLoop :: "bytes \<Rightarrow> i64 \<Rightarrow> u64 \<Rightarrow> NTFSRun list \<Rightarrow> GoError + NTFSRun list" where
  "runlistLoop data currentLCN vcn runs =
     (case data of
        [] \<Rightarrow> Inl ErrUnexpectedEOF
      | header # rest \<Rightarrow>
          if header = 0 then Inr runs
          else
            let lengthSize = unat (header AND 0x0f);
                offsetSize = unat (drop_bit 4 header)
            in if lengthSize = 0 \<or> lengthSize > 8 \<or> offsetSize > 8
               then Inl (Errorf ''invalid NTFS runlist header'')
               else if lengthSize + offsetSize > length rest then Inl ErrUnexpectedEOF
               else
                 let runLength = orBytes 0 0 (take lengthSize rest);
                     rest1 = drop lengthSize rest
                 in if runLength = 0 then Inl (Errorf ''zero-length NTFS run'')
                    else if offsetSize = 0
                    then runlistLoop rest1 currentLCN (vcn + runLength)
                           (runs @ [\<lparr>nStartVCN = vcn, nLength = runLength, nLCN = -1, nSparse = True\<rparr>])
                    else
                      let raw = orBytes 0 0 (take offsetSize rest1);
                          currentLCN' = currentLCN + signExtend (offsetSize * 8) raw
                      in if sint currentLCN' < 0 then Inl (Errorf ''negative NTFS LCN'')
                         else runlistLoop (drop offsetSize rest1) currentLCN' (vcn + runLength)
                                (runs @ [\<lparr>nStartVCN = vcn, nLength = runLength, nLCN = currentLCN', nSparse = False\<rparr>]))"
  by pat_completeness auto

termination
  by (relation "measure (\<lambda>(data, _). length data)") auto

declare runlistLoop.simps [simp del]

definition parseNTFSRunlist :: "bytes \<Rightarrow> u64 \<Rightarrow> GoError + NTFSRun list" where
  "parseNTFSRunlist data startVCN = runlistLoop data 0 startVCN []"

section \<open>Fixup\<close>

text \<open>
  The loop over the sectors.  \<open>usn\<close> and \<open>repl\<close> are slices of the record itself, so they are read
  from the record as it is in that iteration.  The result is the record with the changes made so
  far, and the error.
\<close>

fun fixupLoop :: "nat \<Rightarrow> nat \<Rightarrow> nat list \<Rightarrow> bytes \<Rightarrow> bytes \<times> GoError option" where
  "fixupLoop stride usaOff [] record = (record, None)"
| "fixupLoop stride usaOff (i # is) record =
     (if stride * (i + 1) < 2 \<or> length record < stride * (i + 1) \<or> length record < usaOff + 2
      then (record, Some Panic)
      else
        let trailer = stride * (i + 1) - 2
        in if record ! trailer \<noteq> record ! usaOff \<or> record ! (trailer + 1) \<noteq> record ! (usaOff + 1)
           then (record, Some (Errorf ''NTFS fixup mismatch''))
           else if length record < usaOff + 4 + 2 * i then (record, Some Panic)
           else
             let r1 = record[trailer := record ! (usaOff + 2 + 2 * i)];
                 r2 = r1[trailer + 1 := r1 ! (usaOff + 3 + 2 * i)]
             in fixupLoop stride usaOff is r2)"

definition applyNTFSFixup :: "bytes \<Rightarrow> u64 \<Rightarrow> bytes \<times> GoError option" where
  "applyNTFSFixup record bytesPerSector =
     (if bytesPerSector = 0 then (record, Some (Errorf ''invalid sector size''))
      else
        let stride = unat bytesPerSector
        in if length record = 0 \<or> length record mod stride \<noteq> 0 \<or> length record < 8
           then (record, Some (Errorf ''invalid NTFS record geometry''))
           else
             let usaOff = unat (le16 record 4);
                 usaCount = unat (le16 record 6);
                 sectors = length record div stride
             in if usaOff < 8 \<or> usaCount \<noteq> sectors + 1 \<or> usaOff + usaCount * 2 > length record
                then (record, Some (Errorf ''invalid NTFS update-sequence array''))
                else fixupLoop stride usaOff [0..<sectors] record)"

section \<open>Attributes and records\<close>

definition zeroAttribute :: NTFSAttribute where
  "zeroAttribute =
     \<lparr>aType = 0, aLength = 0, aNonResident = False, aName = [], aFlags = 0, aStartingVCN = 0,
      aLastVCN = 0, aAllocatedSize = 0, aRealSize = 0, aRuns = []\<rparr>"

text \<open>The name of an attribute: empty, or the placeholder the code stores.\<close>

definition attributeName :: "bytes \<Rightarrow> nat \<Rightarrow> nat \<Rightarrow> nat \<Rightarrow> GoError + string" where
  "attributeName record off attrEnd nameLen =
     (if nameLen > 0 then
        bindE (getU16 record (off + 10)) (\<lambda>nameOff.
          let nameStart = off + unat nameOff;
              nameEnd = nameStart + nameLen * 2
          in if nameStart < off \<or> nameEnd > attrEnd
             then Inl (Errorf ''invalid NTFS attribute name'')
             else Inr ''<named>'')
      else Inr [])"

text \<open>The part for a nonresident attribute, from line 819 on.\<close>

definition nonresidentPart :: "bytes \<Rightarrow> nat \<Rightarrow> nat \<Rightarrow> NTFSAttribute \<Rightarrow> GoError + NTFSAttribute" where
  "nonresidentPart record off attrEnd a =
     (if off + 0x40 > attrEnd then Inl ErrUnexpectedEOF
      else
        bindE (getU64 record (off + 0x10)) (\<lambda>startVCN.
        bindE (getU64 record (off + 0x18)) (\<lambda>lastVCN.
        bindE (getU16 record (off + 0x20)) (\<lambda>pairsOff.
        bindE (getU64 record (off + 0x28)) (\<lambda>alloc.
        bindE (getU64 record (off + 0x30)) (\<lambda>realSize.
          let a1 = a\<lparr>aStartingVCN := startVCN, aLastVCN := lastVCN, aAllocatedSize := alloc,
                    aRealSize := realSize\<rparr>;
              pairsStart = off + unat pairsOff
          in if pairsStart < off \<or> pairsStart > attrEnd
             then Inl (Errorf ''invalid mapping-pairs offset'')
             else if pairsStart = attrEnd then Inr a1
             else
               bindE (slice record pairsStart attrEnd) (\<lambda>pairs.
               bindE (parseNTFSRunlist pairs startVCN) (\<lambda>runs. Inr (a1\<lparr>aRuns := runs\<rparr>)))))))))"

definition parseNTFSAttribute :: "bytes \<Rightarrow> nat \<Rightarrow> nat \<Rightarrow> GoError + NTFSAttribute" where
  "parseNTFSAttribute record off limit =
     (if off + 16 > limit \<or> off + 16 > length record then Inl ErrUnexpectedEOF
      else
        bindE (getU32 record off) (\<lambda>ty.
          if ty = ntfsAttrEnd then Inr (zeroAttribute\<lparr>aType := ty\<rparr>)
          else
            bindE (getU32 record (off + 4)) (\<lambda>len.
              if len < 0x18 \<or> len mod 8 \<noteq> 0 then Inl (Errorf ''invalid NTFS attribute length'')
              else
                let attrEnd = off + unat len
                in if attrEnd > limit \<or> attrEnd > length record then Inl ErrUnexpectedEOF
                   else
                     bindE (getU8 record (off + 8)) (\<lambda>nonRes.
                     bindE (getU8 record (off + 9)) (\<lambda>nameLen.
                     bindE (attributeName record off attrEnd (unat nameLen)) (\<lambda>name.
                     bindE (getU16 record (off + 12)) (\<lambda>flags.
                       let a = zeroAttribute\<lparr>aType := ty, aLength := len, aNonResident := nonRes \<noteq> 0,
                                 aName := name, aFlags := flags\<rparr>
                       in if nonRes = 0 then Inr a
                          else nonresidentPart record off attrEnd a)))))))"

function attrLoop :: "bytes \<Rightarrow> nat \<Rightarrow> NTFSAttribute list \<Rightarrow> GoError + NTFSAttribute list" where
  "attrLoop buf off attrs =
     (if off + 4 \<le> length buf then
        (case getU32 buf off of
           Inl e \<Rightarrow> Inl e
         | Inr ty \<Rightarrow>
             if ty = ntfsAttrEnd then Inr attrs
             else
               (case parseNTFSAttribute buf off (length buf) of
                  Inl e \<Rightarrow> Inl e
                | Inr a \<Rightarrow>
                    if aLength a = 0 then Inl (Errorf ''zero-length NTFS attribute'')
                    else attrLoop buf (off + unat (aLength a)) (attrs @ [a])))
      else Inr attrs)"
  by pat_completeness auto

termination
  by (relation "measure (\<lambda>(buf, off, _). length buf - off)") (auto simp: unat_gt_0 intro!: diff_less_mono2)

declare attrLoop.simps [simp del]

definition parseNTFSRecord :: "bytes \<Rightarrow> u64 \<Rightarrow> GoError + NTFSRecord \<times> NTFSAttribute list" where
  "parseNTFSRecord buf i =
     (if length buf < 48 \<or> take 4 buf \<noteq> ntfsFileMagic then Inl (Errorf ''invalid NTFS FILE record'')
      else
        let baseID = le64 buf 32 AND 0x0000FFFFFFFFFFFF;
            info = \<lparr>nrID = i,
                    nrBaseID = (if baseID = 0 then i else baseID),
                    nrSequence = le16 buf 16,
                    nrInUse = (le16 buf 22 AND 1 \<noteq> 0),
                    nrIsDir = (le16 buf 22 AND 2 \<noteq> 0),
                    nrDataRanges = []\<rparr>
        in if \<not> nrInUse info then Inr (info, [])
           else
             let firstAttr = unat (le16 buf 20)
             in if firstAttr < 0x18 \<or> firstAttr \<ge> length buf
                then Inl (Errorf ''invalid first attribute offset'')
                else bindE (attrLoop buf firstAttr []) (\<lambda>attrs. Inr (info, attrs)))"

end
