(* ===== verification/NtfsParseSpec.thy ===== *)
theory NtfsParseSpec
  imports NtfsParse
begin

text \<open>
  What the NTFS parsers promise: no input makes them panic, every valid run list decodes to the
  runs it encodes, decoded runs are well formed, and the fixup restores a protected record and
  detects torn sectors.
\<close>

section \<open>No input panics\<close>

lemma bindE_Inr [simp]: "bindE (Inr a) f = f a"
  by (simp add: bindE_def)

lemma bindE_Inl [simp]: "bindE (Inl e) f = Inl e"
  by (simp add: bindE_def)

lemma bindE_eq_Inr: "bindE m f = Inr b \<longleftrightarrow> (\<exists>a. m = Inr a \<and> f a = Inr b)"
  by (cases m) simp_all

lemma bindE_eq_Inl: "bindE m f = Inl e \<longleftrightarrow> m = Inl e \<or> (\<exists>a. m = Inr a \<and> f a = Inl e)"
  by (cases m) simp_all

lemma get_fails:
  "getU8 b i = Inl e \<longleftrightarrow> e = Panic \<and> length b \<le> i"
  "getU16 b i = Inl e \<longleftrightarrow> e = Panic \<and> length b < i + 2"
  "getU32 b i = Inl e \<longleftrightarrow> e = Panic \<and> length b < i + 4"
  "getU64 b i = Inl e \<longleftrightarrow> e = Panic \<and> length b < i + 8"
  "slice b lo hi = Inl e \<longleftrightarrow> e = Panic \<and> \<not> (lo \<le> hi \<and> hi \<le> length b)"
  by (auto simp: getU8_def getU16_def getU32_def getU64_def slice_def)

lemmas checked = bindE_eq_Inl get_fails Let_def

lemma runlistLoop_no_panic: "runlistLoop data lcn vcn runs \<noteq> Inl Panic"
proof (induction data lcn vcn runs rule: runlistLoop.induct)
  case (1 data lcn vcn runs)
  then show ?case
    by (subst runlistLoop.simps) (auto simp: Let_def split: list.split)
qed

lemma attributeName_no_panic:
  "off + 12 \<le> length buf \<Longrightarrow> attributeName buf off attrEnd n \<noteq> Inl Panic"
  by (auto simp: attributeName_def checked)

lemma nonresidentPart_no_panic:
  assumes "attrEnd \<le> length buf"
  shows "nonresidentPart buf off attrEnd a \<noteq> Inl Panic"
  using assms runlistLoop_no_panic
  by (auto simp: nonresidentPart_def parseNTFSRunlist_def checked)

lemma parseNTFSAttribute_no_panic: "parseNTFSAttribute buf off limit \<noteq> Inl Panic"
  using attributeName_no_panic nonresidentPart_no_panic
  by (auto simp: parseNTFSAttribute_def checked split: if_splits)

lemma attrLoop_no_panic: "attrLoop buf off attrs \<noteq> Inl Panic"
proof (induction buf off attrs rule: attrLoop.induct)
  case (1 buf off attrs)
  show ?case
    using 1 parseNTFSAttribute_no_panic [of buf off "length buf"]
    by (subst attrLoop.simps) (auto simp: get_fails split: sum.split)
qed

lemma fixupLoop_no_panic:
  assumes "2 \<le> stride" and "\<forall>i \<in> set is. stride * (i + 1) \<le> length buf \<and> usaOff + 4 + 2 * i \<le> length buf"
  shows "snd (fixupLoop stride usaOff is buf) \<noteq> Some Panic"
  using assms
proof (induction "is" arbitrary: buf)
  case Nil
  then show ?case by simp
next
  case (Cons i "is")
  have "2 \<le> stride * (i + 1)" "stride * (i + 1) \<le> length buf" "usaOff + 4 + 2 * i \<le> length buf"
    using Cons.prems by (auto simp: trans_le_add1)
  then show ?case
    using Cons.IH Cons.prems by (auto simp: Let_def not_less)
qed

lemma fixup_geometry:
  fixes stride n usaOff i :: nat
  assumes "0 < stride" and "n mod stride = 0" and "0 < n" and "8 \<le> usaOff"
    and "usaOff + (n div stride + 1) * 2 \<le> n" and "i < n div stride"
  shows "2 \<le> stride" and "stride * (i + 1) \<le> n" and "usaOff + 4 + 2 * i \<le> n"
proof -
  have n: "n = stride * (n div stride)"
    using assms(2) by auto
  show "2 \<le> stride"
  proof (rule ccontr)
    assume "\<not> 2 \<le> stride"
    then have "stride = 1" using assms(1) by simp
    then show False using assms(5) by simp
  qed
  have "stride * (i + 1) \<le> stride * (n div stride)"
    using assms(6) by (intro mult_le_mono2) simp
  then show "stride * (i + 1) \<le> n"
    using n by simp
  define d where "d = n div stride"
  show "usaOff + 4 + 2 * i \<le> n"
    using assms(5,6) unfolding d_def [symmetric] by presburger
qed


section \<open>Little-endian fields\<close>

lemma orBytes_eq:
  assumes "unat x < 2 ^ (8 * j)" and "j + length bs \<le> 8"
  shows "orBytes j x bs = word_of_nat (unat x + 2 ^ (8 * j) * leNat bs)"
  using assms
proof (induction bs arbitrary: j x)
  case Nil
  then show ?case by simp
next
  case (Cons b bs)
  have j: "8 * j + 8 \<le> 64" using Cons.prems(2) by simp
  have b: "unat b < 256" by (rule unat_u8_less)
  define y where "y = push_bit (8 * j) (ucast b :: u64)"
  have lt: "unat b * 2 ^ (8 * j) < 2 ^ 64"
  proof -
    have "unat b * 2 ^ (8 * j) < 256 * 2 ^ (8 * j)" using b by simp
    also have "\<dots> = 2 ^ (8 * j + 8)" by (simp add: power_add)
    also have "\<dots> \<le> 2 ^ 64" using j by (intro power_increasing) simp_all
    finally show ?thesis .
  qed
  have ub: "unat (ucast b :: u64) = unat b"
    using b by (simp add: unsigned_ucast_eq take_bit_nat_eq_self)
  have up: "unat (2 ^ (8 * j) :: u64) = 2 ^ (8 * j)"
    using u64_of_len [of "2 ^ (8 * j)"] power_strict_increasing [of "8 * j" 64 "2::nat"] j by simp
  have y: "unat y = unat b * 2 ^ (8 * j)"
    using lt unfolding y_def push_bit_eq_mult by (simp add: unat_word_ariths ub up)
  have low: "\<not> bit x n \<or> \<not> bit y n" for n
  proof (cases "n < 8 * j")
    case True
    then show ?thesis by (simp add: y_def bit_push_bit_iff)
  next
    case False
    have "take_bit (8 * j) (unat x) = unat x"
      using Cons.prems(1) by (simp add: take_bit_nat_eq_self)
    then have "\<not> bit (unat x) n"
      using False by (metis bit_take_bit_iff)
    then show ?thesis by (simp add: bit_unsigned_iff)
  qed
  have o: "x OR y = x + y"
    using low by (simp add: disjunctive_add)
  have sum: "unat x + unat y < 2 ^ (8 * Suc j)"
  proof -
    have "unat b * 2 ^ (8 * j) + 2 ^ (8 * j) \<le> 256 * 2 ^ (8 * j)"
      using mult_le_mono1 [of "unat b + 1" 256 "2 ^ (8 * j)"] b by (simp add: algebra_simps)
    moreover have "(2::nat) ^ (8 * Suc j) = 256 * 2 ^ (8 * j)"
      by (simp add: power_add)
    ultimately show ?thesis
      using Cons.prems(1) y by linarith
  qed
  have "(2::nat) ^ (8 * Suc j) \<le> 2 ^ 64"
    using j by (intro power_increasing) simp_all
  then have "unat x + unat y < 2 ^ 64"
    using sum by linarith
  then have u: "unat (x + y) = unat x + unat y"
    by (intro unat_add_no_wrap) simp
  have "orBytes (Suc j) (x + y) bs = word_of_nat (unat (x + y) + 2 ^ (8 * Suc j) * leNat bs)"
    using sum u Cons.prems(2) by (intro Cons.IH) simp_all
  also have "unat (x + y) + 2 ^ (8 * Suc j) * leNat bs = unat x + 2 ^ (8 * j) * leNat (b # bs)"
    by (simp add: u y power_add algebra_simps)
  finally show ?case
    by (simp add: o y_def [symmetric])
qed

lemma orBytes_leNat: "length bs \<le> 8 \<Longrightarrow> orBytes 0 0 bs = word_of_nat (leNat bs)"
  using orBytes_eq [of 0 0 bs] by simp

text \<open>Sign extension of a field of \<open>o\<close> bytes that holds \<open>d\<close> in two's complement.\<close>

lemma bit_top:
  fixes raw :: u64
  assumes "0 < bits" and "bits \<le> 64" and "unat raw < 2 ^ bits"
  shows "raw AND push_bit (bits - 1) 1 \<noteq> 0 \<longleftrightarrow> 2 ^ (bits - 1) \<le> unat raw"
proof -
  have "raw AND push_bit (bits - 1) 1 \<noteq> 0 \<longleftrightarrow> bit raw (bits - 1)"
  proof
    assume "raw AND push_bit (bits - 1) 1 \<noteq> 0"
    then obtain n where "bit (raw AND push_bit (bits - 1) 1) n"
      by (metis bit_0_eq bot_apply bot_bool_def bit_eq_iff)
    then show "bit raw (bits - 1)"
      by (auto simp: bit_and_iff bit_exp_iff)
  next
    assume "bit raw (bits - 1)"
    then have "bit (raw AND push_bit (bits - 1) 1) (bits - 1)"
      using assms by (simp add: bit_and_iff bit_exp_iff)
    then show "raw AND push_bit (bits - 1) 1 \<noteq> 0" by auto
  qed
  also have "\<dots> \<longleftrightarrow> bit (unat raw) (bits - 1)"
    by (simp add: bit_unsigned_iff bit_imp_le_length)
  also have "\<dots> \<longleftrightarrow> 2 ^ (bits - 1) \<le> unat raw"
  proof -
    have "unat raw div 2 ^ (bits - 1) < 2"
      using assms by (cases bits) (simp_all add: less_mult_imp_div_less mult.commute)
    then have "odd (unat raw div 2 ^ (bits - 1)) \<longleftrightarrow> unat raw div 2 ^ (bits - 1) \<noteq> 0"
      by (cases "unat raw div 2 ^ (bits - 1)") (auto simp: less_2_cases_iff)
    then show ?thesis
      by (simp add: bit_iff_odd div_eq_0_iff not_less)
  qed
  finally show ?thesis .
qed

lemma and_mask_u64:
  fixes raw :: u64
  assumes "unat raw < 2 ^ bits"
  shows "raw AND (push_bit bits 1 - 1) = raw"
proof -
  have "take_bit bits raw = raw"
    using assms by (simp add: word_unat_eq_iff unsigned_take_bit_eq take_bit_nat_eq_self)
  then show ?thesis
    by (simp add: take_bit_eq_mask mask_eq_exp_minus_1 push_bit_of_1)
qed

lemma signExtend_int:
  assumes "0 < n" and "n \<le> 8" and "- (2 ^ (8 * n - 1)) \<le> d" and "d < 2 ^ (8 * n - 1)"
  shows "signExtend (n * 8) (word_of_nat (nat (d mod 2 ^ (8 * n)))) = word_of_int d"
proof -
  define bits r where "bits = 8 * n" and "r = d mod 2 ^ (8 * n)"
  have bits: "0 < bits" "bits \<le> 64" "n * 8 = bits"
    using assms by (auto simp: bits_def)
  have half: "(2::int) ^ bits = 2 * 2 ^ (bits - 1)"
    using bits(1) by (cases bits) simp_all
  have r0: "0 \<le> r" "r < 2 ^ bits"
    by (simp_all add: r_def bits_def)
  have r: "r = (if 0 \<le> d then d else d + 2 ^ bits)"
  proof (cases "0 \<le> d")
    case True
    then show ?thesis using assms(4) half unfolding r_def bits_def [symmetric]
      by (simp add: mod_pos_pos_trivial bits_def)
  next
    case False
    have "d mod 2 ^ bits = (d + 2 ^ bits) mod 2 ^ bits" by simp
    also have "\<dots> = d + 2 ^ bits"
      using False assms(3) half unfolding bits_def [symmetric] by (intro mod_pos_pos_trivial) linarith+
    finally show ?thesis using False by (simp add: r_def bits_def)
  qed
  define raw where "raw = (word_of_nat (nat r) :: u64)"
  have raw_int: "raw = word_of_int r"
    using r0 by (simp add: raw_def)
  have "(2::int) ^ bits \<le> 2 ^ 64"
    using bits by (intro power_increasing) simp_all
  then have "nat r < 2 ^ 64"
    using r0 by (simp add: nat_less_iff)
  then have u: "unat raw = nat r"
    unfolding raw_def by (rule u64_of_len)
  then have lt: "unat raw < 2 ^ bits"
    using r0 by (simp add: nat_less_iff)
  show ?thesis
  proof (cases "bits = 64")
    case True
    have "raw = word_of_int d"
      using True unfolding raw_int r_def bits_def by (simp add: word_of_int_eq_iff take_bit_eq_mod)
    then show ?thesis using True bits(3) by (simp add: signExtend_def raw_def r_def)
  next
    case False
    have neg: "2 ^ (bits - 1) \<le> unat raw \<longleftrightarrow> d < 0"
      using u r assms(3,4) half unfolding bits_def [symmetric]
      by (auto simp: le_nat_iff nat_le_iff r0)
    have "signExtend bits raw = (if d < 0 then raw - 2 ^ bits else raw)"
      using False bit_top [OF bits(1,2) lt] and_mask_u64 [OF lt] neg
      by (simp add: signExtend_def Let_def push_bit_of_1)
    also have "\<dots> = word_of_int d"
      using r by (simp add: raw_int)
    finally show ?thesis by (simp add: bits(3) raw_def r_def)
  qed
qed

lemma header_fields:
  fixes h :: u8
  assumes "l \<le> 8" and "k \<le> 8" and "h = word_of_nat (l + 16 * k)"
  shows "unat (h AND 0x0f) = l" and "unat (drop_bit 4 h) = k" and "0 < l \<Longrightarrow> h \<noteq> 0"
proof -
  have u: "unat h = l + 16 * k"
    using assms by (simp add: unat_of_nat del: of_nat_add)
  have "h AND 0x0f = take_bit 4 h"
    by (simp add: take_bit_eq_mask mask_eq_exp_minus_1)
  then have "unat (h AND 0x0f) = unat h mod 16"
    by (simp only: unsigned_take_bit_eq) (simp add: take_bit_eq_mod)
  then show "unat (h AND 0x0f) = l"
    using u assms by simp
  have "unat (drop_bit 4 h) = unat h div 16"
    using unat_u8_less [of h]
    by (simp only: unsigned_drop_bit_eq) (simp add: drop_bit_eq_div take_bit_nat_eq_self)
  then show "unat (drop_bit 4 h) = k"
    using u assms by simp
  show "0 < l \<Longrightarrow> h \<noteq> 0"
    using u by auto
qed

section \<open>Decoding a run list\<close>

text \<open>
  The on-disk format, independently of the parser: each run is a header with the sizes of its two
  fields, the length, and the distance of its cluster from the previous run's in two's complement
  (no distance for a sparse run); a zero ends the list.  An encoder may choose any sizes the
  values fit in.
\<close>

fun encodeRuns :: "int \<Rightarrow> (nat \<times> nat \<times> NTFSRun) list \<Rightarrow> bytes" where
  "encodeRuns p [] = [0]"
| "encodeRuns p ((l, k, r) # rs) =
     (if nSparse r then word_of_nat l # natLE l (unat (nLength r)) @ encodeRuns p rs
      else word_of_nat (l + 16 * k) # natLE l (unat (nLength r)) @
           natLE k (nat ((sint (nLCN r) - p) mod 2 ^ (8 * k))) @ encodeRuns (sint (nLCN r)) rs)"

fun encodable :: "int \<Rightarrow> u64 \<Rightarrow> (nat \<times> nat \<times> NTFSRun) list \<Rightarrow> bool" where
  "encodable p vcn [] \<longleftrightarrow> True"
| "encodable p vcn ((l, k, r) # rs) \<longleftrightarrow>
     1 \<le> l \<and> l \<le> 8 \<and> nLength r \<noteq> 0 \<and> unat (nLength r) < 256 ^ l \<and> nStartVCN r = vcn \<and>
     (if nSparse r then nLCN r = -1 \<and> encodable p (vcn + nLength r) rs
      else 1 \<le> k \<and> k \<le> 8 \<and> 0 \<le> sint (nLCN r) \<and>
           - (2 ^ (8 * k - 1)) \<le> sint (nLCN r) - p \<and> sint (nLCN r) - p < 2 ^ (8 * k - 1) \<and>
           encodable (sint (nLCN r)) (vcn + nLength r) rs)"

lemma orBytes_natLE:
  assumes "l \<le> 8" and "x < 256 ^ l"
  shows "orBytes 0 0 (natLE l x) = word_of_nat x"
  using assms by (simp add: orBytes_leNat leNat_natLE)

lemma pow_256: "(2::int) ^ (8 * k) = 256 ^ k"
  by (simp add: power_mult)

lemma runlistLoop_encoded:
  assumes "encodable (sint p) vcn xs"
  shows "runlistLoop (encodeRuns (sint p) xs @ t) p vcn runs = Inr (runs @ map (snd \<circ> snd) xs)"
  using assms
proof (induction xs arbitrary: p vcn runs)
  case Nil
  then show ?case by (subst runlistLoop.simps) simp
next
  case (Cons x xs)
  obtain l k r where x: "x = (l, k, r)" by (metis prod.exhaust)
  have l: "1 \<le> l" "l \<le> 8" "nLength r \<noteq> 0" "unat (nLength r) < 256 ^ l" "nStartVCN r = vcn"
    using Cons.prems x by auto
  have len: "orBytes 0 0 (natLE l (unat (nLength r))) = nLength r"
    using l by (simp add: orBytes_natLE)
  show ?case
  proof (cases "nSparse r")
    case True
    have r: "r = \<lparr>nStartVCN = vcn, nLength = nLength r, nLCN = -1, nSparse = True\<rparr>"
      using Cons.prems x True by (cases r) simp
    have h: "unat ((word_of_nat l :: u8) AND 0x0f) = l" "unat (drop_bit 4 (word_of_nat l :: u8)) = 0"
        "(word_of_nat l :: u8) \<noteq> 0"
      using header_fields [of l 0 "word_of_nat l"] l by simp_all
    have "runlistLoop (encodeRuns (sint p) (x # xs) @ t) p vcn runs
        = runlistLoop (encodeRuns (sint p) xs @ t) p (vcn + nLength r) (runs @ [r])"
      using True x l h len by (subst runlistLoop.simps) (simp add: Let_def r [symmetric])
    then show ?thesis
      using Cons.IH [of p "vcn + nLength r" "runs @ [r]"] Cons.prems x True by simp
  next
    case False
    define d where "d = sint (nLCN r) - sint p"
    have k: "1 \<le> k" "k \<le> 8" "0 \<le> sint (nLCN r)" "- (2 ^ (8 * k - 1)) \<le> d" "d < 2 ^ (8 * k - 1)"
        "encodable (sint (nLCN r)) (vcn + nLength r) xs"
      using Cons.prems x False by (auto simp: d_def)
    have r: "r = \<lparr>nStartVCN = vcn, nLength = nLength r, nLCN = nLCN r, nSparse = False\<rparr>"
      using Cons.prems x False by (cases r) simp
    define h where "h = (word_of_nat (l + 16 * k) :: u8)"
    note hf = header_fields [OF l(2) k(2) h_def]
    have lt: "nat (d mod 2 ^ (8 * k)) < 256 ^ k"
      by (simp add: nat_less_iff pow_256)
    have raw: "orBytes 0 0 (natLE k (nat (d mod 2 ^ (8 * k)))) = word_of_nat (nat (d mod 2 ^ (8 * k)))"
      using k(2) lt by (rule orBytes_natLE)
    have "signExtend (k * 8) (orBytes 0 0 (natLE k (nat (d mod 2 ^ (8 * k))))) = word_of_int d"
      unfolding raw using k by (intro signExtend_int) simp_all
    then have lcn: "p + signExtend (k * 8) (orBytes 0 0 (natLE k (nat (d mod 2 ^ (8 * k))))) = nLCN r"
      by (simp add: d_def)
    have "encodeRuns (sint p) (x # xs) @ t = h # natLE l (unat (nLength r)) @
        natLE k (nat (d mod 2 ^ (8 * k))) @ encodeRuns (sint (nLCN r)) xs @ t"
      using False x by (simp add: h_def d_def)
    then have "runlistLoop (encodeRuns (sint p) (x # xs) @ t) p vcn runs
        = runlistLoop (encodeRuns (sint (nLCN r)) xs @ t) (nLCN r) (vcn + nLength r) (runs @ [r])"
      using False x l k hf len lcn by (subst runlistLoop.simps) (simp add: Let_def r [symmetric])
    then show ?thesis
      using Cons.IH [OF k(6), of "runs @ [r]"] x by simp
  qed
qed

text \<open>
  C23. Run lists round-trip: whatever field sizes an encoder chose, \<open>parseNTFSRunlist\<close> decodes the
  encoding of a list of runs to exactly those runs, whatever follows the terminating zero.
\<close>

theorem runlist_roundtrip:
  assumes "encodable 0 vcn xs"
  shows "parseNTFSRunlist (encodeRuns 0 xs @ t) vcn = Inr (map (snd \<circ> snd) xs)"
  using runlistLoop_encoded [of 0 vcn xs t "[]"] assms by (simp add: parseNTFSRunlist_def)

text \<open>Two runs, the second sixteen clusters before the first, and a sparse one.\<close>

definition sampleRuns :: "(nat \<times> nat \<times> NTFSRun) list" where
  "sampleRuns =
     [(1, 2, \<lparr>nStartVCN = 0, nLength = 32, nLCN = 4096, nSparse = False\<rparr>),
      (2, 1, \<lparr>nStartVCN = 32, nLength = 300, nLCN = 4080, nSparse = False\<rparr>),
      (1, 0, \<lparr>nStartVCN = 332, nLength = 5, nLCN = -1, nSparse = True\<rparr>)]"

theorem runlist_roundtrip_witness:
  "parseNTFSRunlist (encodeRuns 0 sampleRuns @ [9, 9]) 0 = Inr (map (snd \<circ> snd) sampleRuns)"
  by (rule runlist_roundtrip) (simp add: sampleRuns_def)

section \<open>Decoded runs are well formed\<close>

fun wfRuns :: "u64 \<Rightarrow> NTFSRun list \<Rightarrow> bool" where
  "wfRuns vcn [] \<longleftrightarrow> True"
| "wfRuns vcn (r # rs) \<longleftrightarrow>
     nStartVCN r = vcn \<and> nLength r \<noteq> 0 \<and> (if nSparse r then nLCN r = -1 else 0 \<le> sint (nLCN r)) \<and>
     wfRuns (vcn + nLength r) rs"

lemma runlistLoop_wf:
  "runlistLoop data lcn vcn runs = Inr out \<Longrightarrow> \<exists>rs. out = runs @ rs \<and> wfRuns vcn rs"
proof (induction "length data" arbitrary: data lcn vcn runs rule: less_induct)
  case less
  have more: "\<exists>rs. out = runs @ rs \<and> wfRuns vcn rs"
    if "runlistLoop data' lcn' (vcn + nLength r) (runs @ [r]) = Inr out" and "length data' < length data"
      and "nStartVCN r = vcn" and "nLength r \<noteq> 0"
      and "if nSparse r then nLCN r = -1 else 0 \<le> sint (nLCN r)" for data' lcn' r
    using less.hyps [OF that(2,1)] that(3-5) by (auto simp del: of_nat_add)
  show ?case
  proof (cases data)
    case Nil
    then show ?thesis using less.prems by (subst (asm) runlistLoop.simps) simp
  next
    case (Cons header rest)
    define l k where "l = unat (header AND 0x0f)" and "k = unat (drop_bit 4 header)"
    define len where "len = orBytes 0 0 (take l rest)"
    define lcn' where "lcn' = lcn + signExtend (k * 8) (orBytes 0 0 (take k (drop l rest)))"
    define sparse run where
      "sparse = \<lparr>nStartVCN = vcn, nLength = len, nLCN = -1, nSparse = True\<rparr>"
      and "run = \<lparr>nStartVCN = vcn, nLength = len, nLCN = lcn', nSparse = False\<rparr>"
    have "out = runs \<or>
        len \<noteq> 0 \<and> runlistLoop (drop l rest) lcn (vcn + len) (runs @ [sparse]) = Inr out \<or>
        len \<noteq> 0 \<and> 0 \<le> sint lcn' \<and> runlistLoop (drop k (drop l rest)) lcn' (vcn + len) (runs @ [run]) = Inr out"
      using less.prems unfolding Cons
      by (subst (asm) runlistLoop.simps)
        (auto simp: Let_def l_def k_def len_def lcn'_def sparse_def run_def split: if_splits)
    moreover have "length (drop l rest) < length data" "length (drop k (drop l rest)) < length data"
      using Cons by auto
    ultimately show ?thesis
      using more [of "drop l rest" lcn sparse] more [of "drop k (drop l rest)" lcn' run]
      by (auto simp: sparse_def run_def)
  qed
qed

text \<open>
  A decoded run list is well formed: its runs are nonempty, cover consecutive virtual clusters
  from the starting one, and have a nonnegative cluster number unless they are sparse.
\<close>

theorem runlist_wf:
  assumes "parseNTFSRunlist data vcn = Inr runs"
  shows "wfRuns vcn runs"
  using runlistLoop_wf [of data 0 vcn "[]" runs] assms by (auto simp: parseNTFSRunlist_def)

theorem runlist_wf_witness: "wfRuns 0 (map (snd \<circ> snd) sampleRuns)"
proof -
  have "parseNTFSRunlist (encodeRuns 0 sampleRuns) 0 = Inr (map (snd \<circ> snd) sampleRuns)"
    using runlistLoop_encoded [of 0 0 sampleRuns "[]" "[]"]
    by (simp add: parseNTFSRunlist_def sampleRuns_def)
  then show ?thesis by (rule runlist_wf)
qed

section \<open>The fixup\<close>

text \<open>
  \<open>trailerOf stride j\<close>: byte \<open>j\<close> is one of the last two of its sector.  \<open>restored\<close> is the record with
  the last two bytes of the first \<open>k\<close> sectors taken from the update-sequence array.
\<close>

definition restored :: "nat \<Rightarrow> nat \<Rightarrow> nat \<Rightarrow> bytes \<Rightarrow> bytes" where
  "restored stride usaOff k r =
     map (\<lambda>j. if j div stride < k \<and> stride - 2 \<le> j mod stride
              then r ! (usaOff + 2 + 2 * (j div stride) + (j mod stride - (stride - 2))) else r ! j)
       [0..<length r]"

definition sectorIntact :: "nat \<Rightarrow> nat \<Rightarrow> bytes \<Rightarrow> nat \<Rightarrow> bool" where
  "sectorIntact stride usaOff r i \<longleftrightarrow>
     r ! (stride * (i + 1) - 2) = r ! usaOff \<and> r ! (stride * (i + 1) - 1) = r ! (usaOff + 1)"

lemma length_restored [simp]: "length (restored stride usaOff k r) = length r"
  by (simp add: restored_def)

lemma restored_0: "restored stride usaOff 0 r = r"
  by (simp add: restored_def map_nth)

lemma restored_low:
  "j < stride - 2 \<Longrightarrow> j < length r \<Longrightarrow> restored stride usaOff k r ! j = r ! j"
  by (simp add: restored_def)

lemma restored_later:
  "k \<le> j div stride \<Longrightarrow> j < length r \<Longrightarrow> restored stride usaOff k r ! j = r ! j"
  by (simp add: restored_def)

lemma trailer_pos:
  fixes stride k :: nat
  assumes "2 \<le> stride" and "t < 2"
  shows "(stride * (k + 1) - 2 + t) div stride = k" and "(stride * (k + 1) - 2 + t) mod stride = stride - 2 + t"
proof -
  define u where "u = stride - 2 + t"
  have e: "stride * (k + 1) - 2 + t = u + k * stride"
    using assms by (simp add: algebra_simps u_def)
  have "u < stride"
    using assms by (simp add: u_def)
  then show "(stride * (k + 1) - 2 + t) div stride = k"
    "(stride * (k + 1) - 2 + t) mod stride = stride - 2 + t"
    unfolding e u_def [symmetric] by simp_all
qed

lemma trailer_unique:
  fixes stride j :: nat
  assumes "2 \<le> stride" and "j div stride = k" and "stride - 2 \<le> j mod stride"
  shows "j = stride * (k + 1) - 2 \<or> j = stride * (k + 1) - 1"
proof -
  have "j = stride * k + j mod stride" using assms(2) by (metis mult_div_mod_eq)
  moreover have "j mod stride = stride - 2 \<or> j mod stride = stride - 1"
    using assms(1,3) mod_less_divisor [of stride j] by linarith
  ultimately show ?thesis using assms(1) by (auto simp: algebra_simps)
qed

lemma restored_Suc:
  assumes "2 \<le> stride" and "stride * (k + 1) \<le> length r" and "R = restored stride usaOff k r"
    and "\<And>j. j < usaOff + 4 + 2 * k \<Longrightarrow> R ! j = r ! j" and "usaOff + 4 + 2 * k \<le> stride - 2"
  shows "(let r1 = R[stride * (k + 1) - 2 := R ! (usaOff + 2 + 2 * k)]
          in r1[stride * (k + 1) - 2 + 1 := r1 ! (usaOff + 3 + 2 * k)]) = restored stride usaOff (Suc k) r"
    (is "?lhs = _")
proof (rule nth_equalityI)
  define T where "T = stride * (k + 1) - 2"
  have T: "T + 1 < length r" "stride - 2 \<le> T"
    using assms(1,2) by (auto simp: T_def)
  have pos: "T div stride = k" "(T + 1) div stride = k" "T mod stride = stride - 2" "(T + 1) mod stride = stride - 1"
    using trailer_pos [OF assms(1), of 0 k] trailer_pos [OF assms(1), of 1 k] assms(1)
    by (auto simp: T_def)
  have l: "?lhs = (R[T := r ! (usaOff + 2 + 2 * k)])[T + 1 := r ! (usaOff + 3 + 2 * k)]"
    unfolding T_def [symmetric] Let_def using assms(4,5) T by auto
  show "length ?lhs = length (restored stride usaOff (Suc k) r)"
    by (simp add: Let_def assms(3))
  fix j assume "j < length ?lhs"
  then have j: "j < length r" by (simp add: Let_def assms(3))
  show "?lhs ! j = restored stride usaOff (Suc k) r ! j"
  proof (cases "j = T \<or> j = T + 1")
    case True
    have off: "stride - 1 - (stride - 2) = 1" "usaOff + 2 + 2 * k + 1 = usaOff + 3 + 2 * k"
        "stride - 2 \<le> stride - 1"
      using assms(1) by simp_all
    from True show ?thesis
    proof
      assume "j = T"
      then show ?thesis
        using j pos T unfolding l by (simp add: assms(3) restored_def nth_list_update)
    next
      assume "j = T + 1"
      then show ?thesis
        using j pos T off unfolding l
        by (simp add: assms(3) restored_def nth_list_update ac_simps
            del: One_nat_def add_2_eq_Suc add_2_eq_Suc' diff_diff_left)
    qed
  next
    case False
    then have "\<not> (j div stride = k \<and> stride - 2 \<le> j mod stride)"
      using trailer_unique [OF assms(1), of j k] assms(1) by (auto simp: T_def)
    then have "restored stride usaOff (Suc k) r ! j = R ! j"
      using j by (auto simp: assms(3) restored_def less_Suc_eq)
    then show ?thesis using False unfolding l by simp
  qed
qed

lemma fixupLoop_restores:
  assumes "2 \<le> stride" and "stride * sectors = length r" and "usaOff + 2 * (sectors + 1) \<le> stride - 2"
    and "k \<le> sectors"
  shows "if \<forall>i. k \<le> i \<and> i < sectors \<longrightarrow> sectorIntact stride usaOff r i
     then fixupLoop stride usaOff [k..<sectors] (restored stride usaOff k r)
        = (restored stride usaOff sectors r, None)
     else snd (fixupLoop stride usaOff [k..<sectors] (restored stride usaOff k r))
        = Some (Errorf ''NTFS fixup mismatch'')"
  using assms(4)
proof (induction "sectors - k" arbitrary: k)
  case 0
  then show ?case by simp
next
  case (Suc m)
  then have k: "k < sectors" by simp
  define R where "R = restored stride usaOff k r"
  have le: "stride * (k + 1) \<le> length r"
    using k unfolding assms(2) [symmetric] by (intro mult_le_mono2) simp
  have strideLe: "stride \<le> length r"
    using le by (rule order.trans [rotated]) simp
  have low: "R ! j = r ! j" if "j < stride - 2" for j
    using that strideLe unfolding R_def by (intro restored_low) auto
  have trail: "R ! (stride * (k + 1) - 2) = r ! (stride * (k + 1) - 2)"
      "R ! (stride * (k + 1) - 2 + 1) = r ! (stride * (k + 1) - 1)"
  proof -
    define n where "n = stride * (k + 1)"
    have n: "2 \<le> n" "n \<le> length r" "(n - 2) div stride = k" "(n - 2 + 1) div stride = k"
      using assms(1) le trailer_pos(1) [OF assms(1), of 0 k] trailer_pos(1) [OF assms(1), of 1 k]
      by (simp_all add: n_def)
    have "n - 2 + 1 = n - 1" using n by simp
    moreover have "R ! (n - 2) = r ! (n - 2)" "R ! (n - 2 + 1) = r ! (n - 2 + 1)"
      unfolding R_def using n by (auto intro!: restored_later simp del: One_nat_def)
    ultimately show "R ! (stride * (k + 1) - 2) = r ! (stride * (k + 1) - 2)"
      "R ! (stride * (k + 1) - 2 + 1) = r ! (stride * (k + 1) - 1)"
      unfolding n_def [symmetric] by simp_all
  qed
  have step: "[k..<sectors] = k # [Suc k..<sectors]"
    using k by (rule upt_conv_Cons)
  have usa: "usaOff + 4 + 2 * k \<le> stride - 2"
    using assms(3) k by presburger
  have guards: "\<not> (stride * (k + 1) < 2 \<or> length R < stride * (k + 1) \<or> length R < usaOff + 2)"
      "\<not> length R < usaOff + 4 + 2 * k"
    using assms(1) le usa strideLe by (auto simp: R_def)
  have intact: "sectorIntact stride usaOff r k \<longleftrightarrow>
      \<not> (R ! (stride * (k + 1) - 2) \<noteq> R ! usaOff \<or> R ! (stride * (k + 1) - 2 + 1) \<noteq> R ! (usaOff + 1))"
    using trail low usa by (auto simp: sectorIntact_def)
  have nxt: "fixupLoop stride usaOff [k..<sectors] R =
      (if sectorIntact stride usaOff r k
       then fixupLoop stride usaOff [Suc k..<sectors] (restored stride usaOff (Suc k) r)
       else (R, Some (Errorf ''NTFS fixup mismatch'')))"
    using restored_Suc [OF assms(1) le R_def _ usa] low usa
    unfolding step fixupLoop.simps intact using guards by (simp add: Let_def)
  have IH: "if \<forall>i. Suc k \<le> i \<and> i < sectors \<longrightarrow> sectorIntact stride usaOff r i
     then fixupLoop stride usaOff [Suc k..<sectors] (restored stride usaOff (Suc k) r)
        = (restored stride usaOff sectors r, None)
     else snd (fixupLoop stride usaOff [Suc k..<sectors] (restored stride usaOff (Suc k) r))
        = Some (Errorf ''NTFS fixup mismatch'')"
    using Suc.hyps k by (intro Suc.hyps(1)) simp_all
  have all: "(\<forall>i. k \<le> i \<and> i < sectors \<longrightarrow> sectorIntact stride usaOff r i) \<longleftrightarrow>
      sectorIntact stride usaOff r k \<and> (\<forall>i. Suc k \<le> i \<and> i < sectors \<longrightarrow> sectorIntact stride usaOff r i)"
    using k by (metis Suc_le_eq Suc_leD le_antisym not_less_eq_eq)
  show ?case
    unfolding R_def [symmetric] nxt all using IH by (auto simp del: upt_Suc split: if_splits)
qed

text \<open>
  The fixup is exact.  On a record whose update-sequence array lies before the first trailer,
  it succeeds exactly when every sector ends in the update sequence number, and then every sector
  gets its own two bytes back and nothing else changes; a torn record is refused.
\<close>

theorem fixup_exact:
  assumes "stride = unat bps" and "0 < sectors" and "length r = stride * sectors" and "8 \<le> length r"
    and "usaOff = unat (le16 r 4)" and "8 \<le> usaOff" and "unat (le16 r 6) = sectors + 1"
    and "usaOff + 2 * (sectors + 1) \<le> stride - 2"
  shows "if \<forall>i. i < sectors \<longrightarrow> sectorIntact stride usaOff r i
         then applyNTFSFixup r bps = (restored stride usaOff sectors r, None)
         else snd (applyNTFSFixup r bps) = Some (Errorf ''NTFS fixup mismatch'')"
proof -
  have s: "2 \<le> stride" "0 < stride" using assms(8) by auto
  have bps: "bps \<noteq> 0" using s assms(1) by auto
  have "stride \<le> length r" using assms(2,3) by simp
  then have usa: "usaOff + (sectors + 1) * 2 \<le> length r" using assms(8) by linarith
  have "applyNTFSFixup r bps = fixupLoop stride usaOff [0..<sectors] (restored stride usaOff 0 r)"
    using assms(1-7) s bps usa by (simp add: applyNTFSFixup_def Let_def restored_0 not_less)
  then show ?thesis
    using fixupLoop_restores [OF s(1) assms(3) [symmetric] assms(8), of 0] by simp
qed

text \<open>A record of two 512-byte sectors with sequence number 0x0102.\<close>

definition sampleRecord :: bytes where
  "sampleRecord = [0x46, 0x49, 0x4C, 0x45, 48, 0, 3, 0] @ replicate 40 0 @ [2, 1, 7, 8, 9, 10] @
     replicate 456 0 @ [2, 1] @ replicate 510 0 @ [2, 1]"

theorem fixup_exact_witness:
  "applyNTFSFixup sampleRecord 512 = (restored 512 48 2 sampleRecord, None)"
proof -
  have l: "length sampleRecord = 512 * 2" by (simp add: sampleRecord_def)
  have f: "unat (le16 sampleRecord 4) = 48" "unat (le16 sampleRecord 6) = 3"
    by (simp_all add: sampleRecord_def le16_def sub_def)
  have i: "\<forall>i. i < 2 \<longrightarrow> sectorIntact 512 48 sampleRecord i"
    by (auto simp: less_2_cases_iff sectorIntact_def sampleRecord_def nth_append)
  show ?thesis
    using fixup_exact [of 512 512 2 sampleRecord 48] l f i by simp
qed

end
