(* ===== verification/Ntfs.thy ===== *)
theory Ntfs
  imports NtfsParse Mbr "HOL-Library.AList"
begin

text \<open>
  The NTFS tracker (ntfs.go): the boot sector, the location of the master file table, its records
  and the physical ranges of file data they describe.

  The tracker reads through an \<open>io.ReaderAt\<close>; here a function that gives the bytes read or the
  error, the argument \<open>rd\<close>.  The map \<open>records\<close> is an association list; a loop over a Go map has no
  fixed order, so the order in which \<open>ObserveMFTWrite\<close> visits the touched records is the argument
  \<open>ord\<close>.
\<close>

section \<open>State\<close>

type_synonym VolumeReader = "nat \<Rightarrow> i64 \<Rightarrow> GoError + bytes"

record NTFS =
  ntPartition :: Partition
  bytesPerSector :: u64
  clusterSize :: u64
  totalClusters :: u64
  mftRecordSize :: u64
  bootMFTLCN :: u64
  mftRuns :: "NTFSRun list"
  mftSize :: u64
  records :: "(u64 \<times> NTFSRecord) list"
  dataRanges :: "ByteRange list"
  mftRanges :: "ByteRange list"
  mftSnapshot :: "ByteRange list option"
  dataSnapshot :: "ByteRange list option"

definition ntfsMaxRecordSize :: u64 where "ntfsMaxRecordSize = 0x100000"
definition ntfsFirstUserRecord :: u64 where "ntfsFirstUserRecord = 16"
definition ntfsScanChunkSize :: u64 where "ntfsScanChunkSize = 0x800000"

definition emptyNTFS :: "Partition \<Rightarrow> NTFS" where
  "emptyNTFS part =
     \<lparr>ntPartition = part, bytesPerSector = 0, clusterSize = 0, totalClusters = 0, mftRecordSize = 0,
      bootMFTLCN = 0, mftRuns = [], mftSize = 0, records = [], dataRanges = [], mftRanges = [],
      mftSnapshot = None, dataSnapshot = None\<rparr>"

definition TouchesMFT :: "NTFS \<Rightarrow> u64 \<Rightarrow> u64 \<Rightarrow> bool" where
  "TouchesMFT n start en =
     (case mftSnapshot n of
        None \<Rightarrow> False
      | Some ranges \<Rightarrow> rangesOverlapSnapshot ranges start en)"

definition DataRanges :: "NTFS \<Rightarrow> ByteRange list" where
  "DataRanges n = (case dataSnapshot n of None \<Rightarrow> [] | Some ranges \<Rightarrow> ranges)"

section \<open>Boot sector\<close>

definition decodeNTFSRecordSize :: "u8 \<Rightarrow> u64 \<Rightarrow> u64 \<Rightarrow> GoError + u64" where
  "decodeNTFSRecordSize v sectorsPerCluster bps =
     (if sint v > 0 then Inr (scast v * sectorsPerCluster * bps)
      else
        let shift = unat (- v)
        in if shift = 0 \<or> shift \<ge> 63 then Inl (Errorf ''invalid MFT record exponent'')
           else Inr (push_bit shift 1))"

definition readBootSector :: "VolumeReader \<Rightarrow> NTFS \<Rightarrow> GoError + NTFS" where
  "readBootSector rd n =
     (case rd 512 (ptOffset (ntPartition n)) of
        Inl e \<Rightarrow> Inl (Wrapf ''read NTFS boot sector'' e)
      | Inr boot \<Rightarrow>
          if sub 3 8 boot \<noteq> ntfsMagic then Inl (Errorf ''NTFS OEM ID not found'')
          else if le16 boot 510 \<noteq> 0xAA55 then Inl (Errorf ''invalid NTFS boot signature'')
          else
            let bps = (ucast (le16 boot 11) :: u64);
                spcByte = boot ! 13
            in if bps = 0 \<or> spcByte = 0 then Inl (Errorf ''invalid NTFS geometry'')
               else if bps < 512 \<or> bps > 4096 \<or> bps AND (bps - 1) \<noteq> 0
               then Inl (Errorf ''unsupported NTFS bytes/sector'')
               else
                 let spc = (ucast spcByte :: u64)
                 in if bps > (- 1) div spc then Inl (Errorf ''NTFS cluster size overflow'')
                    else
                      let cs = bps * spc;
                          totalSectors = le64 boot 40;
                          lcn = le64 boot 48
                      in (case decodeNTFSRecordSize (boot ! 64) spc bps of
                            Inl e \<Rightarrow> Inl e
                          | Inr recordSize \<Rightarrow>
                              if recordSize < bps \<or> recordSize > ntfsMaxRecordSize \<or>
                                 recordSize mod bps \<noteq> 0
                              then Inl (Errorf ''unsupported MFT record size'')
                              else
                                let pc = ptSize (ntPartition n) div cs;
                                    partClusters =
                                      (if totalSectors \<noteq> 0 \<and> totalSectors div spc < pc
                                       then totalSectors div spc else pc)
                                in if partClusters = 0 \<or> lcn \<ge> partClusters
                                   then Inl (Errorf ''invalid NTFS MFT location'')
                                   else Inr (n\<lparr>bytesPerSector := bps, clusterSize := cs,
                                              bootMFTLCN := lcn, totalClusters := partClusters,
                                              mftRecordSize := recordSize\<rparr>)))"

section \<open>Reading records\<close>

definition readRawRecord :: "VolumeReader \<Rightarrow> NTFS \<Rightarrow> u64 \<Rightarrow> GoError + bytes" where
  "readRawRecord rd n physical =
     (case rd (unat (mftRecordSize n)) physical of
        Inl e \<Rightarrow> Inl e
      | Inr buf \<Rightarrow>
          (case applyNTFSFixup buf (bytesPerSector n) of
             (_, Some e) \<Rightarrow> Inl e
           | (buf', None) \<Rightarrow> Inr buf'))"

text \<open>
  The test that \<open>loadMFTLayout\<close>, \<open>refreshRecord\<close> and \<open>buildDataRanges\<close> all make: an unnamed nonresident
  DATA attribute that is not compressed, encrypted or sparse.
\<close>

definition plainData :: "NTFSAttribute \<Rightarrow> bool" where
  "plainData a \<longleftrightarrow>
     \<not> (aType a \<noteq> ntfsAttrData \<or> aName a \<noteq> [] \<or> \<not> aNonResident a) \<and>
     aFlags a AND (0x0001 OR 0x4000 OR 0x8000) = 0"

definition attrSize :: "NTFSAttribute \<Rightarrow> u64" where
  "attrSize a = (if aRealSize a = 0 then aAllocatedSize a else aRealSize a)"

definition loadMFTLayout :: "VolumeReader \<Rightarrow> NTFS \<Rightarrow> GoError + NTFS" where
  "loadMFTLayout rd n =
     (let off = ptOffset (ntPartition n) + bootMFTLCN n * clusterSize n
      in case readRawRecord rd n off of
           Inl e \<Rightarrow> Inl (Wrapf ''read MFT record 0'' e)
         | Inr buf \<Rightarrow>
             (case parseNTFSRecord buf 0 of
                Inl e \<Rightarrow> Inl (Wrapf ''parse MFT record 0'' e)
              | Inr (_, attrs) \<Rightarrow>
                  (case find plainData attrs of
                     None \<Rightarrow> Inl (Errorf ''MFT has no unnamed nonresident DATA'')
                   | Some a \<Rightarrow>
                       if attrSize a = 0 then Inl (Errorf ''MFT has zero size'')
                       else Inr (n\<lparr>mftRuns := aRuns a, mftSize := attrSize a\<rparr>))))"

definition mftRecordCount :: "NTFS \<Rightarrow> u64" where
  "mftRecordCount n =
     (if mftRecordSize n = 0 \<or> mftSize n = 0 then 0
      else (mftSize n + mftRecordSize n - 1) div mftRecordSize n)"

text \<open>The inner loop of \<open>readMFTLogical\<close>: the first run that maps a logical position.\<close>

definition mapsPos :: "u64 \<Rightarrow> u64 \<Rightarrow> NTFSRun \<Rightarrow> bool" where
  "mapsPos cs pos run \<longleftrightarrow>
     \<not> (nSparse run \<or> sint (nLCN run) < 0) \<and>
     \<not> (pos < nStartVCN run * cs \<or> pos \<ge> nStartVCN run * cs + nLength run * cs)"

lemma find_Some_P: "find P xs = Some x \<Longrightarrow> P x \<and> x \<in> set xs"
  by (auto simp: find_Some_iff)

text \<open>A run that maps a position has at least one byte there.\<close>

lemma mapsPos_room:
  assumes "mapsPos cs pos run"
  shows "pos - nStartVCN run * cs < nLength run * cs"
proof -
  define a l where "a = nStartVCN run * cs" and "l = nLength run * cs"
  have p: "a \<le> pos" "pos < a + l"
    using assms by (auto simp: mapsPos_def a_def l_def not_le not_less)
  have "unat pos < (unat a + unat l) mod 2 ^ 64"
    using p(2) by (simp add: word_less_nat_alt unat_word_ariths)
  also have "\<dots> \<le> unat a + unat l"
    by (rule mod_less_eq_dividend)
  finally have "unat (pos - a) < unat l"
    using p(1) unat_minus_le [OF p(1)] by (simp add: word_le_nat_alt)
  then show ?thesis by (simp add: a_def l_def word_less_nat_alt)
qed

text \<open>So each iteration of the loop reads something and not more than what remains.\<close>

lemma chunk_size:
  assumes "mapsPos cs pos run" and "remaining \<noteq> 0"
    and "nb = nLength run * cs - (pos - nStartVCN run * cs)"
    and "nbytes = (if nb > remaining then remaining else nb)"
  shows "nbytes \<noteq> 0" and "nbytes \<le> remaining"
proof -
  have "nb \<noteq> 0"
    using mapsPos_room [OF assms(1)] assms(3) by auto
  then show "nbytes \<noteq> 0" "nbytes \<le> remaining"
    using assms(2,4) by (auto simp: not_less)
qed

function readMFTLoop :: "VolumeReader \<Rightarrow> NTFS \<Rightarrow> u64 \<Rightarrow> u64 \<Rightarrow> bytes \<Rightarrow> GoError + bytes" where
  "readMFTLoop rd n pos remaining acc =
     (if remaining = 0 then Inr acc
      else case find (mapsPos (clusterSize n) pos) (mftRuns n) of
        None \<Rightarrow> Inl (Errorf ''MFT logical offset is unmapped'')
      | Some run \<Rightarrow>
          let within = pos - nStartVCN run * clusterSize n;
              nb = nLength run * clusterSize n - within;
              nbytes = (if nb > remaining then remaining else nb);
              physical = ptOffset (ntPartition n) + nLCN run * clusterSize n + within
          in (case rd (unat nbytes) physical of
                Inl e \<Rightarrow> Inl e
              | Inr b \<Rightarrow> readMFTLoop rd n (pos + nbytes) (remaining - nbytes) (acc @ b)))"
  by pat_completeness auto

termination
proof (relation "measure (\<lambda>(rd, n, pos, remaining, acc). unat remaining)"; clarsimp)
  fix n :: NTFS and pos remaining :: u64 and run
  assume r: "remaining \<noteq> 0" and f: "find (mapsPos (clusterSize n) pos) (mftRuns n) = Some run"
  define nb where "nb = nLength run * clusterSize n - (pos - nStartVCN run * clusterSize n)"
  define nbytes where "nbytes = (if nb > remaining then remaining else nb)"
  have "nbytes \<noteq> 0" "nbytes \<le> remaining"
    using chunk_size [OF _ r nb_def nbytes_def] find_Some_P [OF f] by blast+
  then have "unat (remaining - nbytes) < unat remaining"
    using unat_minus_le [of nbytes remaining] r by (simp add: unat_gt_0 word_le_nat_alt)
  then show "(remaining < nb \<longrightarrow> 0 < unat remaining) \<and> (\<not> remaining < nb \<longrightarrow> unat (remaining - nb) < unat remaining)"
    using r by (auto simp: nbytes_def unat_gt_0 split: if_splits)
qed

declare readMFTLoop.simps [simp del]

definition readMFTLogical :: "VolumeReader \<Rightarrow> NTFS \<Rightarrow> u64 \<Rightarrow> nat \<Rightarrow> GoError + bytes" where
  "readMFTLogical rd n logical len =
     (if logical > mftSize n \<or> word_of_nat len > mftSize n - logical
      then Inl (Errorf ''MFT logical read outside volume'')
      else readMFTLoop rd n logical (word_of_nat len) [])"

definition readRecord :: "VolumeReader \<Rightarrow> NTFS \<Rightarrow> u64 \<Rightarrow> GoError + NTFSRecord \<times> NTFSAttribute list" where
  "readRecord rd n i =
     (if i \<ge> mftRecordCount n then Inl (Errorf ''MFT record outside MFT'')
      else
        case readMFTLogical rd n (i * mftRecordSize n) (unat (mftRecordSize n)) of
          Inl e \<Rightarrow> Inl e
        | Inr buf \<Rightarrow>
            (case applyNTFSFixup buf (bytesPerSector n) of
               (_, Some e) \<Rightarrow> Inl e
             | (buf', None) \<Rightarrow> parseNTFSRecord buf' i))"

section \<open>From physical writes to records\<close>

text \<open>The ids one run contributes: the loop \<open>for id := first; id <= last; id++\<close>.\<close>

definition runRecordIDs :: "NTFS \<Rightarrow> u64 \<Rightarrow> u64 \<Rightarrow> NTFSRun \<Rightarrow> u64 list" where
  "runRecordIDs n start en run =
     (if nSparse run \<or> sint (nLCN run) < 0 then []
      else
        let physStart = ptOffset (ntPartition n) + nLCN run * clusterSize n;
            physEnd = physStart + nLength run * clusterSize n
        in if start \<ge> physEnd \<or> en \<le> physStart then []
           else
             let a = maxU64 start physStart;
                 b = minU64 en physEnd;
                 logicalA = nStartVCN run * clusterSize n + (a - physStart);
                 logicalB = nStartVCN run * clusterSize n + (b - physStart);
                 first = logicalA div mftRecordSize n;
                 last = (logicalB - 1) div mftRecordSize n
             in map word_of_nat [unat first..<Suc (unat last)])"

definition mftRecordIDsForPhysicalRange :: "NTFS \<Rightarrow> u64 \<Rightarrow> u64 \<Rightarrow> u64 list \<times> bool" where
  "mftRecordIDsForPhysicalRange n start en =
     (let ids = remdups (concat (map (runRecordIDs n start en) (mftRuns n)))
      in (ids, 0 \<in> set ids))"

section \<open>Data ranges\<close>

definition runRange :: "NTFS \<Rightarrow> NTFSAttribute \<Rightarrow> NTFSRun \<Rightarrow> ByteRange list" where
  "runRange n a run =
     (let partStart = ptOffset (ntPartition n);
          partEnd = partStart + ptSize (ntPartition n)
      in if nSparse run \<or> sint (nLCN run) < 0 \<or> nLCN run \<ge> totalClusters n then []
         else
           let logicalStart = nStartVCN run * clusterSize n;
               lengthBytes0 = nLength run * clusterSize n
           in if logicalStart \<ge> aRealSize a then []
              else
                let remaining = aRealSize a - logicalStart;
                    lengthBytes = (if lengthBytes0 > remaining then remaining else lengthBytes0);
                    physicalStart = partStart + nLCN run * clusterSize n
                in if physicalStart \<ge> partEnd \<or> lengthBytes > partEnd - physicalStart then []
                   else [\<lparr>brStart = physicalStart, brEnd = physicalStart + lengthBytes\<rparr>])"

definition buildDataRanges :: "NTFS \<Rightarrow> NTFSRecord \<Rightarrow> NTFSAttribute list \<Rightarrow> NTFSRecord" where
  "buildDataRanges n info attrs =
     (if nrBaseID info < ntfsFirstUserRecord \<or> nrIsDir info then info\<lparr>nrDataRanges := []\<rparr>
      else info\<lparr>nrDataRanges :=
        concat (map (\<lambda>a. concat (map (runRange n a) (aRuns a))) (filter plainData attrs))\<rparr>)"

text \<open>\<open>sort.Slice\<close> before coalescing is \<open>sort\<close>; the coalescing sorts again.\<close>

definition activeFiles :: "NTFS \<Rightarrow> u64 list" where
  "activeFiles n =
     map fst (filter (\<lambda>(i, info). \<not> (i \<noteq> nrBaseID info \<or> i < ntfsFirstUserRecord \<or>
                                     \<not> nrInUse info \<or> nrIsDir info)) (records n))"

fun mftRangeLoop :: "NTFS \<Rightarrow> u64 \<Rightarrow> NTFSRun list \<Rightarrow> ByteRange list" where
  "mftRangeLoop n remaining [] = []"
| "mftRangeLoop n remaining (run # runs) =
     (if remaining = 0 then []
      else
        let runBytes = nLength run * clusterSize n
        in if runBytes = 0 then mftRangeLoop n remaining runs
           else
             let nbytes = (if runBytes > remaining then remaining else runBytes);
                 start = ptOffset (ntPartition n) + nLCN run * clusterSize n
             in (if \<not> nSparse run \<and> sint (nLCN run) \<ge> 0
                 then [\<lparr>brStart = start, brEnd = start + nbytes\<rparr>] else []) @
                mftRangeLoop n (remaining - nbytes) runs)"

definition buildMFTRanges :: "NTFS \<Rightarrow> ByteRange list" where
  "buildMFTRanges n =
     (if mftSize n = 0 then [] else coalesceByteRanges (mftRangeLoop n (mftSize n) (mftRuns n)))"

definition rebuildRanges :: "NTFS \<Rightarrow> NTFS" where
  "rebuildRanges n =
     (let data = concat (map (\<lambda>(_, info). nrDataRanges info)
                   (filter (\<lambda>(_, info). nrBaseID info \<in> set (activeFiles n)) (records n)))
      in n\<lparr>dataRanges := coalesceByteRanges (sort data), mftRanges := buildMFTRanges n\<rparr>)"

definition publishSnapshots :: "NTFS \<Rightarrow> NTFS" where
  "publishSnapshots n =
     n\<lparr>dataSnapshot := Some (dataRanges n), mftSnapshot := Some (mftRanges n)\<rparr>"

section \<open>Refreshing and scanning\<close>

text \<open>What \<open>refreshRecord\<close> and the scan do with a parsed record.\<close>

definition storeRecord :: "u64 \<Rightarrow> NTFSRecord \<Rightarrow> NTFSAttribute list \<Rightarrow> NTFS \<Rightarrow> NTFS" where
  "storeRecord i info attrs n =
     (if \<not> nrInUse info then n\<lparr>records := AList.delete i (records n)\<rparr>
      else n\<lparr>records := AList.update i (buildDataRanges n info attrs) (records n)\<rparr>)"

definition refreshRecord :: "VolumeReader \<Rightarrow> u64 \<Rightarrow> NTFS \<Rightarrow> GoError option \<times> NTFS" where
  "refreshRecord rd i n =
     (case readRecord rd n i of
        Inl e \<Rightarrow> (Some e, n)
      | Inr (info, attrs) \<Rightarrow>
          let n1 = (if i = 0
                    then (case find plainData attrs of
                            None \<Rightarrow> n
                          | Some a \<Rightarrow> n\<lparr>mftRuns := aRuns a, mftSize := attrSize a\<rparr>)
                    else n)
          in (None, storeRecord i info attrs n1))"

text \<open>One record of a scanned chunk; every failure is a \<open>continue\<close>.\<close>

definition scanRecord :: "u64 \<Rightarrow> bytes \<Rightarrow> NTFS \<Rightarrow> NTFS" where
  "scanRecord i rec n =
     (case applyNTFSFixup rec (bytesPerSector n) of
        (_, Some _) \<Rightarrow> n
      | (rec', None) \<Rightarrow>
          if take 4 rec' \<noteq> ntfsFileMagic then n
          else
            (case parseNTFSRecord rec' i of
               Inl _ \<Rightarrow> n
             | Inr (info, attrs) \<Rightarrow> storeRecord i info attrs n))"

fun scanChunk :: "u64 \<Rightarrow> bytes \<Rightarrow> nat list \<Rightarrow> NTFS \<Rightarrow> NTFS" where
  "scanChunk logical buf [] n = n"
| "scanChunk logical buf (k # ks) n =
     (let rs = unat (mftRecordSize n);
          i = (logical + word_of_nat (k * rs)) div mftRecordSize n
      in scanChunk logical buf ks (scanRecord i (sub (k * rs) rs buf) n))"

lemma round_down:
  fixes x m :: u64
  shows "x - x mod m \<le> x"
proof -
  have "x mod m \<le> x"
    by (simp add: word_le_nat_alt unat_mod_distrib)
  then show ?thesis by (simp add: word_sub_le)
qed

function scanLoop :: "VolumeReader \<Rightarrow> u64 \<Rightarrow> u64 \<Rightarrow> NTFS \<Rightarrow> GoError option \<times> NTFS" where
  "scanLoop rd logical en n =
     (if logical < en then
        let chunk0 = minU64 ntfsScanChunkSize (en - logical);
            chunk = chunk0 - chunk0 mod mftRecordSize n
        in if chunk = 0 then (None, n)
           else
             (case readMFTLogical rd n logical (unat chunk) of
                Inl e \<Rightarrow> (Some e, n)
              | Inr buf \<Rightarrow>
                  scanLoop rd (logical + chunk) en
                    (scanChunk logical buf [0..<unat chunk div unat (mftRecordSize n)] n))
      else (None, n))"
  by pat_completeness auto

termination
proof (relation "measure (\<lambda>(rd, logical, en, n). unat (en - logical))"; clarsimp)
  fix en logical :: u64 and n :: NTFS
  define chunk0 where "chunk0 = min ntfsScanChunkSize (en - logical)"
  define chunk where "chunk = chunk0 - chunk0 mod mftRecordSize n"
  assume lt: "logical < en" and c: "chunk0 \<noteq> chunk0 mod mftRecordSize n"
  have le: "chunk \<le> en - logical"
    using round_down [of chunk0 "mftRecordSize n"] by (simp add: chunk_def chunk0_def)
  have "0 < unat chunk" using c by (simp add: chunk_def unat_gt_0)
  then have "unat (en - logical - chunk) < unat (en - logical)"
    using le unat_minus_le [OF le] by (simp only: word_le_nat_alt)
  then show "unat (en - (logical + (chunk0 - chunk0 mod mftRecordSize n))) < unat (en - logical)"
    unfolding chunk_def [symmetric] by (simp only: diff_diff_eq)
qed

declare scanLoop.simps [simp del]

definition scanMFTLogicalRange :: "VolumeReader \<Rightarrow> u64 \<Rightarrow> u64 \<Rightarrow> NTFS \<Rightarrow> GoError option \<times> NTFS" where
  "scanMFTLogicalRange rd start0 en0 n =
     (let start = start0 - start0 mod mftRecordSize n;
          en = en0 - en0 mod mftRecordSize n
      in if en \<le> start then (None, n)
         else
           (case scanLoop rd start en n of
              (Some e, n') \<Rightarrow> (Some e, n')
            | (None, n') \<Rightarrow> (None, rebuildRanges n')))"

definition scanMFT :: "VolumeReader \<Rightarrow> NTFS \<Rightarrow> GoError option \<times> NTFS" where
  "scanMFT rd n =
     (if mftRecordCount n = 0 then (Some (Errorf ''empty MFT''), n)
      else scanMFTLogicalRange rd 0 (mftSize n) n)"

definition NewNTFS :: "Partition \<Rightarrow> VolumeReader \<Rightarrow> GoError + NTFS" where
  "NewNTFS part rd =
     (if sint (ptOffset part) < 0 then Inl (Errorf ''invalid NTFS partition offset'')
      else if sint (ptSize part) \<le> 0 then Inl (Errorf ''invalid NTFS partition size'')
      else
        case readBootSector rd (emptyNTFS part) of
          Inl e \<Rightarrow> Inl e
        | Inr n1 \<Rightarrow>
            (case loadMFTLayout rd n1 of
               Inl e \<Rightarrow> Inl e
             | Inr n2 \<Rightarrow>
                 (case scanMFT rd n2 of
                    (Some e, _) \<Rightarrow> Inl e
                  | (None, n3) \<Rightarrow> Inr (publishSnapshots n3))))"

section \<open>Observing a write to the MFT\<close>

text \<open>The keys of a set of ids as a slice; the order Go gives them does not matter to the caller.\<close>

definition rangeKey :: "u64 list \<Rightarrow> u64 list" where
  "rangeKey m = (if length m = 0 then [] else m)"

lemma rangeKey_simp [simp]: "rangeKey m = m"
  by (simp add: rangeKey_def)

text \<open>
  The first part: refresh record 0 when touched and map the write again.  The loop
  \<open>for id := range rangeKey(newIDs)\<close> ranges over the indices of the slice, so it adds
  \<open>0, ..., len(newIDs) - 1\<close>.
\<close>

definition refreshZero :: "VolumeReader \<Rightarrow> u64 \<Rightarrow> u64 \<Rightarrow> NTFS \<Rightarrow> u64 list \<times> NTFS" where
  "refreshZero rd start en n =
     (let (ids, touchesZero) = mftRecordIDsForPhysicalRange n start en
      in if touchesZero then
           (case refreshRecord rd 0 n of
              (Some _, n') \<Rightarrow> (ids, n')
            | (None, n') \<Rightarrow>
                let newIDs = fst (mftRecordIDsForPhysicalRange n' start en)
                in (remdups (ids @ map word_of_nat [0..<length (rangeKey newIDs)]), n'))
         else (ids, n))"

definition growScan :: "VolumeReader \<Rightarrow> u64 \<Rightarrow> NTFS \<Rightarrow> NTFS" where
  "growScan rd oldMFTSize n =
     (if mftSize n > oldMFTSize
      then snd (scanMFTLogicalRange rd (oldMFTSize - oldMFTSize mod mftRecordSize n) (mftSize n) n)
      else n)"

definition refreshOne :: "VolumeReader \<Rightarrow> u64 \<Rightarrow> NTFS \<Rightarrow> NTFS" where
  "refreshOne rd i n =
     (if i = 0 then n
      else if i \<ge> mftRecordCount n then n\<lparr>records := AList.delete i (records n)\<rparr>
      else snd (refreshRecord rd i n))"

definition ObserveMFTWrite ::
  "(u64 list \<Rightarrow> u64 list) \<Rightarrow> VolumeReader \<Rightarrow> u64 \<Rightarrow> u64 \<Rightarrow> NTFS \<Rightarrow> ByteRange list \<times> NTFS" where
  "ObserveMFTWrite ord rd start en n =
     (if en \<le> start then ([], n)
      else
        let oldData = dataRanges n;
            (ids, n1) = refreshZero rd start en n;
            n2 = growScan rd (mftSize n) n1;
            n3 = fold (refreshOne rd) (ord ids) n2;
            n4 = publishSnapshots (rebuildRanges n3)
        in (subtractRanges (dataRanges n4) oldData, n4))"

end
