(* ===== verification/NtfsSpec.thy ===== *)
theory NtfsSpec
  imports Ntfs NtfsParseSpec ShmSpec
begin

text \<open>
  What the NTFS tracker promises: its reads of the MFT return the bytes of the volume, the data
  ranges are exactly those of the active files and lie inside the partition, and what
  \<open>ObserveMFTWrite\<close> reports does not depend on the order of Go's map iteration.
\<close>

section \<open>Reading the MFT through a volume\<close>

text \<open>\<open>mftMaps n pos q\<close>: some run of the MFT puts its logical byte \<open>pos\<close> at physical byte \<open>q\<close>.\<close>

definition mftMaps :: "NTFS \<Rightarrow> u64 \<Rightarrow> u64 \<Rightarrow> bool" where
  "mftMaps n pos q \<longleftrightarrow>
     (\<exists>run \<in> set (mftRuns n). mapsPos (clusterSize n) pos run \<and>
        q = ptOffset (ntPartition n) + nLCN run * clusterSize n + (pos - nStartVCN run * clusterSize n))"

lemma mapsPos_within:
  assumes "mapsPos cs pos run" and "unat (word_of_nat i :: u64) = i"
    and "i < unat (nLength run * cs - (pos - nStartVCN run * cs))"
  shows "mapsPos cs (pos + word_of_nat i) run"
proof -
  define a l where "a = nStartVCN run * cs" and "l = nLength run * cs"
  have p: "a \<le> pos" "pos < a + l" "pos - a < l"
    using assms(1) mapsPos_room [OF assms(1)] by (auto simp: mapsPos_def a_def l_def not_le not_less)
  have al: "unat (a + l) = unat a + unat l"
  proof (rule unat_add_no_wrap, rule ccontr)
    assume "\<not> unat a + unat l < 2 ^ LENGTH(64)"
    then have "(unat a + unat l) mod 2 ^ 64 = unat a + unat l - 2 ^ 64"
      using unat_u64_less [of a] unat_u64_less [of l] by (simp add: mod_if)
    then have "unat (a + l) < unat a"
      using unat_u64_less [of l] \<open>\<not> unat a + unat l < 2 ^ LENGTH(64)\<close>
      by (simp add: unat_word_ariths)
    then show False using p(1,2) by (simp add: word_le_nat_alt word_less_nat_alt)
  qed
  have "i < unat l - (unat pos - unat a)"
    using assms(3) p unat_minus_le [OF p(1)] unat_minus_le [of "pos - a" l]
    by (simp add: a_def [symmetric] l_def [symmetric] order.strict_implies_order)
  then have i: "unat pos + i < unat a + unat l"
    using p(1) by (simp add: word_le_nat_alt)
  moreover have "unat a + unat l < 2 ^ 64"
    using al unat_u64_less [of "a + l"] by simp
  ultimately have "unat (pos + word_of_nat i) = unat pos + i"
    by (intro unat_add_of_nat) linarith
  then have "a \<le> pos + word_of_nat i" "pos + word_of_nat i < a + l"
    using i al p(1) by (simp_all add: word_le_nat_alt word_less_nat_alt)
  then show ?thesis
    using assms(1) by (auto simp: mapsPos_def a_def l_def not_le not_less)
qed

lemma readMFTLoop_step:
  assumes "remaining \<noteq> 0" and "find (mapsPos (clusterSize n) pos) (mftRuns n) = Some run"
    and "within = pos - nStartVCN run * clusterSize n"
    and "nb = nLength run * clusterSize n - within"
    and "nbytes = (if nb > remaining then remaining else nb)"
    and "ph = ptOffset (ntPartition n) + nLCN run * clusterSize n + within"
  shows "readMFTLoop rd n pos remaining acc =
     (case rd (unat nbytes) ph of
        Inl e \<Rightarrow> Inl e
      | Inr d \<Rightarrow> readMFTLoop rd n (pos + nbytes) (remaining - nbytes) (acc @ d))"
  using assms(1,2) unfolding assms(3-6) by (subst readMFTLoop.simps) (simp add: Let_def)

context volume
begin

lemma readMFTLoop_view:
  assumes "good \<sigma>" and "unat remaining < 2 ^ 63"
    and "readMFTLoop (readAt \<sigma>) n pos remaining acc = Inr b"
  shows "\<exists>b'. b = acc @ b' \<and> length b' = unat remaining \<and>
    (\<forall>i < unat remaining. \<exists>q. mftMaps n (pos + word_of_nat i) q \<and> b' ! i = view \<sigma> q)"
  using assms(2,3)
proof (induction "unat remaining" arbitrary: pos remaining acc rule: less_induct)
  case less
  show ?case
  proof (cases "remaining = 0")
    case True
    then show ?thesis using less.prems by (subst (asm) readMFTLoop.simps) simp
  next
    case False
    then obtain run where f: "find (mapsPos (clusterSize n) pos) (mftRuns n) = Some run"
      using less.prems(2) by (subst (asm) readMFTLoop.simps) (auto split: option.splits)
    note run = find_Some_P [OF f]
    define within where "within = pos - nStartVCN run * clusterSize n"
    define nb where "nb = nLength run * clusterSize n - within"
    define nbytes where "nbytes = (if nb > remaining then remaining else nb)"
    define ph where "ph = ptOffset (ntPartition n) + nLCN run * clusterSize n + within"
    have c: "nbytes \<noteq> 0" "nbytes \<le> remaining"
      using chunk_size [OF _ False, of "clusterSize n" pos run nb nbytes] run
      by (simp_all add: nb_def within_def nbytes_def)
    obtain d where d: "readAt \<sigma> (unat nbytes) ph = Inr d"
      and rest: "readMFTLoop (readAt \<sigma>) n (pos + nbytes) (remaining - nbytes) (acc @ d) = Inr b"
      using less.prems(2) readMFTLoop_step [OF False f within_def nb_def nbytes_def ph_def, of "readAt \<sigma>" acc]
      by (auto split: sum.splits)
    have len: "unat (remaining - nbytes) = unat remaining - unat nbytes" "0 < unat nbytes"
        "unat nbytes \<le> unat remaining"
      using c unat_minus_le [OF c(2)] by (simp_all add: unat_gt_0 word_le_nat_alt)
    have dv: "d = map (\<lambda>i. view \<sigma> (ph + word_of_nat i)) [0..<unat nbytes]"
      using read_Inr(1) [OF assms(1) len(2) _ d] len less.prems(1) by simp
    have small: "unat (remaining - nbytes) < unat remaining" "unat (remaining - nbytes) < 2 ^ 63"
      using len less.prems(1) by linarith+
    obtain b' where b': "b = (acc @ d) @ b'" "length b' = unat (remaining - nbytes)"
        "\<forall>i < unat (remaining - nbytes). \<exists>q. mftMaps n (pos + nbytes + word_of_nat i) q \<and> b' ! i = view \<sigma> q"
      using less.hyps [OF small rest] by blast
    have "\<exists>q. mftMaps n (pos + word_of_nat i) q \<and> (d @ b') ! i = view \<sigma> q" if i: "i < unat remaining" for i
    proof (cases "i < unat nbytes")
      case True
      have "unat (word_of_nat i :: u64) = i"
        using i less.prems(1) by (intro u64_of_len) simp
      moreover have "i < unat nb"
        using True by (auto simp: nbytes_def word_less_nat_alt split: if_splits)
      ultimately have "mapsPos (clusterSize n) (pos + word_of_nat i) run"
        using run by (intro mapsPos_within) (auto simp: nb_def within_def)
      then have "mftMaps n (pos + word_of_nat i) (ph + word_of_nat i)"
        using run by (auto simp: mftMaps_def ph_def within_def algebra_simps intro!: bexI [of _ run])
      then show ?thesis
        using True by (auto simp: nth_append dv)
    next
      case False
      define k where "k = i - unat nbytes"
      have k: "k < unat (remaining - nbytes)" "i = unat nbytes + k"
        using False i len by (auto simp: k_def)
      have e: "pos + nbytes + word_of_nat k = pos + word_of_nat i"
        by (simp add: k(2))
      have "(d @ b') ! i = b' ! k"
        using k dv by (simp add: nth_append)
      then show ?thesis
        using b'(3) [rule_format, OF k(1)] unfolding e by simp
    qed
    then show ?thesis
      using b'(1,2) len dv by (intro exI [of _ "d @ b'"]) simp
  qed
qed

end

text \<open>The length of a read that succeeds, whatever the reader returns.\<close>

lemma readMFTLogical_outside:
  "readMFTLogical rd n logical len = Inr b \<Longrightarrow> logical \<le> mftSize n \<and> word_of_nat len \<le> mftSize n - logical"
  by (simp add: readMFTLogical_def not_less split: if_splits)

section \<open>Well-formed states\<close>

text \<open>The bytes of the partition, and the ranges that lie in it.\<close>

definition inPartition :: "Partition \<Rightarrow> ByteRange \<Rightarrow> bool" where
  "inPartition part r \<longleftrightarrow>
     unat (ptOffset part) \<le> unat (brStart r) \<and> brStart r \<le> brEnd r \<and>
     unat (brEnd r) \<le> unat (ptOffset part) + unat (ptSize part)"

definition geometryOk :: "NTFS \<Rightarrow> bool" where
  "geometryOk n \<longleftrightarrow>
     0 \<le> sint (ptOffset (ntPartition n)) \<and> 0 < sint (ptSize (ntPartition n)) \<and>
     totalClusters n \<le> ptSize (ntPartition n) div clusterSize n \<and> mftRecordSize n \<noteq> 0"

definition recordsOk :: "NTFS \<Rightarrow> bool" where
  "recordsOk n \<longleftrightarrow>
     distinct (map fst (records n)) \<and>
     (\<forall>i info r. map_of (records n) i = Some info \<longrightarrow> r \<in> set (nrDataRanges info) \<longrightarrow>
        inPartition (ntPartition n) r)"

definition rangesOk :: "NTFS \<Rightarrow> bool" where
  "rangesOk n \<longleftrightarrow>
     canonical (dataRanges n) \<and> canonical (mftRanges n) \<and>
     (\<forall>p \<in> bytesOf (dataRanges n). ptOffset (ntPartition n) \<le> p \<and>
        p < ptOffset (ntPartition n) + ptSize (ntPartition n))"

definition ntInv :: "NTFS \<Rightarrow> bool" where
  "ntInv n \<longleftrightarrow> geometryOk n \<and> recordsOk n \<and> rangesOk n \<and>
     dataSnapshot n = Some (dataRanges n) \<and> mftSnapshot n = Some (mftRanges n)"

lemma partition_no_wrap:
  assumes "geometryOk n"
  shows "unat (ptOffset (ntPartition n) + ptSize (ntPartition n))
       = unat (ptOffset (ntPartition n)) + unat (ptSize (ntPartition n))"
proof -
  have "unat (ptOffset (ntPartition n)) < 2 ^ 63" "unat (ptSize (ntPartition n)) < 2 ^ 63"
    using assms sint_u64_neg [of "ptOffset (ntPartition n)"]
    by (auto simp: geometryOk_def sint_u64_pos not_less)
  then show ?thesis by (intro unat_add_no_wrap) simp
qed

lemma cluster_no_wrap:
  fixes lcn cs tc ps :: u64
  assumes "lcn < tc" and "tc \<le> ps div cs"
  shows "unat (lcn * cs) = unat lcn * unat cs" and "unat lcn * unat cs \<le> unat ps"
proof -
  have "unat lcn * unat cs \<le> (unat ps div unat cs) * unat cs"
    using assms by (intro mult_le_mono1) (simp add: word_less_nat_alt word_le_nat_alt unat_div_distrib)
  also have "\<dots> \<le> unat ps" by simp
  finally show le: "unat lcn * unat cs \<le> unat ps" .
  then have "unat lcn * unat cs < 2 ^ 64"
    using unat_u64_less [of ps] by linarith
  then show "unat (lcn * cs) = unat lcn * unat cs"
    by (simp add: unat_word_ariths)
qed

lemma runRange_inside:
  assumes "geometryOk n" and "r \<in> set (runRange n a run)"
  shows "inPartition (ntPartition n) r"
proof -
  define off size lc where "off = ptOffset (ntPartition n)" and "size = ptSize (ntPartition n)"
    and "lc = nLCN run * clusterSize n"
  have lcn: "nLCN run < totalClusters n"
    using assms(2) by (auto simp: runRange_def Let_def not_le split: if_splits)
  have lc: "unat lc = unat (nLCN run) * unat (clusterSize n)" "unat lc \<le> unat size"
    using cluster_no_wrap [OF lcn] assms(1) by (auto simp: geometryOk_def lc_def size_def)
  have pe: "unat (off + size) = unat off + unat size"
    using partition_no_wrap [OF assms(1)] by (simp add: off_def size_def)
  then have ps: "unat (off + lc) = unat off + unat lc"
    using lc unat_u64_less [of "off + size"] by (intro unat_add_no_wrap) simp
  obtain len where r: "r = \<lparr>brStart = off + lc, brEnd = off + lc + len\<rparr>"
      and g: "off + lc < off + size" "len \<le> off + size - (off + lc)"
    using assms(2) by (auto simp: runRange_def Let_def not_le not_less off_def size_def lc_def split: if_splits)
  have "unat (off + size - (off + lc)) = unat (off + size) - unat (off + lc)"
    using g(1) by (intro unat_minus_le) simp
  then have len: "unat (off + lc) + unat len \<le> unat (off + size)"
    using g by (simp add: word_le_nat_alt word_less_nat_alt)
  then have "unat (off + lc + len) = unat (off + lc) + unat len"
    using unat_u64_less [of "off + size"] by (intro unat_add_no_wrap) simp
  then show ?thesis
    using len ps pe by (simp add: inPartition_def r word_le_nat_alt off_def [symmetric] size_def [symmetric])
qed

lemma buildDataRanges_inside:
  assumes "geometryOk n" and "r \<in> set (nrDataRanges (buildDataRanges n info attrs))"
  shows "inPartition (ntPartition n) r"
  using assms(2) runRange_inside [OF assms(1)] by (auto simp: buildDataRanges_def split: if_splits)

lemma storeRecord_frame [simp]:
  "ntPartition (storeRecord i info attrs n) = ntPartition n"
  "clusterSize (storeRecord i info attrs n) = clusterSize n"
  "totalClusters (storeRecord i info attrs n) = totalClusters n"
  "mftRecordSize (storeRecord i info attrs n) = mftRecordSize n"
  "bytesPerSector (storeRecord i info attrs n) = bytesPerSector n"
  "mftRuns (storeRecord i info attrs n) = mftRuns n"
  "mftSize (storeRecord i info attrs n) = mftSize n"
  "dataRanges (storeRecord i info attrs n) = dataRanges n"
  by (simp_all add: storeRecord_def)

lemma storeRecord_map:
  "map_of (records (storeRecord i info attrs n)) =
     (map_of (records n))(i := if nrInUse info then Some (buildDataRanges n info attrs) else None)"
  by (simp add: storeRecord_def update_conv' delete_conv')

definition stateOk :: "NTFS \<Rightarrow> bool" where
  "stateOk n \<longleftrightarrow> geometryOk n \<and> recordsOk n"

lemma storeRecord_ok:
  assumes "stateOk n"
  shows "stateOk (storeRecord i info attrs n)"
proof -
  have "distinct (map fst (records (storeRecord i info attrs n)))"
    using assms by (simp add: stateOk_def recordsOk_def storeRecord_def distinct_update distinct_delete)
  moreover have "inPartition (ntPartition n) r"
    if "map_of (records (storeRecord i info attrs n)) j = Some inf" and "r \<in> set (nrDataRanges inf)" for j inf r
    using that assms buildDataRanges_inside [of n r info attrs]
    by (auto simp: storeRecord_map stateOk_def recordsOk_def split: if_splits)
  ultimately show ?thesis
    using assms by (auto simp: stateOk_def geometryOk_def recordsOk_def)
qed

lemma layout_ok: "stateOk n \<Longrightarrow> stateOk (n\<lparr>mftRuns := rs, mftSize := sz\<rparr>)"
  by (simp add: stateOk_def geometryOk_def recordsOk_def)

lemma delete_ok: "stateOk n \<Longrightarrow> stateOk (n\<lparr>records := AList.delete i (records n)\<rparr>)"
  by (auto simp: stateOk_def geometryOk_def recordsOk_def distinct_delete delete_conv' split: if_splits)

lemma refreshRecord_ok: "stateOk n \<Longrightarrow> stateOk (snd (refreshRecord rd i n))"
  by (auto simp: refreshRecord_def Let_def split: sum.split option.split intro!: storeRecord_ok layout_ok)

lemma refreshOne_ok: "stateOk n \<Longrightarrow> stateOk (refreshOne rd i n)"
  by (auto simp: refreshOne_def intro: delete_ok refreshRecord_ok)

lemma scanRecord_ok: "stateOk n \<Longrightarrow> stateOk (scanRecord i rec n)"
  by (auto simp: scanRecord_def split: prod.split option.split sum.split intro: storeRecord_ok)

lemma scanChunk_ok: "stateOk n \<Longrightarrow> stateOk (scanChunk logical buf ks n)"
  by (induction ks arbitrary: n) (auto simp: Let_def intro: scanRecord_ok)

lemma scanLoop_ok: "stateOk n \<Longrightarrow> stateOk (snd (scanLoop rd logical en n))"
proof (induction rd logical en n rule: scanLoop.induct)
  case (1 rd logical en n)
  show ?case
    using 1 scanChunk_ok by (subst scanLoop.simps) (auto simp: Let_def split: sum.split)
qed

lemma rebuild_ok: "stateOk n \<Longrightarrow> stateOk (rebuildRanges n)"
  by (simp add: stateOk_def geometryOk_def recordsOk_def rebuildRanges_def Let_def)

lemma scanMFTLogicalRange_ok: "stateOk n \<Longrightarrow> stateOk (snd (scanMFTLogicalRange rd a b n))"
  using scanLoop_ok [of n rd]
  by (auto simp: scanMFTLogicalRange_def Let_def split: prod.split option.split intro: rebuild_ok)
    (metis rebuild_ok snd_conv)+

section \<open>The published ranges\<close>

text \<open>A file is active when its base record is in use, is a user record and is no directory.\<close>

definition isActive :: "NTFS \<Rightarrow> u64 \<Rightarrow> bool" where
  "isActive n b \<longleftrightarrow>
     (\<exists>info. map_of (records n) b = Some info \<and> nrBaseID info = b \<and> 16 \<le> b \<and> nrInUse info \<and>
             \<not> nrIsDir info)"

definition fileBytes :: "NTFS \<Rightarrow> u64 set" where
  "fileBytes n =
     {p. \<exists>i info. map_of (records n) i = Some info \<and> isActive n (nrBaseID info) \<and>
                  p \<in> bytesOf (nrDataRanges info)}"

lemma activeFiles_iff:
  assumes "distinct (map fst (records n))"
  shows "b \<in> set (activeFiles n) \<longleftrightarrow> isActive n b"
  using assms by (force simp: activeFiles_def isActive_def ntfsFirstUserRecord_def)

lemma bytesOf_concat: "bytesOf (concat xss) = (\<Union>xs \<in> set xss. bytesOf xs)"
  by (induction xss) auto

lemma rebuild_bytes:
  assumes "distinct (map fst (records n))"
  shows "bytesOf (dataRanges (rebuildRanges n)) = fileBytes n"
proof -
  have "bytesOf (dataRanges (rebuildRanges n)) =
      (\<Union>(i, info) \<in> {x \<in> set (records n). nrBaseID (snd x) \<in> set (activeFiles n)}. bytesOf (nrDataRanges info))"
    by (auto simp: rebuildRanges_def Let_def coalesce_bytes bytesOf_cong [OF set_sort] bytesOf_concat)
  also have "\<dots> = fileBytes n"
    using assms activeFiles_iff [OF assms] by (force simp: fileBytes_def)
  finally show ?thesis .
qed

lemma inPartition_bytes:
  assumes "geometryOk n" and "inPartition (ntPartition n) r" and "brStart r \<le> p" and "p < brEnd r"
  shows "ptOffset (ntPartition n) \<le> p \<and> p < ptOffset (ntPartition n) + ptSize (ntPartition n)"
  using assms(2-4) partition_no_wrap [OF assms(1)]
  by (auto simp: inPartition_def word_le_nat_alt word_less_nat_alt)

lemma rebuild_ranges_ok:
  assumes "stateOk n"
  shows "rangesOk (rebuildRanges n)"
proof -
  have d: "distinct (map fst (records n))" and g: "geometryOk n"
    using assms by (auto simp: stateOk_def recordsOk_def)
  have c: "canonical (dataRanges (rebuildRanges n))" "canonical (mftRanges (rebuildRanges n))"
    by (simp_all add: rebuildRanges_def Let_def coalesce_canonical buildMFTRanges_def)
  have f: "ntPartition (rebuildRanges n) = ntPartition n"
    by (simp add: rebuildRanges_def Let_def)
  have "ptOffset (ntPartition n) \<le> p \<and> p < ptOffset (ntPartition n) + ptSize (ntPartition n)"
    if mem: "p \<in> fileBytes n" for p
  proof -
    obtain i info where i: "map_of (records n) i = Some info" and "p \<in> bytesOf (nrDataRanges info)"
      using mem unfolding fileBytes_def by blast
    then obtain r where r: "r \<in> set (nrDataRanges info)" "brStart r \<le> p" "p < brEnd r"
      unfolding bytesOf_def by auto
    have "inPartition (ntPartition n) r"
      using assms i r(1) unfolding stateOk_def recordsOk_def by blast
    then show ?thesis
      using inPartition_bytes [OF g] r(2,3) by blast
  qed
  then show ?thesis
    using c f by (simp add: rangesOk_def rebuild_bytes [OF d])
qed

lemma publish_inv: "stateOk n \<Longrightarrow> rangesOk n \<Longrightarrow> ntInv (publishSnapshots n)"
  by (simp add: ntInv_def stateOk_def geometryOk_def recordsOk_def rangesOk_def publishSnapshots_def)

lemma refreshZero_ok: "stateOk n \<Longrightarrow> stateOk (snd (refreshZero rd a b n))"
  using refreshRecord_ok [of n rd 0]
  by (auto simp: refreshZero_def Let_def split: prod.split option.split)

lemma growScan_ok: "stateOk n \<Longrightarrow> stateOk (growScan rd old n)"
  by (simp add: growScan_def scanMFTLogicalRange_ok)

lemma refresh_all_ok: "stateOk n \<Longrightarrow> stateOk (fold (refreshOne rd) ids n)"
  by (induction ids arbitrary: n) (auto intro: refreshOne_ok)

lemma ObserveMFTWrite_parts:
  assumes "start < en"
  obtains ids n1 n3 where "refreshZero rd start en n = (ids, n1)"
    and "n3 = fold (refreshOne rd) (ord ids) (growScan rd (mftSize n) n1)"
    and "ObserveMFTWrite ord rd start en n =
      (subtractRanges (dataRanges (rebuildRanges n3)) (dataRanges n), publishSnapshots (rebuildRanges n3))"
proof -
  obtain ids n1 where z: "refreshZero rd start en n = (ids, n1)" by fastforce
  show ?thesis
    by (rule that [OF z refl]) (use assms z in \<open>simp add: ObserveMFTWrite_def Let_def publishSnapshots_def flip: not_less\<close>)
qed

lemma ObserveMFTWrite_inv:
  assumes "ntInv n"
  shows "ntInv (snd (ObserveMFTWrite ord rd start en n)) \<and>
     bytesOf (fst (ObserveMFTWrite ord rd start en n)) =
       bytesOf (dataRanges (snd (ObserveMFTWrite ord rd start en n))) - bytesOf (dataRanges n)"
proof (cases "start < en")
  case False
  then have "en \<le> start" by simp
  then show ?thesis using assms by (simp add: ObserveMFTWrite_def)
next
  case True
  obtain ids n1 n3 where z: "refreshZero rd start en n = (ids, n1)"
    and n3: "n3 = fold (refreshOne rd) (ord ids) (growScan rd (mftSize n) n1)"
    and o: "ObserveMFTWrite ord rd start en n =
      (subtractRanges (dataRanges (rebuildRanges n3)) (dataRanges n), publishSnapshots (rebuildRanges n3))"
    using ObserveMFTWrite_parts [OF True] by metis
  have "stateOk n" using assms by (simp add: ntInv_def stateOk_def)
  then have "stateOk n1" using refreshZero_ok [of n rd start en] z by simp
  then have "stateOk n3" unfolding n3 by (intro refresh_all_ok growScan_ok)
  then have ok: "stateOk (rebuildRanges n3)" "rangesOk (rebuildRanges n3)"
    by (auto intro: rebuild_ok rebuild_ranges_ok)
  have "canonical (dataRanges n)" "canonical (dataRanges (rebuildRanges n3))"
    using assms ok(2) by (auto simp: ntInv_def rangesOk_def)
  then show ?thesis
    using publish_inv [OF ok] by (simp add: o subtract_bytes publishSnapshots_def)
qed

section \<open>Starting up\<close>

lemma readBootSector_geometry:
  assumes "readBootSector rd (emptyNTFS part) = Inr n" and "0 \<le> sint (ptOffset part)" and "0 < sint (ptSize part)"
  shows "stateOk n"
proof -
  obtain cs bps spc rs tc lcn where n: "n = (emptyNTFS part)\<lparr>bytesPerSector := bps, clusterSize := cs,
      bootMFTLCN := lcn, totalClusters := tc, mftRecordSize := rs\<rparr>"
    and t: "tc = ptSize part div cs \<or> tc < ptSize part div cs" and r: "\<not> rs < bps" "\<not> bps < 512"
    using assms(1)
    by (auto simp: readBootSector_def Let_def emptyNTFS_def split: sum.splits if_splits)
  have "rs \<noteq> 0"
    using r by (auto simp: not_less dest: order.trans)
  moreover have "tc \<le> ptSize part div cs"
    using t by (auto intro: less_imp_le)
  ultimately show ?thesis
    using assms(2,3) by (simp add: n stateOk_def geometryOk_def recordsOk_def emptyNTFS_def)
qed

lemma NewNTFS_inv:
  assumes "NewNTFS part rd = Inr n"
  shows "ntInv n"
proof -
  obtain n1 n2 n3 where b: "readBootSector rd (emptyNTFS part) = Inr n1"
      and l: "loadMFTLayout rd n1 = Inr n2" and s: "scanMFT rd n2 = (None, n3)"
      and n: "n = publishSnapshots n3" and p: "0 \<le> sint (ptOffset part)" "0 < sint (ptSize part)"
    using assms by (auto simp: NewNTFS_def split: if_splits sum.splits prod.splits option.splits)
  have ok1: "stateOk n1" by (rule readBootSector_geometry [OF b p])
  have e1: "dataRanges n1 = []" "mftRanges n1 = []"
    using b by (auto simp: readBootSector_def Let_def emptyNTFS_def split: sum.splits if_splits)
  have n2: "stateOk n2" "dataRanges n2 = []" "mftRanges n2 = []"
    using l ok1 e1 layout_ok by (auto simp: loadMFTLayout_def Let_def split: sum.splits option.splits if_splits)
  have "stateOk n3"
    using scanMFTLogicalRange_ok [OF n2(1), of rd 0 "mftSize n2"] s by (simp add: scanMFT_def split: if_splits)
  moreover have "rangesOk n3"
  proof (cases "mftSize n2 - mftSize n2 mod mftRecordSize n2 \<le> 0")
    case True
    then have "n3 = n2"
      using s by (simp add: scanMFT_def scanMFTLogicalRange_def Let_def split: if_splits)
    then show ?thesis using n2 by (simp add: rangesOk_def)
  next
    case False
    then obtain m where m: "scanLoop rd 0 (mftSize n2 - mftSize n2 mod mftRecordSize n2) n2 = (None, m)"
        and n3: "n3 = rebuildRanges m"
      using s by (auto simp: scanMFT_def scanMFTLogicalRange_def Let_def split: if_splits prod.splits option.splits)
    have "stateOk m"
      using scanLoop_ok [OF n2(1)] m by (metis snd_conv)
    then show ?thesis unfolding n3 by (rule rebuild_ranges_ok)
  qed
  ultimately show ?thesis unfolding n by (rule publish_inv)
qed

section \<open>Order of map iteration\<close>

text \<open>
  Two states that differ only in how the association list of records is ordered.
\<close>

definition sameNTFS :: "NTFS \<Rightarrow> NTFS \<Rightarrow> bool" where
  "sameNTFS n m \<longleftrightarrow>
     n\<lparr>records := []\<rparr> = m\<lparr>records := []\<rparr> \<and> map_of (records n) = map_of (records m) \<and>
     distinct (map fst (records n)) \<and> distinct (map fst (records m))"

definition recordResult :: "VolumeReader \<Rightarrow> NTFS \<Rightarrow> u64 \<Rightarrow> NTFSRecord option \<Rightarrow> NTFSRecord option" where
  "recordResult rd n i old =
     (if i = 0 then old
      else if i \<ge> mftRecordCount n then None
      else case readRecord rd n i of
        Inl e \<Rightarrow> old
      | Inr (info, attrs) \<Rightarrow> if nrInUse info then Some (buildDataRanges n info attrs) else None)"

lemma refreshOne_map:
  "map_of (records (refreshOne rd i n)) = (map_of (records n))(i := recordResult rd n i (map_of (records n) i))"
  by (auto simp: refreshOne_def recordResult_def refreshRecord_def storeRecord_map delete_conv' Let_def
      split: sum.split)

lemma refreshOne_rest: "(refreshOne rd i n)\<lparr>records := []\<rparr> = n\<lparr>records := []\<rparr>"
  by (auto simp: refreshOne_def refreshRecord_def storeRecord_def Let_def split: sum.split)

text \<open>Nothing that is read or built for one record looks at the other records.\<close>

lemma readMFTLoop_records [simp]:
  "readMFTLoop rd (n\<lparr>records := x\<rparr>) pos remaining acc = readMFTLoop rd n pos remaining acc"
proof (induction "unat remaining" arbitrary: pos remaining acc rule: less_induct)
  case less
  show ?case
  proof (cases "remaining = 0 \<or> find (mapsPos (clusterSize n) pos) (mftRuns n) = None")
    case True
    then show ?thesis by (subst (1 2) readMFTLoop.simps) auto
  next
    case False
    then obtain run where r: "remaining \<noteq> 0" and f: "find (mapsPos (clusterSize n) pos) (mftRuns n) = Some run"
      by auto
    define within where "within = pos - nStartVCN run * clusterSize n"
    define nb where "nb = nLength run * clusterSize n - within"
    define nbytes where "nbytes = (if nb > remaining then remaining else nb)"
    define ph where "ph = ptOffset (ntPartition n) + nLCN run * clusterSize n + within"
    have c: "nbytes \<noteq> 0" "nbytes \<le> remaining"
      using chunk_size [OF _ r, of "clusterSize n" pos run nb nbytes] find_Some_P [OF f]
      by (simp_all add: nb_def within_def nbytes_def)
    have "0 < unat nbytes" "unat nbytes \<le> unat remaining"
      using c by (simp_all add: unat_gt_0 word_le_nat_alt)
    then have "unat (remaining - nbytes) < unat remaining"
      using unat_minus_le [OF c(2)] by linarith
    note IH = less.hyps [OF this]
    have "readMFTLoop rd (n\<lparr>records := x\<rparr>) pos remaining acc =
       (case rd (unat nbytes) ph of
          Inl e \<Rightarrow> Inl e
        | Inr d \<Rightarrow> readMFTLoop rd (n\<lparr>records := x\<rparr>) (pos + nbytes) (remaining - nbytes) (acc @ d))"
      by (rule readMFTLoop_step [where run = run and within = within and nb = nb])
        (use r f in \<open>simp_all add: within_def nb_def nbytes_def ph_def\<close>)
    then show ?thesis
      unfolding readMFTLoop_step [OF r f within_def nb_def nbytes_def ph_def, of rd acc]
      by (simp add: IH split: sum.split)
  qed
qed

lemma runRange_records: "runRange (n\<lparr>records := x\<rparr>) = runRange n"
  by (intro ext) (simp add: runRange_def Let_def)

lemma recordResult_records [simp]: "recordResult rd (n\<lparr>records := x\<rparr>) i old = recordResult rd n i old"
  by (simp add: recordResult_def readRecord_def readMFTLogical_def mftRecordCount_def buildDataRanges_def
      runRange_records split: sum.split)

lemma recordResult_cong:
  "n\<lparr>records := []\<rparr> = m\<lparr>records := []\<rparr> \<Longrightarrow> recordResult rd n i old = recordResult rd m i old"
  by (metis recordResult_records)

lemma refresh_all_map:
  assumes "distinct ids"
  shows "map_of (records (fold (refreshOne rd) ids n)) =
     (\<lambda>i. if i \<in> set ids then recordResult rd n i (map_of (records n) i) else map_of (records n) i) \<and>
     (fold (refreshOne rd) ids n)\<lparr>records := []\<rparr> = n\<lparr>records := []\<rparr>"
  using assms
proof (induction ids arbitrary: n)
  case Nil
  then show ?case by simp
next
  case (Cons i ids)
  have r: "recordResult rd (refreshOne rd i n) j old = recordResult rd n j old" for j old
    by (rule recordResult_cong [OF refreshOne_rest])
  show ?case
    using Cons.IH [of "refreshOne rd i n"] Cons.prems
    by (auto simp: refreshOne_map refreshOne_rest r fun_eq_iff)
qed

lemma refresh_all_same:
  assumes "stateOk n" and "distinct ids" and "distinct ids'" and "set ids = set ids'"
  shows "sameNTFS (fold (refreshOne rd) ids n) (fold (refreshOne rd) ids' n)"
  using refresh_all_map [OF assms(2), of rd n] refresh_all_map [OF assms(3), of rd n] assms(4)
    refresh_all_ok [OF assms(1), of rd ids] refresh_all_ok [OF assms(1), of rd ids']
  by (simp add: sameNTFS_def stateOk_def recordsOk_def)

lemma mftRangeLoop_records: "mftRangeLoop (n\<lparr>records := x\<rparr>) remaining runs = mftRangeLoop n remaining runs"
  by (induction runs arbitrary: remaining) (simp_all add: Let_def)

lemma buildMFTRanges_records: "buildMFTRanges (n\<lparr>records := x\<rparr>) = buildMFTRanges n"
  by (simp add: buildMFTRanges_def mftRangeLoop_records)

lemma rebuild_same:
  assumes "sameNTFS n m"
  shows "dataRanges (rebuildRanges n) = dataRanges (rebuildRanges m)"
    and "mftRanges (rebuildRanges n) = mftRanges (rebuildRanges m)"
proof -
  have "isActive n b = isActive m b" for b
    using assms by (simp add: isActive_def sameNTFS_def)
  then have "fileBytes n = fileBytes m"
    using assms by (simp add: fileBytes_def sameNTFS_def)
  then have "bytesOf (dataRanges (rebuildRanges n)) = bytesOf (dataRanges (rebuildRanges m))"
    using rebuild_bytes assms by (simp add: sameNTFS_def)
  then show "dataRanges (rebuildRanges n) = dataRanges (rebuildRanges m)"
    by (intro canonical_unique) (simp_all add: rebuildRanges_def Let_def coalesce_canonical)
  have "buildMFTRanges n = buildMFTRanges m"
    using assms unfolding sameNTFS_def by (metis buildMFTRanges_records)
  then show "mftRanges (rebuildRanges n) = mftRanges (rebuildRanges m)"
    by (simp add: rebuildRanges_def Let_def)
qed

lemma refreshZero_distinct: "distinct (fst (refreshZero rd a b n))"
  by (auto simp: refreshZero_def mftRecordIDsForPhysicalRange_def Let_def split: prod.split option.split)

lemma observe_order:
  assumes "stateOk n" and "\<And>xs. distinct xs \<Longrightarrow> distinct (ord xs) \<and> set (ord xs) = set xs"
    and "\<And>xs. distinct xs \<Longrightarrow> distinct (ord' xs) \<and> set (ord' xs) = set xs"
  shows "fst (ObserveMFTWrite ord rd start en n) = fst (ObserveMFTWrite ord' rd start en n)"
    and "DataRanges (snd (ObserveMFTWrite ord rd start en n)) = DataRanges (snd (ObserveMFTWrite ord' rd start en n))"
    and "mftSnapshot (snd (ObserveMFTWrite ord rd start en n)) = mftSnapshot (snd (ObserveMFTWrite ord' rd start en n))"
proof -
  obtain ids n1 where z: "refreshZero rd start en n = (ids, n1)" by fastforce
  define n2 where "n2 = growScan rd (mftSize n) n1"
  have ok: "stateOk n2"
    using refreshZero_ok [OF assms(1), of rd start en] z by (simp add: n2_def growScan_ok)
  have d: "distinct ids"
    using refreshZero_distinct [of rd start en n] z by simp
  have "sameNTFS (fold (refreshOne rd) (ord ids) n2) (fold (refreshOne rd) (ord' ids) n2)"
    using assms(2,3) [OF d] by (intro refresh_all_same [OF ok]) simp_all
  note same = rebuild_same [OF this]
  show "fst (ObserveMFTWrite ord rd start en n) = fst (ObserveMFTWrite ord' rd start en n)"
    "DataRanges (snd (ObserveMFTWrite ord rd start en n)) = DataRanges (snd (ObserveMFTWrite ord' rd start en n))"
    "mftSnapshot (snd (ObserveMFTWrite ord rd start en n)) = mftSnapshot (snd (ObserveMFTWrite ord' rd start en n))"
    using same by (simp_all add: ObserveMFTWrite_def z n2_def [symmetric] Let_def publishSnapshots_def DataRanges_def)
qed

section \<open>A small disk\<close>

text \<open>
  A partition of sixteen 512-byte clusters whose MFT is one record in cluster 4, for the
  witnesses: its boot sector, the record with one DATA attribute, and a reader of the two.
\<close>

definition sampleBoot :: bytes where
  "sampleBoot = [0, 0, 0] @ ntfsMagic @ [0, 2, 1] @ replicate 34 0 @ [4] @ replicate 15 0 @ [0xF7] @
     replicate 445 0 @ [0x55, 0xAA]"

definition sampleHeader :: bytes where
  "sampleHeader = ntfsFileMagic @ [48, 0, 2, 0] @ replicate 8 0 @ [1, 0, 0, 0, 56, 0, 1, 0] @
     replicate 24 0 @ [1, 0, 0, 0] @ replicate 4 0"

definition sampleAttr :: bytes where
  "sampleAttr = [0x80, 0, 0, 0, 72, 0, 0, 0, 1, 0, 0, 0, 0, 0, 0, 0] @ replicate 16 0 @
     [0x40, 0, 0, 0, 0, 0, 0, 0] @ natLE 8 512 @ natLE 8 512 @ natLE 8 512 @ [0x11, 1, 4, 0, 0, 0, 0, 0]"

definition sampleMft :: bytes where
  "sampleMft = sampleHeader @ sampleAttr @ replicate 4 0xFF @ replicate 378 0 @ [1, 0]"

definition samplePart :: Partition where
  "samplePart = \<lparr>ptOffset = 0, ptSize = 8192, ptType = 7\<rparr>"

definition sampleReader :: VolumeReader where
  "sampleReader k off = (if off = 0 then Inr sampleBoot else Inr sampleMft)"

text \<open>The same partition at any offset, and a reader that finds it there.\<close>

definition samplePartAt :: "i64 \<Rightarrow> Partition" where
  "samplePartAt off = samplePart\<lparr>ptOffset := off\<rparr>"

definition sampleReads :: "VolumeReader \<Rightarrow> i64 \<Rightarrow> bool" where
  "sampleReads rd off \<longleftrightarrow> rd 512 off = Inr sampleBoot \<and> rd 512 (off + 2048) = Inr sampleMft"

lemma leNat_zeros [simp]: "leNat (replicate k 0) = 0"
  by (induction k) simp_all

lemma sample_boot:
  "sampleReads rd off \<Longrightarrow> readBootSector rd (emptyNTFS (samplePartAt off)) =
     Inr ((emptyNTFS (samplePartAt off))\<lparr>bytesPerSector := 512, clusterSize := 512, bootMFTLCN := 4,
          totalClusters := 16, mftRecordSize := 512\<rparr>)"
proof -
  assume rd: "sampleReads rd off"
  have f: "sub 3 8 sampleBoot = ntfsMagic" "le16 sampleBoot 510 = 0xAA55" "le16 sampleBoot 11 = 512"
    "sampleBoot ! 13 = 1" "le64 sampleBoot 40 = 0" "le64 sampleBoot 48 = 4" "sampleBoot ! 64 = 0xF7"
    by (simp_all add: sampleBoot_def ntfsMagic_def sub_def le16_def le64_def nth_append)
  have "decodeNTFSRecordSize 0xF7 1 512 = Inr 512"
    by (simp add: decodeNTFSRecordSize_def)
  then show ?thesis
    using rd
    by (simp add: readBootSector_def sampleReads_def emptyNTFS_def samplePartAt_def samplePart_def f ntfsMaxRecordSize_def)
qed

lemma sample_fixup: "applyNTFSFixup sampleMft 512 = (restored 512 48 1 sampleMft, None)"
proof -
  have l: "length sampleMft = 512"
    by (simp add: sampleMft_def sampleHeader_def sampleAttr_def ntfsFileMagic_def)
  have f: "unat (le16 sampleMft 4) = 48" "unat (le16 sampleMft 6) = 2"
    by (simp_all add: sampleMft_def sampleHeader_def ntfsFileMagic_def le16_def sub_def)
  have i: "sectorIntact 512 48 sampleMft 0"
    by (simp add: sectorIntact_def sampleMft_def sampleHeader_def sampleAttr_def ntfsFileMagic_def nth_append)
  show ?thesis
    using fixupLoop_restores [of 512 1 sampleMft 48 0] l f i
    by (simp add: applyNTFSFixup_def Let_def restored_0)
qed

lemma sample_restored:
  "restored 512 48 1 sampleMft = sampleHeader @ sampleAttr @ replicate 4 0xFF @ replicate 380 0"
proof -
  define P where "P = sampleHeader @ sampleAttr @ replicate 4 0xFF @ replicate 378 (0 :: u8)"
  have m: "sampleMft = P @ [1, 0]" by (simp add: sampleMft_def P_def)
  have l: "length P = 510"
    by (simp add: P_def sampleHeader_def sampleAttr_def ntfsFileMagic_def)
  have z: "P ! 50 = 0" "P ! 51 = 0"
    by (simp_all add: P_def sampleHeader_def ntfsFileMagic_def nth_append)
  have "restored 512 48 1 sampleMft = P @ [0, 0]"
  proof (rule nth_equalityI)
    fix j assume "j < length (restored 512 48 1 sampleMft)"
    then have j: "j < 512" by (simp add: m l)
    show "restored 512 48 1 sampleMft ! j = (P @ [0, 0]) ! j"
    proof (cases "j < 510")
      case True
      then show ?thesis using j by (simp add: restored_def m l nth_append)
    next
      case False
      then have "j = 510 \<or> j = 511" using j by linarith
      then show ?thesis using z by (auto simp: restored_def m l nth_append)
    qed
  qed (simp add: m l)
  moreover have "replicate 378 (0 :: u8) @ [0, 0] = replicate 380 0"
    using replicate_add [of 378 2 "0 :: u8"] by (simp add: numeral_2_eq_2)
  ultimately show ?thesis by (simp add: P_def)
qed

lemmas sample_fixed = sample_fixup [unfolded sample_restored]

definition sampleAttribute :: NTFSAttribute where
  "sampleAttribute = \<lparr>aType = 0x80, aLength = 72, aNonResident = True, aName = [], aFlags = 0,
     aStartingVCN = 0, aLastVCN = 0, aAllocatedSize = 512, aRealSize = 512,
     aRuns = [\<lparr>nStartVCN = 0, nLength = 1, nLCN = 4, nSparse = False\<rparr>]\<rparr>"

lemma sample_attr:
  "parseNTFSAttribute (sampleHeader @ sampleAttr @ replicate 4 0xFF @ replicate 380 0) 56 512 = Inr sampleAttribute"
proof -
  define R where "R = sampleHeader @ sampleAttr @ replicate 4 0xFF @ replicate 380 (0 :: u8)"
  have l: "length R = 512"
    by (simp add: R_def sampleHeader_def sampleAttr_def ntfsFileMagic_def)
  have h: "length sampleHeader = 56" "length sampleAttr = 72"
    by (simp_all add: sampleHeader_def sampleAttr_def ntfsFileMagic_def)
  have s: "sub (56 + k) n R = sub k n sampleAttr" if "k + n \<le> 72" for k n
    using that h by (simp add: R_def sub_def)
  have f: "le32 R 56 = 0x80" "le32 R 60 = 72" "le16 R 68 = 0" "le64 R 72 = 0" "le64 R 80 = 0" "le16 R 88 = 64"
    "le64 R 96 = 512" "le64 R 104 = 512"
    using s [of 0 4] s [of 4 4] s [of 12 2] s [of 16 8] s [of 24 8] s [of 32 2] s [of 40 8] s [of 48 8]
    by (simp_all add: le32_def le16_def le64_def sampleAttr_def sub_def leNat_natLE)
  have b: "R ! 64 = 1" "R ! 65 = 0"
    using h by (simp_all add: R_def nth_append sampleAttr_def)
  have p: "take 8 (drop 120 R) = [0x11, 1, 4, 0, 0, 0, 0, 0]"
    using s [of 64 8] by (simp add: sub_def sampleAttr_def)
  have run: "parseNTFSRunlist [0x11, 1, 4, 0, 0, 0, 0, 0] 0 =
      Inr [\<lparr>nStartVCN = 0, nLength = 1, nLCN = 4, nSparse = False\<rparr>]"
    by (simp add: parseNTFSRunlist_def runlistLoop.simps Let_def signExtend_def)
  show ?thesis
    unfolding R_def [symmetric]
    by (simp add: parseNTFSAttribute_def nonresidentPart_def attributeName_def getU8_def getU16_def getU32_def
        getU64_def slice_def l f b p run zeroAttribute_def sampleAttribute_def Let_def)
qed

definition sampleInfo :: NTFSRecord where
  "sampleInfo = \<lparr>nrID = 0, nrBaseID = 0, nrSequence = 1, nrInUse = True, nrIsDir = False, nrDataRanges = []\<rparr>"

lemma sample_record:
  "parseNTFSRecord (sampleHeader @ sampleAttr @ replicate 4 0xFF @ replicate 380 0) 0 =
     Inr (sampleInfo, [sampleAttribute])"
proof -
  define R where "R = sampleHeader @ sampleAttr @ replicate 4 0xFF @ replicate 380 (0 :: u8)"
  have l: "length R = 512" "length sampleHeader = 56" "length sampleAttr = 72"
    by (simp_all add: R_def sampleHeader_def sampleAttr_def ntfsFileMagic_def)
  have f: "take 4 R = ntfsFileMagic" "le64 R 32 = 0" "le16 R 16 = 1" "le16 R 22 = 1" "le16 R 20 = 56"
    by (simp_all add: R_def sampleHeader_def ntfsFileMagic_def le64_def le16_def sub_def)
  have ff: "replicate 4 (0xFF :: u8) = [0xFF, 0xFF, 0xFF, 0xFF]"
    by (simp add: eval_nat_numeral)
  have s: "sub 56 4 R = sub 0 4 sampleAttr" "sub 128 4 R = [0xFF, 0xFF, 0xFF, 0xFF]"
    using l ff by (simp_all add: R_def sub_def)
  have t: "le32 R 56 = 0x80" "le32 R 128 = 0xFFFFFFFF"
    by (simp_all add: le32_def s) (simp add: sub_def sampleAttr_def)
  have "attrLoop R 56 [] = attrLoop R 128 [sampleAttribute]"
    using sample_attr l by (subst attrLoop.simps) (simp add: getU32_def t R_def [symmetric] sampleAttribute_def)
  also have "\<dots> = Inr [sampleAttribute]"
    using l by (subst attrLoop.simps) (simp add: getU32_def t)
  finally show ?thesis
    unfolding R_def [symmetric] by (simp add: parseNTFSRecord_def Let_def l f sampleInfo_def)
qed

definition sampleNTFSAt :: "i64 \<Rightarrow> NTFS" where
  "sampleNTFSAt off = (emptyNTFS (samplePartAt off))\<lparr>bytesPerSector := 512, clusterSize := 512, bootMFTLCN := 4,
     totalClusters := 16, mftRecordSize := 512, mftRuns := aRuns sampleAttribute, mftSize := 512\<rparr>"

lemma sampleNTFSAt_fields:
  "ntPartition (sampleNTFSAt off) = samplePartAt off" "ptOffset (samplePartAt off) = off"
  "mftRecordSize (sampleNTFSAt off) = 512" "bytesPerSector (sampleNTFSAt off) = 512" "clusterSize (sampleNTFSAt off) = 512"
  "mftSize (sampleNTFSAt off) = 512" "mftRecordCount (sampleNTFSAt off) = 1"
  "mftRuns (sampleNTFSAt off) = [\<lparr>nStartVCN = 0, nLength = 1, nLCN = 4, nSparse = False\<rparr>]"
  by (simp_all add: sampleNTFSAt_def samplePartAt_def emptyNTFS_def mftRecordCount_def sampleAttribute_def)

lemma sample_layout:
  "sampleReads rd off \<Longrightarrow> loadMFTLayout rd ((emptyNTFS (samplePartAt off))\<lparr>bytesPerSector := 512, clusterSize := 512,
     bootMFTLCN := 4, totalClusters := 16, mftRecordSize := 512\<rparr>) = Inr (sampleNTFSAt off)"
  by (simp add: loadMFTLayout_def readRawRecord_def sampleReads_def samplePartAt_def emptyNTFS_def
      sample_fixed sample_record sampleNTFSAt_def plainData_def sampleAttribute_def attrSize_def)

lemma sample_read: "sampleReads rd off \<Longrightarrow> readMFTLogical rd (sampleNTFSAt off) 0 512 = Inr sampleMft"
proof -
  assume rd: "sampleReads rd off"
  have m: "mapsPos 512 0 \<lparr>nStartVCN = 0, nLength = 1, nLCN = 4, nSparse = False\<rparr>"
    by (simp add: mapsPos_def)
  show ?thesis
    using rd
    by (simp add: readMFTLogical_def sampleNTFSAt_fields sampleReads_def)
      (subst readMFTLoop.simps, simp add: sampleNTFSAt_fields m, subst readMFTLoop.simps, simp)
qed

definition sampleTrackerAt :: "i64 \<Rightarrow> NTFS" where
  "sampleTrackerAt off =
     publishSnapshots (rebuildRanges (storeRecord 0 sampleInfo [sampleAttribute] (sampleNTFSAt off)))"

lemma sample_scan:
  "sampleReads rd off \<Longrightarrow>
     scanLoop rd 0 512 (sampleNTFSAt off) = (None, storeRecord 0 sampleInfo [sampleAttribute] (sampleNTFSAt off))"
proof -
  assume rd: "sampleReads rd off"
  have l: "length sampleMft = 512"
    by (simp add: sampleMft_def sampleHeader_def sampleAttr_def ntfsFileMagic_def)
  have r: "scanRecord 0 sampleMft (sampleNTFSAt off) = storeRecord 0 sampleInfo [sampleAttribute] (sampleNTFSAt off)"
    by (simp add: scanRecord_def sampleNTFSAt_fields sample_fixed sample_record)
      (simp add: sampleHeader_def ntfsFileMagic_def)
  have c: "scanChunk 0 sampleMft [0..<1] (sampleNTFSAt off) = storeRecord 0 sampleInfo [sampleAttribute] (sampleNTFSAt off)"
    using r l by (simp add: sampleNTFSAt_fields Let_def sub_def)
  show ?thesis
    by (subst scanLoop.simps, subst scanLoop.simps)
      (use c in \<open>simp add: sampleNTFSAt_fields ntfsScanChunkSize_def sample_read [OF rd] Let_def min_def\<close>)
qed

lemma sample_new_at: "sampleReads rd off \<Longrightarrow> 0 \<le> sint off \<Longrightarrow> NewNTFS (samplePartAt off) rd = Inr (sampleTrackerAt off)"
proof -
  assume rd: "sampleReads rd off" and off: "0 \<le> sint off"
  have "scanMFT rd (sampleNTFSAt off) =
      (None, rebuildRanges (storeRecord 0 sampleInfo [sampleAttribute] (sampleNTFSAt off)))"
    by (simp add: scanMFT_def scanMFTLogicalRange_def sampleNTFSAt_fields sample_scan [OF rd])
  then show ?thesis
    using off
    by (simp add: NewNTFS_def sample_boot [OF rd] sample_layout [OF rd] sampleTrackerAt_def)
      (simp add: samplePartAt_def samplePart_def)
qed

definition sampleNTFS :: NTFS where
  "sampleNTFS = sampleNTFSAt 0"

definition sampleTracker :: NTFS where
  "sampleTracker = sampleTrackerAt 0"

lemma sample_new: "NewNTFS samplePart sampleReader = Inr sampleTracker"
proof -
  have "samplePartAt 0 = samplePart" by (simp add: samplePartAt_def samplePart_def)
  moreover have "sampleReads sampleReader 0" by (simp add: sampleReads_def sampleReader_def)
  ultimately show ?thesis using sample_new_at [of sampleReader 0] by (simp add: sampleTracker_def)
qed

section \<open>Properties\<close>

text \<open>
  The tracker parses what the host was told is on disk: a successful logical read of the MFT
  through the overlay returns, byte for byte, the bytes of the acknowledged view of the volume at
  the physical positions that the run list maps them to.
\<close>

theorem mft_reads_acknowledged:
  assumes "shmInv s" and "len < 2 ^ 63" and "readMFTLogical (shmReadAt (s, disk)) n logical len = Inr b"
  shows "length b = len \<and>
    (\<forall>i < len. \<exists>q. mftMaps n (logical + word_of_nat i) q \<and> b ! i = shmView s disk q)"
proof -
  have u: "unat (word_of_nat len :: u64) = len"
    using assms(2) by (intro u64_of_len) simp
  have "readMFTLoop (shmReadAt (s, disk)) n logical (word_of_nat len) [] = Inr b"
    using assms(3) by (simp add: readMFTLogical_def split: if_splits)
  from shm.readMFTLoop_view [OF _ _ this] show ?thesis
    using assms(1,2) u by auto
qed

text \<open>An MFT of two 16-byte clusters at the start of the sample overlay.\<close>

definition tinyMft :: NTFS where
  "tinyMft = (emptyNTFS \<lparr>ptOffset = 0, ptSize = 64, ptType = 7\<rparr>)\<lparr>clusterSize := 16, mftSize := 32,
     mftRuns := [\<lparr>nStartVCN = 0, nLength = 2, nLCN = 0, nSparse = False\<rparr>]\<rparr>"

theorem mft_reads_acknowledged_witness:
  "\<exists>b. readMFTLogical (shmReadAt (shm1, \<lparr>fSize = 64, fData = (\<lambda>_. 1)\<rparr>)) tinyMft 8 8 = Inr b \<and>
     (\<exists>q. mftMaps tinyMft (8 + word_of_nat 3) q \<and> b ! 3 = shmView shm1 \<lparr>fSize = 64, fData = (\<lambda>_. 1)\<rparr> q)"
proof -
  let ?rd = "shmReadAt (shm1, \<lparr>fSize = 64, fData = (\<lambda>_. 1)\<rparr>)"
  have sz: "shmSize shm1 = 64"
    by (simp add: shm1_def shm_eval)
  obtain d where d: "?rd 8 8 = Inr d"
    using shm.read_inside [of "(shm1, \<lparr>fSize = 64, fData = (\<lambda>_. 1)\<rparr>)" 8 8] shm1_inv sz by simp
  have m: "mapsPos 16 8 \<lparr>nStartVCN = 0, nLength = 2, nLCN = 0, nSparse = False\<rparr>"
    by (simp add: mapsPos_def)
  have "readMFTLoop ?rd tinyMft 8 8 [] = Inr d"
    by (subst readMFTLoop.simps, simp add: tinyMft_def m d emptyNTFS_def, subst readMFTLoop.simps, simp)
  then have r: "readMFTLogical ?rd tinyMft 8 8 = Inr d"
    by (simp add: readMFTLogical_def tinyMft_def emptyNTFS_def)
  show ?thesis
    using mft_reads_acknowledged [OF shm1_inv _ r, THEN conjunct2, rule_format, of 3] r by auto
qed

text \<open>The tracker after a sequence of MFT writes, each with the order of iteration and the volume it was observed with.\<close>

definition observeWrites ::
  "((u64 list \<Rightarrow> u64 list) \<times> VolumeReader \<times> u64 \<times> u64) list \<Rightarrow> NTFS \<Rightarrow> NTFS" where
  "observeWrites ws n = fold (\<lambda>(ord, rd, a, b) n. snd (ObserveMFTWrite ord rd a b n)) ws n"

lemma observeWrites_inv: "ntInv n \<Longrightarrow> ntInv (observeWrites ws n)"
  by (induction ws arbitrary: n) (auto simp: observeWrites_def ObserveMFTWrite_inv)



text \<open>
  C24. \<open>ObserveMFTWrite\<close> keeps the invariant, whatever was written to the MFT and in whatever order
  the map is walked, and reports exactly the data bytes that were not known before: all of them
  inside the partition.
\<close>

theorem ObserveMFTWrite_reports_new:
  assumes "ntInv n" and "ObserveMFTWrite ord rd start en n = (new, n')"
  shows "ntInv n' \<and> bytesOf new = bytesOf (DataRanges n') - bytesOf (DataRanges n)"
  using ObserveMFTWrite_inv [OF assms(1), of ord rd start en] assms
  by (simp add: DataRanges_def ntInv_def)

theorem ObserveMFTWrite_reports_new_witness:
  "ntInv (snd (ObserveMFTWrite (\<lambda>x. x) sampleReader 2048 2560 sampleTracker))"
  using ObserveMFTWrite_reports_new [OF NewNTFS_inv [OF sample_new] surjective_pairing] by blast



text \<open>
  C30. Go's random map order does not matter: for any two orders in which \<open>ObserveMFTWrite\<close> may
  visit the touched records, the reported ranges and both published snapshots are the same lists.
\<close>

theorem ObserveMFTWrite_order_independent:
  assumes "ntInv n" and "\<And>xs. distinct xs \<Longrightarrow> distinct (ord xs) \<and> set (ord xs) = set xs"
    and "\<And>xs. distinct xs \<Longrightarrow> distinct (ord' xs) \<and> set (ord' xs) = set xs"
  shows "fst (ObserveMFTWrite ord rd start en n) = fst (ObserveMFTWrite ord' rd start en n) \<and>
    DataRanges (snd (ObserveMFTWrite ord rd start en n)) = DataRanges (snd (ObserveMFTWrite ord' rd start en n)) \<and>
    mftSnapshot (snd (ObserveMFTWrite ord rd start en n)) = mftSnapshot (snd (ObserveMFTWrite ord' rd start en n))"
  using observe_order [OF _ assms(2,3)] assms(1) by (simp add: ntInv_def stateOk_def)

theorem ObserveMFTWrite_order_independent_witness:
  "fst (ObserveMFTWrite rev sampleReader 2048 2560 sampleTracker)
     = fst (ObserveMFTWrite (\<lambda>x. x) sampleReader 2048 2560 sampleTracker)"
  using ObserveMFTWrite_order_independent [OF NewNTFS_inv [OF sample_new], of rev "\<lambda>x. x"] by simp

text \<open>
  \<open>TouchesMFT\<close>, which every FUSE write consults, answers exactly whether the write shares a
  byte with the published MFT ranges.
\<close>

theorem TouchesMFT_exact:
  assumes "ntInv n"
  shows "TouchesMFT n start en \<longleftrightarrow> bytesOf (mftRanges n) \<inter> {start..<en} \<noteq> {}"
  using assms overlap_iff by (simp add: TouchesMFT_def ntInv_def rangesOk_def)

theorem TouchesMFT_exact_witness:
  "TouchesMFT sampleTracker 2048 2049 \<longleftrightarrow> bytesOf (mftRanges sampleTracker) \<inter> {2048..<2049} \<noteq> {}"
  using TouchesMFT_exact [OF NewNTFS_inv [OF sample_new]] .

text \<open>
  What a rewrite of record 0 makes \<open>ObserveMFTWrite\<close> refresh: the records that the write mapped
  to under the old run list, and, after a successful refresh, the records numbered below the
  count of records it maps to under the new run list, not those records themselves.
\<close>

theorem remapped_ids_are_indices:
  "set (fst (refreshZero rd start en n)) =
     set (fst (mftRecordIDsForPhysicalRange n start en)) \<union>
     (if snd (mftRecordIDsForPhysicalRange n start en) \<and> fst (refreshRecord rd 0 n) = None
      then word_of_nat `
        {0..<length (fst (mftRecordIDsForPhysicalRange (snd (refreshRecord rd 0 n)) start en))}
      else {})"
  by (auto simp: refreshZero_def Let_def split: prod.split option.split)

end
