(* ===== verification/Reconcile.thy ===== *)
theory Reconcile
  imports History NtfsSpec
begin

text \<open>
  The reconciler (reconcile.go): it matches the captured MPEG-TS ranges with the data ranges of
  the NTFS tracker and asks for holes where they meet.

  The result of \<open>pipeline.SubmitPunch\<close> is only logged, so a step of the reconciler is modelled as
  the list of the requests it submits, in order, with the new journal and tracker;
  \<open>Pipeline_SubmitPunch\<close> is what the pipeline does with each.
\<close>

section \<open>The capture journal\<close>

definition captureHistoryCapacity :: nat where "captureHistoryCapacity = 65536"

record CaptureJournal =
  jItems :: "nat \<Rightarrow> CaptureRange"
  jHead :: nat
  jCount :: nat

definition emptyJournal :: CaptureJournal where
  "emptyJournal = \<lparr>jItems = (\<lambda>_. \<lparr>cSeq = 0, cStart = 0, cEnd = 0\<rparr>), jHead = 0, jCount = 0\<rparr>"

definition Journal_Add :: "CaptureRange \<Rightarrow> CaptureJournal \<Rightarrow> CaptureJournal" where
  "Journal_Add c j =
     j\<lparr>jItems := (jItems j)(jHead j := c),
       jHead := (jHead j + 1) mod captureHistoryCapacity,
       jCount := (if jCount j < captureHistoryCapacity then jCount j + 1 else jCount j)\<rparr>"

text \<open>The captures for which \<open>ForOverlap\<close> calls its function, in order.\<close>

fun overlapLoop :: "CaptureJournal \<Rightarrow> nat \<Rightarrow> u64 \<Rightarrow> u64 \<Rightarrow> nat list \<Rightarrow> CaptureRange list" where
  "overlapLoop j first start en [] = []"
| "overlapLoop j first start en (i # is) =
     (let c = jItems j ((first + i) mod captureHistoryCapacity)
      in if cEnd c \<le> start \<or> cStart c \<ge> en then overlapLoop j first start en is
         else c # overlapLoop j first start en is)"

definition ForOverlap :: "u64 \<Rightarrow> u64 \<Rightarrow> CaptureJournal \<Rightarrow> CaptureRange list" where
  "ForOverlap start en j =
     (if en \<le> start \<or> jCount j = 0 then []
      else
        let first = (jHead j + captureHistoryCapacity - jCount j) mod captureHistoryCapacity
        in overlapLoop j first start en [0..<jCount j])"

section \<open>Reconciling\<close>

definition submitPunch :: "u64 \<Rightarrow> u64 \<Rightarrow> u64 \<Rightarrow> PunchRequest list" where
  "submitPunch sq start en =
     (if start \<ge> en then [] else [\<lparr>pCaptureSeq = sq, pStart = start, pEnd = en\<rparr>])"

fun reconcileLoop :: "CaptureRange \<Rightarrow> ByteRange list \<Rightarrow> PunchRequest list" where
  "reconcileLoop c [] = []"
| "reconcileLoop c (dr # drs) =
     (if brEnd dr \<le> cStart c \<or> brStart dr \<ge> cEnd c then reconcileLoop c drs
      else
        let start = maxU64 (cStart c) (brStart dr);
            en = minU64 (cEnd c) (brEnd dr)
        in if start \<ge> en then reconcileLoop c drs
           else submitPunch (cSeq c) start en @ reconcileLoop c drs)"

definition reconcileCapture :: "NTFS \<Rightarrow> CaptureRange \<Rightarrow> PunchRequest list" where
  "reconcileCapture n c = reconcileLoop c (DataRanges n)"

fun captureLoop :: "NTFS \<Rightarrow> CaptureRange list \<Rightarrow> CaptureJournal \<Rightarrow> PunchRequest list \<times> CaptureJournal" where
  "captureLoop n [] j = ([], j)"
| "captureLoop n (c # cs) j =
     (let (reqs, j') = captureLoop n cs (Journal_Add c j) in (reconcileCapture n c @ reqs, j'))"

text \<open>The closure passed to \<open>ForOverlap\<close>.\<close>

definition matchCapture :: "ByteRange \<Rightarrow> CaptureRange \<Rightarrow> PunchRequest list" where
  "matchCapture dr c =
     (let start = maxU64 (cStart c) (brStart dr);
          en = minU64 (cEnd c) (brEnd dr)
      in if start \<ge> en then [] else submitPunch (cSeq c) start en)"

definition reconcileNew :: "CaptureJournal \<Rightarrow> ByteRange list \<Rightarrow> PunchRequest list" where
  "reconcileNew j news =
     concat (map (\<lambda>dr. concat (map (matchCapture dr) (ForOverlap (brStart dr) (brEnd dr) j))) news)"

record Reconciler =
  rcCaptures :: CaptureJournal
  rcNtfs :: NTFS

text \<open>One iteration of \<open>run\<close>.\<close>

definition Reconciler_run_step ::
  "(u64 list \<Rightarrow> u64 list) \<Rightarrow> VolumeReader \<Rightarrow> ObservedWrite \<Rightarrow> Reconciler \<Rightarrow> PunchRequest list \<times> Reconciler" where
  "Reconciler_run_step ord rd ev r =
     (let w = oEvent ev;
          (reqs, j) = captureLoop (rcNtfs r) (oCaptures ev) (rcCaptures r)
      in if \<not> eTouchesMFT w then (reqs, r\<lparr>rcCaptures := j\<rparr>)
         else
           let (newRanges, n') = ObserveMFTWrite ord rd (eOffset w)
                                   (eOffset w + word_of_nat (length (eData w))) (rcNtfs r)
           in (reqs @ reconcileNew j newRanges, r\<lparr>rcCaptures := j, rcNtfs := n'\<rparr>))"

text \<open>\<open>WritePipeline.SubmitPunch\<close>: a select with a default.\<close>

definition Pipeline_SubmitPunch :: "PunchRequest \<Rightarrow> PunchRequest Chan \<Rightarrow> (bool \<times> PunchRequest Chan) Attempt" where
  "Pipeline_SubmitPunch req c =
     (case send req c of
        Done c' \<Rightarrow> Done (True, c')
      | Blocks \<Rightarrow> Done (False, c)
      | Panics \<Rightarrow> Panics)"

section \<open>The journal is a bounded history\<close>

definition journalEntries :: "CaptureJournal \<Rightarrow> CaptureRange list" where
  "journalEntries j = ringView captureHistoryCapacity (jItems j) (jHead j) (jCount j)"

definition journalOk :: "CaptureJournal \<Rightarrow> bool" where
  "journalOk j \<longleftrightarrow> ringOk captureHistoryCapacity (jHead j) (jCount j)"

interpretation jh: history captureHistoryCapacity emptyJournal Journal_Add journalEntries journalOk
proof
  fix j :: CaptureJournal and c :: CaptureRange
  assume j: "journalOk j"
  then show "journalOk (Journal_Add c j)"
    using ringOk_add [of captureHistoryCapacity "jHead j" "jCount j"]
    by (auto simp: journalOk_def Journal_Add_def split: if_splits)
  show "journalEntries (Journal_Add c j)
      = drop (Suc (length (journalEntries j)) - captureHistoryCapacity) (journalEntries j @ [c])"
    using ringView_add [OF j [unfolded journalOk_def], of "jItems j" c]
    by (auto simp: journalEntries_def Journal_Add_def split: if_splits)
qed (simp_all add: journalOk_def journalEntries_def emptyJournal_def ringOk_def ringView_def
    captureHistoryCapacity_def)

definition overlaps :: "u64 \<Rightarrow> u64 \<Rightarrow> CaptureRange \<Rightarrow> bool" where
  "overlaps start en c \<longleftrightarrow> start < cEnd c \<and> cStart c < en"

lemma overlapLoop_filter:
  "overlapLoop j first start en is =
     filter (overlaps start en) (map (\<lambda>i. jItems j ((first + i) mod captureHistoryCapacity)) is)"
  by (induction "is") (auto simp: Let_def overlaps_def not_le)

lemma ForOverlap_filter:
  assumes "journalOk j" and "start < en"
  shows "ForOverlap start en j = filter (overlaps start en) (journalEntries j)"
proof (cases "jCount j = 0")
  case True
  then show ?thesis by (simp add: ForOverlap_def journalEntries_def ringView_def)
next
  case False
  have "((jHead j + captureHistoryCapacity - jCount j) mod captureHistoryCapacity + i) mod captureHistoryCapacity
      = (jHead j + captureHistoryCapacity - jCount j + i) mod captureHistoryCapacity" for i
    by (simp add: mod_add_left_eq)
  moreover have "\<not> en \<le> start" using assms(2) by simp
  ultimately show ?thesis
    using False
    by (simp add: ForOverlap_def Let_def overlapLoop_filter journalEntries_def ringView_def)
qed

section \<open>What is submitted\<close>

text \<open>\<open>asks reqs sq p\<close>: some request for capture \<open>sq\<close> covers byte \<open>p\<close>.\<close>

definition asks :: "PunchRequest list \<Rightarrow> u64 \<Rightarrow> u64 \<Rightarrow> bool" where
  "asks reqs sq p \<longleftrightarrow> (\<exists>r \<in> set reqs. pCaptureSeq r = sq \<and> pStart r \<le> p \<and> p < pEnd r)"

definition captured :: "CaptureRange \<Rightarrow> u64 \<Rightarrow> bool" where
  "captured c p \<longleftrightarrow> cStart c \<le> p \<and> p < cEnd c"

lemma asks_simps [simp]:
  "\<not> asks [] sq p" "asks (xs @ ys) sq p \<longleftrightarrow> asks xs sq p \<or> asks ys sq p"
  by (auto simp: asks_def)

lemma asks_concat: "asks (concat xss) sq p \<longleftrightarrow> (\<exists>xs \<in> set xss. asks xs sq p)"
  by (induction xss) auto

lemma asks_submit: "asks (submitPunch sq' a b) sq p \<longleftrightarrow> sq = sq' \<and> a \<le> p \<and> p < b"
  by (auto simp: submitPunch_def asks_def not_le)

text \<open>The intersection of a capture and a data range.\<close>

lemma cut_empty:
  fixes a b c d p :: u64
  shows "min c d \<le> max a b \<Longrightarrow> a \<le> p \<Longrightarrow> b \<le> p \<Longrightarrow> p < c \<Longrightarrow> p < d \<Longrightarrow> False"
  by (auto simp: min_le_iff_disj le_max_iff_disj dest: order.strict_trans1 order.strict_trans2)

lemma asks_match:
  "asks (matchCapture dr c) sq p \<longleftrightarrow> sq = cSeq c \<and> captured c p \<and> brStart dr \<le> p \<and> p < brEnd dr"
  using cut_empty [of "cEnd c" "brEnd dr" "cStart c" "brStart dr" p]
  by (auto simp: matchCapture_def Let_def asks_submit captured_def)

lemma asks_reconcileLoop:
  "asks (reconcileLoop c drs) sq p \<longleftrightarrow> sq = cSeq c \<and> captured c p \<and> p \<in> bytesOf drs"
proof (induction drs)
  case Nil
  then show ?case by simp
next
  case (Cons dr drs)
  have "asks (reconcileLoop c (dr # drs)) sq p \<longleftrightarrow> asks (matchCapture dr c) sq p \<or> asks (reconcileLoop c drs) sq p"
    using cut_empty [of "cEnd c" "brEnd dr" "cStart c" "brStart dr" p]
    by (auto simp: Let_def asks_match asks_submit captured_def dest: order.strict_trans1 order.strict_trans2)
  then show ?case
    using Cons by (auto simp: asks_match)
qed

lemma asks_captureLoop:
  assumes "captureLoop n cs j = (reqs, j')"
  shows "asks reqs sq p \<longleftrightarrow> (\<exists>c \<in> set cs. sq = cSeq c \<and> captured c p \<and> p \<in> bytesOf (DataRanges n))"
    and "j' = fold Journal_Add cs j"
  using assms
  by (induction cs arbitrary: j reqs)
    (auto simp: asks_reconcileLoop reconcileCapture_def split: prod.splits)

lemma asks_reconcileNew:
  assumes "journalOk j" and "canonical news"
  shows "asks (reconcileNew j news) sq p \<longleftrightarrow>
     (\<exists>c \<in> set (journalEntries j). sq = cSeq c \<and> captured c p) \<and> p \<in> bytesOf news"
proof -
  have ne: "brStart dr < brEnd dr" if "dr \<in> set news" for dr
    using assms(2) that by (simp add: canonical_def)
  have meets: "overlaps (brStart dr) (brEnd dr) c" if "captured c p" "brStart dr \<le> p" "p < brEnd dr" for dr c
    using that by (auto simp: overlaps_def captured_def dest: order.strict_trans1)
  have "asks (reconcileNew j news) sq p \<longleftrightarrow>
     (\<exists>dr \<in> set news. \<exists>c \<in> set (journalEntries j). overlaps (brStart dr) (brEnd dr) c \<and>
        sq = cSeq c \<and> captured c p \<and> brStart dr \<le> p \<and> p < brEnd dr)"
    by (auto simp: reconcileNew_def asks_concat asks_match ForOverlap_filter [OF assms(1) ne])
  also have "\<dots> \<longleftrightarrow> (\<exists>c \<in> set (journalEntries j). sq = cSeq c \<and> captured c p) \<and> p \<in> bytesOf news"
    using meets by (auto simp: bytesOf_def)
  finally show ?thesis .
qed

text \<open>The state a reconciler is in: a well-formed journal and tracker.\<close>

definition rcInv :: "Reconciler \<Rightarrow> bool" where
  "rcInv r \<longleftrightarrow> journalOk (rcCaptures r) \<and> ntInv (rcNtfs r)"

lemma ObserveMFTWrite_canonical:
  "ntInv n \<Longrightarrow> canonical (fst (ObserveMFTWrite ord rd start en n))"
  by (auto simp: ObserveMFTWrite_def Let_def subtract_canonical split: prod.split)

lemma step_asks:
  assumes "rcInv r" and "Reconciler_run_step ord rd ev r = (reqs, r')"
  shows "rcInv r' \<and> rcCaptures r' = fold Journal_Add (oCaptures ev) (rcCaptures r) \<and>
    (asks reqs sq p \<longleftrightarrow>
      (\<exists>c \<in> set (oCaptures ev). sq = cSeq c \<and> captured c p \<and> p \<in> bytesOf (DataRanges (rcNtfs r))) \<or>
      (\<exists>c \<in> set (journalEntries (rcCaptures r')). sq = cSeq c \<and> captured c p \<and>
         p \<in> bytesOf (DataRanges (rcNtfs r')) - bytesOf (DataRanges (rcNtfs r))))"
proof -
  obtain cr j where c: "captureLoop (rcNtfs r) (oCaptures ev) (rcCaptures r) = (cr, j)" by fastforce
  have j: "j = fold Journal_Add (oCaptures ev) (rcCaptures r)" "journalOk j"
    using asks_captureLoop(2) [OF c] jh.fold_wf assms(1) by (auto simp: rcInv_def)
  show ?thesis
  proof (cases "eTouchesMFT (oEvent ev)")
    case False
    then have "reqs = cr" "r' = r\<lparr>rcCaptures := j\<rparr>"
      using assms(2) c by (simp_all add: Reconciler_run_step_def Let_def)
    then show ?thesis
      using assms(1) j asks_captureLoop(1) [OF c] by (simp add: rcInv_def)
  next
    case True
    define w where "w = oEvent ev"
    obtain news n' where o: "ObserveMFTWrite ord rd (eOffset w) (eOffset w + word_of_nat (length (eData w))) (rcNtfs r)
        = (news, n')" by fastforce
    have r': "reqs = cr @ reconcileNew j news" "r' = r\<lparr>rcCaptures := j, rcNtfs := n'\<rparr>"
      using assms(2) c o True by (simp_all add: Reconciler_run_step_def Let_def w_def)
    have n: "ntInv (rcNtfs r)" using assms(1) by (simp add: rcInv_def)
    have can: "canonical news"
      using ObserveMFTWrite_canonical [OF n] o by (metis fst_conv)
    have inv: "ntInv n'" "bytesOf news = bytesOf (DataRanges n') - bytesOf (DataRanges (rcNtfs r))"
      using ObserveMFTWrite_inv [OF n] o n by (metis DataRanges_def fst_conv ntInv_def option.simps(5) snd_conv)+
    show ?thesis
      using j inv r' asks_captureLoop(1) [OF c] asks_reconcileNew [OF j(2) can]
      by (auto simp: rcInv_def)
  qed
qed

section \<open>A run of the reconciler\<close>

text \<open>
  The observed writes of a run, each with the order of map iteration and the volume it was
  processed with, and all the requests submitted.
\<close>

fun reconcileAll ::
  "((u64 list \<Rightarrow> u64 list) \<times> VolumeReader \<times> ObservedWrite) list \<Rightarrow> Reconciler \<Rightarrow> PunchRequest list \<times> Reconciler" where
  "reconcileAll [] r = ([], r)"
| "reconcileAll ((ord, rd, ev) # evs) r =
     (let (reqs, r1) = Reconciler_run_step ord rd ev r;
          (reqs', r2) = reconcileAll evs r1
      in (reqs @ reqs', r2))"

definition delivered :: "((u64 list \<Rightarrow> u64 list) \<times> VolumeReader \<times> ObservedWrite) list \<Rightarrow> CaptureRange set" where
  "delivered evs = (\<Union>(ord, rd, ev) \<in> set evs. set (oCaptures ev))"

lemma entries_grow:
  assumes "journalOk j" and "c \<in> set (journalEntries (fold Journal_Add cs j))"
  shows "c \<in> set (journalEntries j) \<or> c \<in> set cs"
proof -
  have "length (journalEntries j) \<le> captureHistoryCapacity"
    using assms(1) by (simp add: journalOk_def ringOk_def journalEntries_def)
  then show ?thesis
    using jh.entries_fold_from [OF assms(1), of cs] assms(2) in_set_dropD by (metis Un_iff set_append)
qed

lemma ntInv_inside:
  "ntInv n \<Longrightarrow> p \<in> bytesOf (DataRanges n) \<Longrightarrow>
     ptOffset (ntPartition n) \<le> p \<and> p < ptOffset (ntPartition n) + ptSize (ntPartition n)"
  by (simp add: ntInv_def rangesOk_def DataRanges_def)

lemma refreshRecord_partition [simp]: "ntPartition (snd (refreshRecord rd i n)) = ntPartition n"
  by (simp add: refreshRecord_def Let_def split: sum.split option.split)

lemma fold_partition: "ntPartition (fold (refreshOne rd) ids n) = ntPartition n"
  by (induction ids arbitrary: n) (simp_all add: refreshOne_def)

lemma scanChunk_partition: "ntPartition (scanChunk l b ks n) = ntPartition n"
  by (induction ks arbitrary: n) (auto simp: Let_def scanRecord_def split: prod.split option.split sum.split)

lemma scanLoop_partition: "ntPartition (snd (scanLoop rd l en n)) = ntPartition n"
proof (induction rd l en n rule: scanLoop.induct)
  case (1 rd l en n)
  show ?case
    using 1 by (subst scanLoop.simps) (auto simp: Let_def scanChunk_partition split: sum.split)
qed

lemma growScan_partition: "ntPartition (growScan rd old n) = ntPartition n"
proof -
  have "ntPartition (snd (scanMFTLogicalRange rd a b n)) = ntPartition n" for a b
    using scanLoop_partition [of rd "a - a mod mftRecordSize n" "b - b mod mftRecordSize n" n]
    by (auto simp: scanMFTLogicalRange_def Let_def rebuildRanges_def split: prod.split option.split)
  then show ?thesis by (simp add: growScan_def)
qed

lemma refreshZero_partition: "ntPartition (snd (refreshZero rd a b n)) = ntPartition n"
  by (cases "refreshRecord rd 0 n")
    (use refreshRecord_partition [of rd 0 n] in \<open>auto simp del: refreshRecord_partition
      simp: refreshZero_def Let_def split: prod.split option.split\<close>)

lemma Observe_partition: "ntPartition (snd (ObserveMFTWrite ord rd start en n)) = ntPartition n"
  using refreshZero_partition [of rd start en n]
  by (auto simp: ObserveMFTWrite_def Let_def publishSnapshots_def rebuildRanges_def fold_partition
      growScan_partition split: prod.split)

lemma step_partition:
  "Reconciler_run_step ord rd ev r = (reqs, r') \<Longrightarrow> ntPartition (rcNtfs r') = ntPartition (rcNtfs r)"
  using Observe_partition [of ord rd "eOffset (oEvent ev)"
      "eOffset (oEvent ev) + word_of_nat (length (eData (oEvent ev)))" "rcNtfs r"]
  by (auto simp: Reconciler_run_step_def Let_def split: prod.splits if_splits)

lemma reconcileAll_safe:
  assumes "rcInv r" and "reconcileAll evs r = (reqs, r')" and "asks reqs sq p"
  shows "(\<exists>c \<in> delivered evs \<union> set (journalEntries (rcCaptures r)). cSeq c = sq \<and> captured c p) \<and>
    ptOffset (ntPartition (rcNtfs r)) \<le> p \<and>
    p < ptOffset (ntPartition (rcNtfs r)) + ptSize (ntPartition (rcNtfs r))"
  using assms
proof (induction evs arbitrary: r reqs)
  case Nil
  then show ?case by simp
next
  case (Cons e evs)
  obtain ord rd ev where e: "e = (ord, rd, ev)" by (metis prod.exhaust)
  obtain q1 r1 where s: "Reconciler_run_step ord rd ev r = (q1, r1)" by fastforce
  obtain q2 where t: "reconcileAll evs r1 = (q2, r')" and q: "reqs = q1 @ q2"
    using Cons.prems(2) s e by (auto split: prod.splits)
  note st = step_asks [OF Cons.prems(1) s]
  have j: "journalOk (rcCaptures r)" using Cons.prems(1) by (simp add: rcInv_def)
  have grow: "c \<in> delivered (e # evs) \<union> set (journalEntries (rcCaptures r))"
    if "c \<in> set (journalEntries (rcCaptures r1)) \<or> c \<in> set (oCaptures ev) \<or> c \<in> delivered evs" for c
    using that entries_grow [OF j, of c "oCaptures ev"] st by (auto simp: delivered_def e)
  have n: "ntInv (rcNtfs r)" "ntInv (rcNtfs r1)"
    using Cons.prems(1) st by (auto simp: rcInv_def)
  show ?case
  proof (cases "asks q2 sq p")
    case True
    have "rcInv r1" using st by blast
    from Cons.IH [OF this t True] obtain c where c: "c \<in> delivered evs \<union> set (journalEntries (rcCaptures r1))"
        "cSeq c = sq" "captured c p" and p: "ptOffset (ntPartition (rcNtfs r1)) \<le> p"
        "p < ptOffset (ntPartition (rcNtfs r1)) + ptSize (ntPartition (rcNtfs r1))"
      by blast
    have "c \<in> delivered (e # evs) \<union> set (journalEntries (rcCaptures r))"
      using c(1) by (intro grow) blast
    then show ?thesis using c p step_partition [OF s] by auto
  next
    case False
    then have "asks q1 sq p" using Cons.prems(3) q by simp
    then obtain c where c: "c \<in> set (oCaptures ev) \<or> c \<in> set (journalEntries (rcCaptures r1))" "cSeq c = sq"
        "captured c p" and p: "p \<in> bytesOf (DataRanges (rcNtfs r)) \<or> p \<in> bytesOf (DataRanges (rcNtfs r1))"
      using st [of sq p] by blast
    have "c \<in> delivered (e # evs) \<union> set (journalEntries (rcCaptures r))"
      using c(1) by (intro grow) blast
    then show ?thesis
      using c p ntInv_inside [OF n(1), of p] ntInv_inside [OF n(2), of p] step_partition [OF s] by auto
  qed
qed

lemma reconcileAll_complete:
  assumes "rcInv r" and "reconcileAll evs r = (reqs, r')"
    and "\<And>c p. c \<in> set (journalEntries (rcCaptures r)) \<Longrightarrow> captured c p \<Longrightarrow>
       p \<in> bytesOf (DataRanges (rcNtfs r)) \<Longrightarrow> asks before (cSeq c) p"
    and "c \<in> set (journalEntries (rcCaptures r'))" and "captured c p" and "p \<in> bytesOf (DataRanges (rcNtfs r'))"
  shows "asks (before @ reqs) (cSeq c) p"
  using assms
proof (induction evs arbitrary: r reqs before)
  case Nil
  then show ?case by simp
next
  case (Cons e evs)
  obtain ord rd ev where e: "e = (ord, rd, ev)" by (metis prod.exhaust)
  obtain q1 r1 where s: "Reconciler_run_step ord rd ev r = (q1, r1)" by fastforce
  obtain q2 where t: "reconcileAll evs r1 = (q2, r')" and q: "reqs = q1 @ q2"
    using Cons.prems(2) s e by (auto split: prod.splits)
  note st = step_asks [OF Cons.prems(1) s]
  have j: "journalOk (rcCaptures r)" using Cons.prems(1) by (simp add: rcInv_def)
  have known: "asks (before @ q1) (cSeq d) x"
    if d: "d \<in> set (journalEntries (rcCaptures r1))" "captured d x" "x \<in> bytesOf (DataRanges (rcNtfs r1))" for d x
    using st [of "cSeq d" x] d entries_grow [OF j, of d "oCaptures ev"] Cons.prems(3) [of d x] by auto
  have "asks ((before @ q1) @ q2) (cSeq c) p"
    using st by (intro Cons.IH [OF _ t known Cons.prems(4-6)]) auto
  then show ?case by (simp add: q)
qed

text \<open>A tracker that knows one file of 1024 bytes, and one captured write into it.\<close>

definition fileTracker :: NTFS where
  "fileTracker = (emptyNTFS samplePart)\<lparr>clusterSize := 512, totalClusters := 16, mftRecordSize := 512,
     dataRanges := [\<lparr>brStart = 1024, brEnd = 2048\<rparr>], dataSnapshot := Some [\<lparr>brStart = 1024, brEnd = 2048\<rparr>],
     mftSnapshot := Some []\<rparr>"

definition sampleObserved :: ObservedWrite where
  "sampleObserved =
     \<lparr>oEvent = \<lparr>eSeq = 3, eOffset = 1500, eData = replicate 376 0x47,
        eStaged = \<lparr>xStart = 1500, xEnd = 1876, xGen = 1\<rparr>, eTouchesMFT = False\<rparr>,
      oMPEGTS = True, oCaptures = [\<lparr>cSeq = 3, cStart = 1500, cEnd = 1876\<rparr>]\<rparr>"

lemma fileTracker_inv: "ntInv fileTracker"
  by (auto simp: ntInv_def geometryOk_def recordsOk_def rangesOk_def fileTracker_def emptyNTFS_def
      samplePart_def canonical_def elim!: order.strict_trans)

lemma sample_run:
  "reconcileAll [(\<lambda>x. x, sampleReader, sampleObserved)] \<lparr>rcCaptures = emptyJournal, rcNtfs = fileTracker\<rparr> =
     ([\<lparr>pCaptureSeq = 3, pStart = 1500, pEnd = 1876\<rparr>],
      \<lparr>rcCaptures = Journal_Add \<lparr>cSeq = 3, cStart = 1500, cEnd = 1876\<rparr> emptyJournal, rcNtfs = fileTracker\<rparr>)"
  by (simp add: Reconciler_run_step_def sampleObserved_def reconcileCapture_def DataRanges_def fileTracker_def
      submitPunch_def Let_def)

section \<open>Properties\<close>



text \<open>
  C21. Punches are complete: after any run, every byte that a remembered capture covers and that
  the tracker knows as file data has been asked for under that capture's sequence number, whether
  the file data was known when the capture came or only after a later MFT write.
\<close>

theorem punches_are_complete:
  assumes "ntInv n"
    and "reconcileAll evs \<lparr>rcCaptures = emptyJournal, rcNtfs = n\<rparr> = (reqs, r')"
    and "c \<in> set (journalEntries (rcCaptures r'))" and "cStart c \<le> p" and "p < cEnd c"
    and "p \<in> bytesOf (DataRanges (rcNtfs r'))"
  shows "\<exists>req \<in> set reqs. pCaptureSeq req = cSeq c \<and> pStart req \<le> p \<and> p < pEnd req"
proof -
  have i: "rcInv \<lparr>rcCaptures = emptyJournal, rcNtfs = n\<rparr>"
    using assms(1) jh.fresh_wf by (simp add: rcInv_def)
  have "asks ([] @ reqs) (cSeq c) p"
    using assms(4,5) by (intro reconcileAll_complete [OF i assms(2) _ assms(3) _ assms(6)])
      (simp_all add: jh.fresh_entries captured_def)
  then show ?thesis by (simp add: asks_def)
qed

theorem punches_are_complete_witness:
  "\<exists>req \<in> set [\<lparr>pCaptureSeq = 3, pStart = 1500, pEnd = 1876\<rparr> :: PunchRequest].
     pCaptureSeq req = 3 \<and> pStart req \<le> 1600 \<and> 1600 < pEnd req"
proof -
  have j: "\<lparr>cSeq = 3, cStart = 1500, cEnd = 1876\<rparr> \<in>
      set (journalEntries (Journal_Add \<lparr>cSeq = 3, cStart = 1500, cEnd = 1876\<rparr> emptyJournal))"
    by (simp add: jh.entries_add jh.fresh_wf jh.fresh_entries captureHistoryCapacity_def)
  have d: "1600 \<in> bytesOf (DataRanges fileTracker)"
    by (simp add: DataRanges_def fileTracker_def)
  show ?thesis
    using punches_are_complete [OF fileTracker_inv sample_run, of "\<lparr>cSeq = 3, cStart = 1500, cEnd = 1876\<rparr>" 1600] j d
    by simp
qed

text \<open>
  \<open>ForOverlap\<close> visits exactly the overlapping captures among the last 65536 added, oldest first.
\<close>

theorem ForOverlap_exact:
  assumes "start < en"
  shows "ForOverlap start en (fold Journal_Add cs emptyJournal) =
    filter (\<lambda>c. start < cEnd c \<and> cStart c < en) (drop (length cs - 65536) cs)"
  using ForOverlap_filter [OF jh.fold_wf [OF jh.fresh_wf] assms, of cs]
  by (simp add: jh.entries_fold overlaps_def [abs_def] captureHistoryCapacity_def)

theorem ForOverlap_exact_witness:
  "ForOverlap 10 20 (fold Journal_Add [\<lparr>cSeq = 1, cStart = 0, cEnd = 10\<rparr>, \<lparr>cSeq = 2, cStart = 15, cEnd = 30\<rparr>]
     emptyJournal) = [\<lparr>cSeq = 2, cStart = 15, cEnd = 30\<rparr>]"
  using ForOverlap_exact [of 10 20 "[\<lparr>cSeq = 1, cStart = 0, cEnd = 10\<rparr>, \<lparr>cSeq = 2, cStart = 15, cEnd = 30\<rparr>]"]
  by simp

end
