(* ===== verification/Fuse.thy ===== *)
theory Fuse
  imports Types ShmSpec
begin

text \<open>
  The FUSE file (fuse.go).  \<open>DiskNode\<close> keeps the size and the sequence counter; the overlay, the
  pipeline and the tracker it points to are arguments of the operations.  An errno is a number,
  0 for success.
\<close>

section \<open>Errors\<close>

definition EIO :: nat where "EIO = 5"
definition EINVAL :: nat where "EINVAL = 22"
definition EFBIG :: nat where "EFBIG = 27"
definition EINTR :: nat where "EINTR = 4"

text \<open>\<open>errors.As\<close> with a \<open>syscall.Errno\<close> target: it follows the wrapped errors.\<close>

fun asErrno :: "GoError \<Rightarrow> nat option" where
  "asErrno (Errno k) = Some k"
| "asErrno (Wrapf m e) = asErrno e"
| "asErrno _ = None"

definition toErrno :: "GoError option \<Rightarrow> nat" where
  "toErrno err =
     (case err of
        None \<Rightarrow> 0
      | Some e \<Rightarrow> (case asErrno e of Some k \<Rightarrow> k | None \<Rightarrow> EIO))"

section \<open>The node\<close>

record DiskNode =
  dnSize :: u64
  dnSeq :: u64

record AttrOut =
  atMode :: nat
  atSize :: u64
  atBlksize :: nat
  atBlocks :: u64

definition DiskNode_Getattr :: "DiskNode \<Rightarrow> AttrOut" where
  "DiskNode_Getattr d =
     \<lparr>atMode = 0x8000 + 420, atSize = dnSize d, atBlksize = 512, atBlocks = (dnSize d + 511) div 512\<rparr>"

text \<open>\<open>Open\<close> keeps no handle; direct I/O is requested, \<open>FOPEN_PARALLEL_DIRECT_WRITES\<close> (64) is not.\<close>

definition FOPEN_DIRECT_IO :: nat where "FOPEN_DIRECT_IO = 1"

definition DiskNode_Open :: "unit option \<times> nat \<times> nat" where
  "DiskNode_Open = (None, FOPEN_DIRECT_IO, 0)"

text \<open>\<open>rd\<close> is \<open>d.shm.ReadAt\<close> and \<open>n\<close> the length of the destination buffer.\<close>

definition DiskNode_Read ::
  "(nat \<Rightarrow> i64 \<Rightarrow> GoError + bytes) \<Rightarrow> nat \<Rightarrow> i64 \<Rightarrow> DiskNode \<Rightarrow> bytes \<times> nat" where
  "DiskNode_Read rd n off d =
     (if sint off < 0 then ([], EINVAL)
      else
        let size = dnSize d; start = off
        in if start \<ge> size \<or> n = 0 then ([], 0)
           else
             let len0 = (word_of_nat n :: u64);
                 len = (if len0 > size - start then size - start else len0)
             in (case rd (unat len) off of
                   Inl e \<Rightarrow> ([], toErrno (Some e))
                 | Inr data \<Rightarrow> (data, 0)))"

text \<open>
  \<open>Write\<close>.  \<open>oc\<close> is the outcome of the overlay's \<open>pwrite\<close>, \<open>touches\<close> is \<open>d.ntfs.TouchesMFT\<close> and \<open>submit\<close>
  is \<open>d.pipeline.SubmitWrite\<close>, whose panic the deferred function turns into \<open>EIO\<close>.  The result is
  the count, the errno, and the event when one was submitted.
\<close>

datatype Submitted = Accepted | Rejected GoError | SubmitPanics

definition DiskNode_Write ::
  "IoOutcome \<Rightarrow> (u64 \<Rightarrow> u64 \<Rightarrow> bool) \<Rightarrow> (WriteEvent \<Rightarrow> Submitted) \<Rightarrow> bytes \<Rightarrow> i64 \<Rightarrow> DiskNode \<Rightarrow> SHMDisk \<Rightarrow>
     (nat \<times> nat \<times> WriteEvent option) \<times> DiskNode \<times> SHMDisk" where
  "DiskNode_Write oc touches submit data off d s =
     (if sint off < 0 then ((0, EINVAL, None), d, s)
      else if length data = 0 then ((0, 0, None), d, s)
      else
        let start = off
        in if word_of_nat (length data) > - 1 - start then ((0, EFBIG, None), d, s)
           else
             let en = start + word_of_nat (length data)
             in (case StageWrite oc data start s of
                   (Inl err, s') \<Rightarrow> ((0, EIO, None), d, s')
                 | (Inr staged, s') \<Rightarrow>
                     let d1 = (if en > dnSize d then d\<lparr>dnSize := en\<rparr> else d);
                         sq = dnSeq d1 + 1;
                         d2 = d1\<lparr>dnSeq := sq\<rparr>;
                         ev = \<lparr>eSeq = sq, eOffset = start, eData = data, eStaged = staged,
                               eTouchesMFT = touches start en\<rparr>
                     in (case submit ev of
                           Accepted \<Rightarrow> ((length data, 0, Some ev), d2, s')
                         | Rejected e \<Rightarrow> ((0, toErrno (Some e), None), d2, s')
                         | SubmitPanics \<Rightarrow> ((0, EIO, None), d2, s'))))"

text \<open>
  \<open>syncWriter\<close> waits for the barrier or for the end of the request context, whichever comes first.
\<close>

datatype SyncOutcome = BarrierDone "GoError option" | ContextDone

definition syncWriter :: "SyncOutcome \<Rightarrow> nat" where
  "syncWriter o' = (case o' of BarrierDone err \<Rightarrow> toErrno err | ContextDone \<Rightarrow> EINTR)"

definition DiskNode_Flush :: "SyncOutcome \<Rightarrow> nat" where
  "DiskNode_Flush o' = syncWriter o'"

definition DiskNode_Fsync :: "SyncOutcome \<Rightarrow> nat" where
  "DiskNode_Fsync o' = syncWriter o'"

text \<open>The root directory, and the mount: \<open>st\<close> is the result of \<open>image.Stat\<close>, \<open>mnt\<close> the error of \<open>fs.Mount\<close>.\<close>

definition DiskFS_Getattr :: nat where
  "DiskFS_Getattr = 0x4000 + 493"

definition mountDiskFS :: "GoError + i64 \<Rightarrow> GoError option \<Rightarrow> GoError + DiskNode" where
  "mountDiskFS st mnt =
     (case st of
        Inl e \<Rightarrow> Inl e
      | Inr sz \<Rightarrow> (case mnt of Some e \<Rightarrow> Inl e | None \<Rightarrow> Inr \<lparr>dnSize = sz, dnSeq = 0\<rparr>))"

section \<open>Properties\<close>

text \<open>What an accepted write leaves behind.\<close>

lemma DiskNode_Write_accepted:
  assumes "DiskNode_Write oc touches submit data off d s = ((n, err, Some ev), d', s')"
  shows "n = length data \<and> err = 0 \<and> data \<noteq> [] \<and> 0 \<le> sint off \<and>
    StageWrite oc data off s = (Inr (eStaged ev), s') \<and> eSeq ev = dnSeq d + 1 \<and> dnSeq d' = dnSeq d + 1 \<and>
    eOffset ev = off \<and> eData ev = data \<and> eTouchesMFT ev = touches off (writeEnd ev)"
  using assms
  by (auto simp: DiskNode_Write_def Let_def writeEnd_def not_less
      split: if_splits sum.splits prod.splits Submitted.splits)

lemma DiskNode_Read_view:
  assumes "shmInv s" and "0 \<le> sint off" and "n < 2 ^ 63" and "dnSize d \<le> shmSize s"
  shows "DiskNode_Read (shmReadAt (s, disk)) n off d =
    (map (\<lambda>i. shmView s disk (off + word_of_nat i)) [0..<min n (unat (dnSize d) - unat off)], 0)"
proof (cases "off < dnSize d \<and> 0 < n")
  case False
  then have "dnSize d \<le> off \<or> n = 0" by auto
  then show ?thesis
    using assms(2) by (auto simp: DiskNode_Read_def word_le_nat_alt)
next
  case True
  define len0 len where "len0 = (word_of_nat n :: u64)"
    and "len = (if len0 > dnSize d - off then dnSize d - off else len0)"
  have u: "unat len0 = n"
    using assms(3) by (simp add: len0_def u64_of_len)
  have sub: "unat (dnSize d - off) = unat (dnSize d) - unat off"
    using True by (intro unat_minus_le less_imp_le) simp
  have len: "unat len = min n (unat (dnSize d) - unat off)"
    using u sub by (auto simp: len_def min_def word_less_nat_alt)
  have b: "0 < unat len" "unat off + unat len \<le> unat (shmSize s)"
    using len True assms(4) by (auto simp: word_less_nat_alt word_le_nat_alt)
  have "shmReadAt (s, disk) (unat len) off =
      Inr (map (\<lambda>i. shmView s disk (off + word_of_nat i)) [0..<unat len])"
    using shm.read_inside [of "(s, disk)" "unat len" off] assms(1) b by simp
  then show ?thesis
    using True assms(2) by (auto simp: DiskNode_Read_def Let_def len_def [symmetric] len0_def [symmetric] len)
qed

text \<open>
  FUSE \<open>Read\<close> is exact: inside the volume it returns precisely the bytes of the acknowledged
  view, cut at the size of the file, and no error; past the end it returns nothing.
\<close>

theorem fuse_read_exact:
  assumes "shmInv s" and "0 \<le> sint off" and "n < 2 ^ 63" and "dnSize d \<le> shmSize s"
  shows "DiskNode_Read (shmReadAt (s, disk)) n off d =
    (map (\<lambda>i. shmView s disk (off + word_of_nat i)) [0..<min n (unat (dnSize d) - unat off)], 0)"
  using assms by (rule DiskNode_Read_view)

theorem fuse_read_exact_witness:
  "DiskNode_Read (shmReadAt (shm1, \<lparr>fSize = 64, fData = (\<lambda>_. 1)\<rparr>)) 100 60 \<lparr>dnSize = 64, dnSeq = 0\<rparr> =
    (map (\<lambda>i. shmView shm1 \<lparr>fSize = 64, fData = (\<lambda>_. 1)\<rparr> (60 + word_of_nat i)) [0..<4], 0)"
  using fuse_read_exact [OF shm1_inv, of 60 100 "\<lparr>dnSize = 64, dnSeq = 0\<rparr>" "\<lparr>fSize = 64, fData = (\<lambda>_. 1)\<rparr>"]
  by (simp add: shm1_size)

text \<open>
  Read after write through the mount point: when \<open>Write\<close> answers without an error, \<open>Read\<close> of the
  same range at once returns the bytes written, whatever the image holds, although none of them has
  been written to the image yet; the reply counts all of them and the file still ends inside the
  volume.
\<close>

theorem fuse_read_after_write:
  assumes "shmInv s" and "nextGen s + 1 \<noteq> 0" and "dnSize d \<le> shmSize s"
    and "data \<noteq> []" and "length data < 2 ^ 63"
    and "DiskNode_Write oc touches submit data off d s = ((n, 0, Some ev), d', s')"
  shows "n = length data \<and> DiskNode_Read (shmReadAt (s', disk)) n off d' = (data, 0) \<and> dnSize d' \<le> shmSize s'"
proof -
  note w = DiskNode_Write_accepted [OF assms(6)]
  have ok: "oc = IoOk"
    using StageWrite_Inr_outcome w assms(4) by blast
  have st: "StageWrite IoOk data off s = (Inr (eStaged ev), s')"
    using w ok by simp
  have inv: "shmInv s'"
    by (rule StageWrite_inv [OF assms(1,5,2) st])
  have b: "unat off + length data \<le> unat (shmSize s)" and sz: "shmSize s' = shmSize s"
    by (rule StageWrite_Inr [OF assms(1,5,4) st]; simp)+
  have e: "unat (off + word_of_nat (length data)) = unat off + length data"
    using b unat_u64_less [of "shmSize s"] by (intro unat_add_of_nat) simp
  have size: "dnSize d' = max (dnSize d) (off + word_of_nat (length data))"
    using assms(6)
    by (auto simp: DiskNode_Write_def Let_def max_def not_less split: if_splits sum.splits prod.splits Submitted.splits)
  then have le: "dnSize d' \<le> shmSize s'"
    using assms(3) b e sz by (simp add: word_le_nat_alt)
  have "unat off + length data \<le> unat (dnSize d')"
    using size e by (simp add: word_le_nat_alt max_def)
  then have m: "min (length data) (unat (dnSize d') - unat off) = length data"
    by simp
  have "map (\<lambda>i. shmView s' disk (off + word_of_nat i)) [0..<length data] = data"
  proof (rule nth_equalityI)
    fix i assume "i < length (map (\<lambda>i. shmView s' disk (off + word_of_nat i)) [0..<length data])"
    then have i: "i < length data" by simp
    then have "unat (off + word_of_nat i) = unat off + i"
      using b unat_u64_less [of "shmSize s"] by (intro unat_add_of_nat) simp
    then show "map (\<lambda>i. shmView s' disk (off + word_of_nat i)) [0..<length data] ! i = data ! i"
      using i StageWrite_view [OF assms(1,5) st] by (simp add: word_le_nat_alt)
  qed simp
  then have "DiskNode_Read (shmReadAt (s', disk)) (length data) off d' = (data, 0)"
    using DiskNode_Read_view [OF inv _ assms(5) le, of off disk] w m by simp
  then show ?thesis using w le by simp
qed

theorem fuse_read_after_write_witness:
  "\<exists>ev d' s'. DiskNode_Write IoOk (\<lambda>_ _. False) (\<lambda>_. Accepted) [7, 8, 9] 10 \<lparr>dnSize = 64, dnSeq = 0\<rparr> shm0
       = ((3, 0, Some ev), d', s') \<and>
     DiskNode_Read (shmReadAt (s', \<lparr>fSize = 64, fData = (\<lambda>_. 1)\<rparr>)) 3 10 d' = ([7, 8, 9], 0)"
proof -
  have w: "DiskNode_Write IoOk (\<lambda>_ _. False) (\<lambda>_. Accepted) [7, 8, 9] 10 \<lparr>dnSize = 64, dnSeq = 0\<rparr> shm0 =
      ((3, 0, Some \<lparr>eSeq = 1, eOffset = 10, eData = [7, 8, 9],
          eStaged = \<lparr>xStart = 10, xEnd = 13, xGen = 1\<rparr>, eTouchesMFT = False\<rparr>),
       \<lparr>dnSize = 64, dnSeq = 1\<rparr>, shm1)"
    by (simp add: DiskNode_Write_def shm1_stage)
  have "nextGen shm0 + 1 \<noteq> 0" "shmSize shm0 = 64"
    by (simp_all add: shm0_def)
  then show ?thesis
    using fuse_read_after_write [OF shm0_inv _ _ _ _ w, of "\<lparr>fSize = 64, fData = (\<lambda>_. 1)\<rparr>"] w by simp
qed

end
