(* ===== verification/Pipeline.thy ===== *)
theory Pipeline
  imports Writer Sniffer
begin

text \<open>
  The write pipeline (pipeline.go): the dispatcher goroutine \<open>run\<close> puts the writes back in the order
  of their sequence numbers, sends them through the sniffer and forwards what comes back to the
  writer and to the reconciler; \<open>runPunches\<close> forwards punches.

  \<open>plFallback\<close> holds the events of the sender goroutines that \<open>SubmitWrite\<close> starts when the queue is
  full (\<open>submitWG\<close> counts them), \<open>plSyncs\<close> the \<open>Sync\<close> calls past \<open>submitWG.Wait\<close> that have not sent their
  barrier yet.  A \<open>Done\<close> channel is a number, as in the writer.
\<close>

section \<open>State\<close>

definition pipelineWriteDepth :: nat where "pipelineWriteDepth = 2048"
definition pipelinePunchDepth :: nat where "pipelinePunchDepth = 8192"
definition pipelineBarrierDepth :: nat where "pipelineBarrierDepth = 8"

record barrierRequest =
  bqTargetSeq :: u64
  bqDone :: nat

record WritePipeline =
  plWrites :: "WriteEvent Chan"
  plPunches :: "PunchRequest Chan"
  plBarriers :: "barrierRequest Chan"
  plObserved :: "ObservedWrite Chan"
  plClosing :: bool
  plFallback :: "WriteEvent list"
  plSyncs :: "barrierRequest list"

definition NewWritePipeline :: WritePipeline where
  "NewWritePipeline =
     \<lparr>plWrites = makeChan pipelineWriteDepth, plPunches = makeChan pipelinePunchDepth,
      plBarriers = makeChan pipelineBarrierDepth, plObserved = makeChan pipelineWriteDepth,
      plClosing = False, plFallback = [], plSyncs = []\<rparr>"

text \<open>
  Where \<open>run\<close> is: at the head of its loop; in \<open>dispatchWrite\<close>, called from the loop or from a barrier;
  forwarding an observation; in \<open>handleBarrier\<close>; after the loop.
\<close>

datatype RunPC =
    AtSelect
  | AtDispatch WriteEvent "barrierRequest option"
  | AtSubmit ObservedWrite
  | AtObserve ObservedWrite
  | AtBarrier barrierRequest
  | AtSubmitBarrier barrierRequest
  | AtFinish
  | AtReturned

record Dispatcher =
  dPending :: "u64 \<rightharpoonup> WriteEvent"
  dNextSeq :: u64
  dDispatchedSeq :: u64
  dWritesOpen :: bool
  dSnifferClosed :: bool
  dAt :: RunPC

definition startDispatcher :: Dispatcher where
  "startDispatcher =
     \<lparr>dPending = (\<lambda>_. None), dNextSeq = 1, dDispatchedSeq = 0, dWritesOpen = True, dSnifferClosed = False,
      dAt = AtSelect\<rparr>"

record Pipe =
  ppPipe :: WritePipeline
  ppDisp :: Dispatcher
  ppSniffer :: Sniffer
  ppWriter :: Writer

section \<open>The calls of the other goroutines\<close>

definition Pipeline_SubmitWrite :: "WriteEvent \<Rightarrow> WritePipeline \<Rightarrow> (GoError option \<times> WritePipeline) Attempt" where
  "Pipeline_SubmitWrite ev p =
     (if plClosing p then Done (Some (Errno 5), p)
      else case send ev (plWrites p) of
        Done c \<Rightarrow> Done (None, p\<lparr>plWrites := c\<rparr>)
      | Blocks \<Rightarrow> Done (None, p\<lparr>plFallback := plFallback p @ [ev]\<rparr>)
      | Panics \<Rightarrow> Panics)"

text \<open>The blocking send of fallback sender \<open>i\<close>.\<close>

definition fallbackSend :: "nat \<Rightarrow> WritePipeline \<Rightarrow> WritePipeline Attempt" where
  "fallbackSend i p =
     (if length (plFallback p) \<le> i then Blocks
      else case send (plFallback p ! i) (plWrites p) of
        Done c \<Rightarrow> Done (p\<lparr>plWrites := c, plFallback := take i (plFallback p) @ drop (Suc i) (plFallback p)\<rparr>)
      | Blocks \<Rightarrow> Blocks
      | Panics \<Rightarrow> Panics)"

text \<open>\<open>Sync\<close> up to the end of \<open>submitWG.Wait\<close>, and its send on \<open>p.barriers\<close>; the reply is the writer's.\<close>

definition Sync_wait :: "u64 \<Rightarrow> nat \<Rightarrow> WritePipeline \<Rightarrow> WritePipeline Attempt" where
  "Sync_wait target b p =
     (if plFallback p \<noteq> [] then Blocks
      else Done (p\<lparr>plSyncs := plSyncs p @ [\<lparr>bqTargetSeq = target, bqDone = b\<rparr>]\<rparr>))"

definition Sync_send :: "nat \<Rightarrow> WritePipeline \<Rightarrow> WritePipeline Attempt" where
  "Sync_send i p =
     (if length (plSyncs p) \<le> i then Blocks
      else case send (plSyncs p ! i) (plBarriers p) of
        Done c \<Rightarrow> Done (p\<lparr>plBarriers := c, plSyncs := take i (plSyncs p) @ drop (Suc i) (plSyncs p)\<rparr>)
      | Blocks \<Rightarrow> Blocks
      | Panics \<Rightarrow> Panics)"

definition CloseWrites_mark :: "WritePipeline \<Rightarrow> WritePipeline" where
  "CloseWrites_mark p = p\<lparr>plClosing := True\<rparr>"

definition CloseWrites_close :: "WritePipeline \<Rightarrow> WritePipeline Attempt" where
  "CloseWrites_close p =
     (if plFallback p \<noteq> [] then Blocks
      else case closeChan (plWrites p) of None \<Rightarrow> Panics | Some c \<Rightarrow> Done (p\<lparr>plWrites := c\<rparr>))"

definition ClosePunches :: "WritePipeline \<Rightarrow> WritePipeline Attempt" where
  "ClosePunches p =
     (case closeChan (plPunches p) of None \<Rightarrow> Panics | Some c \<Rightarrow> Done (p\<lparr>plPunches := c\<rparr>))"

section \<open>The dispatcher\<close>

definition backTo :: "barrierRequest option \<Rightarrow> RunPC" where
  "backTo ret = (case ret of None \<Rightarrow> AtSelect | Some req \<Rightarrow> AtBarrier req)"

text \<open>\<open>acceptWrite\<close> up to its first dispatch, and what follows a completed send to the sniffer.\<close>

definition acceptWrite :: "barrierRequest option \<Rightarrow> WriteEvent \<Rightarrow> Dispatcher \<Rightarrow> Dispatcher" where
  "acceptWrite ret ev d =
     (if eSeq ev < dNextSeq d then d\<lparr>dAt := backTo ret\<rparr>
      else if eSeq ev > dNextSeq d
      then d\<lparr>dPending := (dPending d)(eSeq ev \<mapsto> ev), dAt := backTo ret\<rparr>
      else d\<lparr>dAt := AtDispatch ev ret\<rparr>)"

definition dispatched :: "barrierRequest option \<Rightarrow> WriteEvent \<Rightarrow> Dispatcher \<Rightarrow> Dispatcher" where
  "dispatched ret ev d =
     (let d1 = d\<lparr>dDispatchedSeq := eSeq ev, dNextSeq := dNextSeq d + 1\<rparr>
      in case dPending d1 (dNextSeq d1) of
           None \<Rightarrow> d1\<lparr>dAt := backTo ret\<rparr>
         | Some nx \<Rightarrow> d1\<lparr>dPending := (dPending d1)(dNextSeq d1 := None), dAt := AtDispatch nx ret\<rparr>)"

text \<open>The three cases of the select.\<close>

datatype SelectCase = PickWrites | PickOutput | PickBarriers

definition select_writes :: "Pipe \<Rightarrow> Pipe Attempt" where
  "select_writes P =
     (let p = ppPipe P; d = ppDisp P
      in case recv (plWrites p) of
           RecvBlocks \<Rightarrow> Blocks
         | RecvClosed \<Rightarrow>
             if dSnifferClosed d then Done (P\<lparr>ppDisp := d\<lparr>dWritesOpen := False\<rparr>\<rparr>)
             else (case closeChan (snIn (ppSniffer P)) of
                     None \<Rightarrow> Panics
                   | Some c \<Rightarrow> Done (P\<lparr>ppSniffer := (ppSniffer P)\<lparr>snIn := c\<rparr>,
                                      ppDisp := d\<lparr>dWritesOpen := False, dSnifferClosed := True\<rparr>\<rparr>))
         | Received ev c \<Rightarrow> Done (P\<lparr>ppPipe := p\<lparr>plWrites := c\<rparr>, ppDisp := acceptWrite None ev d\<rparr>))"

text \<open>The return closes \<open>p.observed\<close> (the deferred call).\<close>

definition run_return :: "Pipe \<Rightarrow> Pipe Attempt" where
  "run_return P =
     (case closeChan (plObserved (ppPipe P)) of
        None \<Rightarrow> Panics
      | Some c \<Rightarrow> Done (P\<lparr>ppPipe := (ppPipe P)\<lparr>plObserved := c\<rparr>, ppDisp := (ppDisp P)\<lparr>dAt := AtReturned\<rparr>\<rparr>))"

definition select_output :: "Pipe \<Rightarrow> Pipe Attempt" where
  "select_output P =
     (case recv (snOut (ppSniffer P)) of
        RecvBlocks \<Rightarrow> Blocks
      | RecvClosed \<Rightarrow> run_return P
      | Received ob c \<Rightarrow>
          Done (P\<lparr>ppSniffer := (ppSniffer P)\<lparr>snOut := c\<rparr>, ppDisp := (ppDisp P)\<lparr>dAt := AtSubmit ob\<rparr>\<rparr>))"

text \<open>\<open>p.barriers\<close> is never closed, so its receive has no such case.\<close>

definition select_barriers :: "Pipe \<Rightarrow> Pipe Attempt" where
  "select_barriers P =
     (case recv (plBarriers (ppPipe P)) of
        Received req c \<Rightarrow>
          Done (P\<lparr>ppPipe := (ppPipe P)\<lparr>plBarriers := c\<rparr>, ppDisp := (ppDisp P)\<lparr>dAt := AtBarrier req\<rparr>\<rparr>)
      | _ \<Rightarrow> Blocks)"

text \<open>One round of the loop of \<open>handleBarrier\<close>.\<close>

definition handleBarrier :: "barrierRequest \<Rightarrow> Pipe \<Rightarrow> Pipe Attempt" where
  "handleBarrier req P =
     (let p = ppPipe P; d = ppDisp P
      in if dDispatchedSeq d < bqTargetSeq req \<and> dWritesOpen d
         then (case recv (plWrites p) of
                 RecvBlocks \<Rightarrow> Blocks
               | RecvClosed \<Rightarrow> Done (P\<lparr>ppDisp := d\<lparr>dWritesOpen := False, dAt := AtSubmitBarrier req\<rparr>\<rparr>)
               | Received ev c \<Rightarrow>
                   Done (P\<lparr>ppPipe := p\<lparr>plWrites := c\<rparr>, ppDisp := acceptWrite (Some req) ev d\<rparr>))
         else Done (P\<lparr>ppDisp := d\<lparr>dAt := AtSubmitBarrier req\<rparr>\<rparr>))"

text \<open>After the loop: the sniffer's input is closed if it is still open, then the writer's.\<close>

definition run_finish :: "Pipe \<Rightarrow> Pipe Attempt" where
  "run_finish P =
     (case (if dSnifferClosed (ppDisp P) then Some (snIn (ppSniffer P)) else closeChan (snIn (ppSniffer P))) of
        None \<Rightarrow> Panics
      | Some c \<Rightarrow>
          (case Writer_CloseInput (ppWriter P) of
             Done w \<Rightarrow> run_return (P\<lparr>ppSniffer := (ppSniffer P)\<lparr>snIn := c\<rparr>, ppWriter := w\<rparr>)
           | _ \<Rightarrow> Panics))"

definition run_step :: "SelectCase \<Rightarrow> Pipe \<Rightarrow> Pipe Attempt" where
  "run_step pick P =
     (let d = ppDisp P
      in case dAt d of
           AtSelect \<Rightarrow>
             if \<not> dWritesOpen d then Done (P\<lparr>ppDisp := d\<lparr>dAt := AtFinish\<rparr>\<rparr>)
             else (case pick of
                     PickWrites \<Rightarrow> select_writes P
                   | PickOutput \<Rightarrow> select_output P
                   | PickBarriers \<Rightarrow> select_barriers P)
         | AtDispatch ev ret \<Rightarrow>
             (case send ev (snIn (ppSniffer P)) of
                Done c \<Rightarrow> Done (P\<lparr>ppSniffer := (ppSniffer P)\<lparr>snIn := c\<rparr>, ppDisp := dispatched ret ev d\<rparr>)
              | Blocks \<Rightarrow> Blocks
              | Panics \<Rightarrow> Panics)
         | AtSubmit ob \<Rightarrow>
             (case Writer_SubmitWrite ob (ppWriter P) of
                Done w \<Rightarrow> Done (P\<lparr>ppWriter := w, ppDisp := d\<lparr>dAt := AtObserve ob\<rparr>\<rparr>)
              | Blocks \<Rightarrow> Blocks
              | Panics \<Rightarrow> Panics)
         | AtObserve ob \<Rightarrow>
             (case send ob (plObserved (ppPipe P)) of
                Done c \<Rightarrow> Done (P\<lparr>ppPipe := (ppPipe P)\<lparr>plObserved := c\<rparr>,
                                ppDisp := d\<lparr>dDispatchedSeq := eSeq (oEvent ob), dAt := AtSelect\<rparr>\<rparr>)
              | Blocks \<Rightarrow> Blocks
              | Panics \<Rightarrow> Panics)
         | AtBarrier req \<Rightarrow> handleBarrier req P
         | AtSubmitBarrier req \<Rightarrow>
             (case Writer_SubmitBarrier (bqDone req) (ppWriter P) of
                Done w \<Rightarrow> Done (P\<lparr>ppWriter := w, ppDisp := d\<lparr>dAt := AtSelect\<rparr>\<rparr>)
              | Blocks \<Rightarrow> Blocks
              | Panics \<Rightarrow> Panics)
         | AtFinish \<Rightarrow> run_finish P
         | AtReturned \<Rightarrow> Blocks)"

text \<open>
  One iteration of \<open>runPunches\<close>; the boolean says whether it goes on.  The result of
  \<open>writer.SubmitPunch\<close> is ignored.
\<close>

definition runPunches_step :: "Pipe \<Rightarrow> (bool \<times> Pipe) Attempt" where
  "runPunches_step P =
     (case recv (plPunches (ppPipe P)) of
        RecvBlocks \<Rightarrow> Blocks
      | RecvClosed \<Rightarrow>
          (case Writer_ClosePunchInput (ppWriter P) of
             Done w \<Rightarrow> Done (False, P\<lparr>ppWriter := w\<rparr>)
           | _ \<Rightarrow> Panics)
      | Received req c \<Rightarrow>
          (case Writer_SubmitPunch req (ppWriter P) of
             Done (_, w) \<Rightarrow> Done (True, P\<lparr>ppPipe := (ppPipe P)\<lparr>plPunches := c\<rparr>, ppWriter := w\<rparr>)
           | _ \<Rightarrow> Panics))"

end
