(* ===== verification/PipelineSpec.thy ===== *)
theory PipelineSpec
  imports Pipeline WriterSpec
begin

text \<open>
  What the pipeline promises about order, under every interleaving of the goroutines around it:
  the host (\<open>SubmitWrite\<close>, \<open>Sync\<close>), the fallback senders, the dispatcher, the sniffer, the writer, the
  reconciler that empties \<open>p.observed\<close>, and the shutdown.  A run is a trace of labelled steps; the
  histories the theorems speak of are projections of the trace.
\<close>

section \<open>Interleavings\<close>

datatype PipeLabel =
    LSubmit WriteEvent
  | LSent WriteEvent
  | LForward ObservedWrite
  | LBarrier nat
  | LWriter writerCommand
  | LQuiet

definition runLabel :: "Pipe \<Rightarrow> PipeLabel" where
  "runLabel P =
     (case dAt (ppDisp P) of
        AtDispatch ev _ \<Rightarrow> LSent ev
      | AtSubmit ob \<Rightarrow> LForward ob
      | AtSubmitBarrier req \<Rightarrow> LBarrier (bqDone req)
      | _ \<Rightarrow> LQuiet)"

inductive pipeStep :: "Pipe \<Rightarrow> PipeLabel \<Rightarrow> Pipe \<Rightarrow> bool" where
  submit: "Pipeline_SubmitWrite ev (ppPipe P) = Done (None, p) \<Longrightarrow> pipeStep P (LSubmit ev) (P\<lparr>ppPipe := p\<rparr>)"
| fallback: "fallbackSend i (ppPipe P) = Done p \<Longrightarrow> pipeStep P LQuiet (P\<lparr>ppPipe := p\<rparr>)"
| sync_wait: "Sync_wait target b (ppPipe P) = Done p \<Longrightarrow> pipeStep P LQuiet (P\<lparr>ppPipe := p\<rparr>)"
| sync_send: "Sync_send i (ppPipe P) = Done p \<Longrightarrow> pipeStep P LQuiet (P\<lparr>ppPipe := p\<rparr>)"
| mark: "pipeStep P LQuiet (P\<lparr>ppPipe := CloseWrites_mark (ppPipe P)\<rparr>)"
| close: "plClosing (ppPipe P) \<Longrightarrow> CloseWrites_close (ppPipe P) = Done p \<Longrightarrow>
    pipeStep P LQuiet (P\<lparr>ppPipe := p\<rparr>)"
| dispatcher: "run_step pick P = Done P' \<Longrightarrow> pipeStep P (runLabel P) P'"
| sniffer: "Sniffer_run_step (ppSniffer P) = Some s \<Longrightarrow> pipeStep P LQuiet (P\<lparr>ppSniffer := s\<rparr>)"
| writer: "recv (wIn (ppWriter P)) = Received cmd c \<Longrightarrow>
    pipeStep P (LWriter cmd) (P\<lparr>ppWriter := processCommand io cmd ((ppWriter P)\<lparr>wIn := c\<rparr>)\<rparr>)"
| reconciler: "recv (plObserved (ppPipe P)) = Received ob c \<Longrightarrow>
    pipeStep P LQuiet (P\<lparr>ppPipe := (ppPipe P)\<lparr>plObserved := c\<rparr>\<rparr>)"

definition startPipe :: "File \<Rightarrow> SHMDisk \<Rightarrow> Pipe" where
  "startPipe disk s =
     \<lparr>ppPipe = NewWritePipeline, ppDisp = startDispatcher, ppSniffer = NewSniffer, ppWriter = NewWriter disk s\<rparr>"

inductive pipeReach :: "PipeLabel list \<Rightarrow> Pipe \<Rightarrow> bool" where
  start: "pipeReach [] (startPipe disk s)"
| step: "pipeReach tr P \<Longrightarrow> pipeStep P l P' \<Longrightarrow> pipeReach (tr @ [l]) P'"

inductive_cases pipeStepE: "pipeStep P l P'"

section \<open>Histories\<close>

fun submittedBy :: "PipeLabel \<Rightarrow> WriteEvent list" where
  "submittedBy (LSubmit ev) = [ev]"
| "submittedBy _ = []"

fun sentBy :: "PipeLabel \<Rightarrow> WriteEvent list" where
  "sentBy (LSent ev) = [ev]"
| "sentBy _ = []"

fun forwardedBy :: "PipeLabel \<Rightarrow> ObservedWrite list" where
  "forwardedBy (LForward ob) = [ob]"
| "forwardedBy _ = []"

fun commandedBy :: "PipeLabel \<Rightarrow> writerCommand list" where
  "commandedBy (LForward ob) = [writerWrite ob]"
| "commandedBy (LBarrier b) = [writerBarrier b]"
| "commandedBy _ = []"

fun handledBy :: "PipeLabel \<Rightarrow> writerCommand list" where
  "handledBy (LWriter cmd) = [cmd]"
| "handledBy _ = []"

definition submitted :: "PipeLabel list \<Rightarrow> WriteEvent list" where
  "submitted tr = concat (map submittedBy tr)"

definition sent :: "PipeLabel list \<Rightarrow> WriteEvent list" where
  "sent tr = concat (map sentBy tr)"

definition forwarded :: "PipeLabel list \<Rightarrow> ObservedWrite list" where
  "forwarded tr = concat (map forwardedBy tr)"

definition commanded :: "PipeLabel list \<Rightarrow> writerCommand list" where
  "commanded tr = concat (map commandedBy tr)"

definition handled :: "PipeLabel list \<Rightarrow> writerCommand list" where
  "handled tr = concat (map handledBy tr)"

lemmas histories = submitted_def sent_def forwarded_def commanded_def handled_def

text \<open>The write that the dispatcher is sending, and the observation that it is forwarding.\<close>

definition sending :: "Dispatcher \<Rightarrow> WriteEvent list" where
  "sending d = (case dAt d of AtDispatch ev _ \<Rightarrow> [ev] | _ \<Rightarrow> [])"

definition forwarding :: "Dispatcher \<Rightarrow> ObservedWrite list" where
  "forwarding d = (case dAt d of AtSubmit ob \<Rightarrow> [ob] | _ \<Rightarrow> [])"

definition holding :: "Sniffer \<Rightarrow> ObservedWrite list" where
  "holding s = (case snHeld s of Some ob \<Rightarrow> [ob] | None \<Rightarrow> [])"

section \<open>The effect of a dispatcher step, by where it stands\<close>

lemmas attempt_splits = Attempt.splits RecvResult.splits option.splits if_splits

lemma sending_back [simp]: "backTo ret \<noteq> AtDispatch ev r" "AtDispatch ev r \<noteq> backTo ret"
  "backTo ret \<noteq> AtSubmit ob" "AtSubmit ob \<noteq> backTo ret"
  by (auto simp: backTo_def split: option.splits)

text \<open>A step of the dispatcher changes the reorder state in one of three ways.\<close>

inductive reorderStep :: "WritePipeline \<Rightarrow> Dispatcher \<Rightarrow> WritePipeline \<Rightarrow> Dispatcher \<Rightarrow> bool" where
  accept: "chItems (plWrites p) = ev # chItems (plWrites p') \<Longrightarrow> plFallback p' = plFallback p \<Longrightarrow>
    sending d = [] \<Longrightarrow> reorderStep p d p' (acceptWrite ret ev d)"
| dispatch: "dAt d = AtDispatch ev ret \<Longrightarrow> reorderStep p d p (dispatched ret ev d)"
| other: "chItems (plWrites p') = chItems (plWrites p) \<Longrightarrow> plFallback p' = plFallback p \<Longrightarrow>
    dPending d' = dPending d \<Longrightarrow> dNextSeq d' = dNextSeq d \<Longrightarrow> sending d = [] \<Longrightarrow> sending d' = [] \<Longrightarrow>
    reorderStep p d p' d'"

lemma select_writes_reorder:
  assumes "select_writes P = Done P'" and "dAt (ppDisp P) = AtSelect"
  shows "reorderStep (ppPipe P) (ppDisp P) (ppPipe P') (ppDisp P')"
proof (cases "recv (plWrites (ppPipe P))")
  case (Received ev c)
  then have "chItems (plWrites (ppPipe P)) = ev # chItems c"
    by (simp add: recv_Received)
  then show ?thesis
    using assms Received by (auto simp: select_writes_def sending_def intro!: reorderStep.accept)
next
  case RecvClosed
  then show ?thesis
    using assms by (auto simp: select_writes_def sending_def Let_def intro!: reorderStep.other split: if_splits option.splits)
next
  case RecvBlocks
  then show ?thesis using assms by (simp add: select_writes_def)
qed

lemma handleBarrier_reorder:
  assumes "handleBarrier req P = Done P'" and "dAt (ppDisp P) = AtBarrier req"
  shows "reorderStep (ppPipe P) (ppDisp P) (ppPipe P') (ppDisp P')"
proof (cases "recv (plWrites (ppPipe P))")
  case (Received ev c)
  then have it: "chItems (plWrites (ppPipe P)) = ev # chItems c"
    by (simp add: recv_Received)
  show ?thesis
  proof (cases "dDispatchedSeq (ppDisp P) < bqTargetSeq req \<and> dWritesOpen (ppDisp P)")
    case True
    then show ?thesis
      using assms Received it by (auto simp: handleBarrier_def sending_def intro!: reorderStep.accept)
  next
    case False
    then show ?thesis
      using assms by (auto simp: handleBarrier_def sending_def Let_def intro!: reorderStep.other)
  qed
next
  case RecvClosed
  then show ?thesis
    using assms by (auto simp: handleBarrier_def sending_def Let_def intro!: reorderStep.other split: if_splits)
next
  case RecvBlocks
  then show ?thesis
    using assms by (auto simp: handleBarrier_def sending_def Let_def intro!: reorderStep.other split: if_splits)
qed

lemma run_return_fields:
  assumes "run_return P = Done P'"
  shows "ppWriter P' = ppWriter P" "ppSniffer P' = ppSniffer P" "plWrites (ppPipe P') = plWrites (ppPipe P)"
    "plFallback (ppPipe P') = plFallback (ppPipe P)" "ppDisp P' = (ppDisp P)\<lparr>dAt := AtReturned\<rparr>"
  using assms by (auto simp: run_return_def split: option.splits)

lemma run_finish_fields:
  assumes "run_finish P = Done P'"
  shows "Writer_CloseInput (ppWriter P) = Done (ppWriter P')" "snOut (ppSniffer P') = snOut (ppSniffer P)"
    "chItems (snIn (ppSniffer P')) = chItems (snIn (ppSniffer P))" "snHeld (ppSniffer P') = snHeld (ppSniffer P)"
    "snScanner (ppSniffer P') = snScanner (ppSniffer P)"
    "plWrites (ppPipe P') = plWrites (ppPipe P)" "plFallback (ppPipe P') = plFallback (ppPipe P)"
    "ppDisp P' = (ppDisp P)\<lparr>dAt := AtReturned\<rparr>"
proof -
  obtain c w where c: "(if dSnifferClosed (ppDisp P) then Some (snIn (ppSniffer P)) else closeChan (snIn (ppSniffer P))) = Some c"
    and w: "Writer_CloseInput (ppWriter P) = Done w"
    and r: "run_return (P\<lparr>ppSniffer := (ppSniffer P)\<lparr>snIn := c\<rparr>, ppWriter := w\<rparr>) = Done P'"
    using assms unfolding run_finish_def by (auto split: option.splits Attempt.splits)
  have "chItems c = chItems (snIn (ppSniffer P))"
    using c by (auto simp: closeChan_def split: if_splits)
  then show "Writer_CloseInput (ppWriter P) = Done (ppWriter P')" "snOut (ppSniffer P') = snOut (ppSniffer P)"
    "chItems (snIn (ppSniffer P')) = chItems (snIn (ppSniffer P))" "snHeld (ppSniffer P') = snHeld (ppSniffer P)"
    "snScanner (ppSniffer P') = snScanner (ppSniffer P)"
    "plWrites (ppPipe P') = plWrites (ppPipe P)" "plFallback (ppPipe P') = plFallback (ppPipe P)"
    "ppDisp P' = (ppDisp P)\<lparr>dAt := AtReturned\<rparr>"
    using w run_return_fields [OF r] by simp_all
qed

lemma run_step_reorder:
  assumes "run_step pick P = Done P'"
  shows "reorderStep (ppPipe P) (ppDisp P) (ppPipe P') (ppDisp P')"
proof (cases "dAt (ppDisp P)")
  case AtSelect
  show ?thesis
  proof (cases "dWritesOpen (ppDisp P)")
    case False
    then show ?thesis
      using assms AtSelect by (auto simp: run_step_def sending_def intro!: reorderStep.other)
  next
    case True
    then have r: "(case pick of PickWrites \<Rightarrow> select_writes P | PickOutput \<Rightarrow> select_output P
        | PickBarriers \<Rightarrow> select_barriers P) = Done P'"
      using assms AtSelect by (simp add: run_step_def)
    show ?thesis
    proof (cases pick)
      case PickWrites
      then show ?thesis using r AtSelect select_writes_reorder by simp
    next
      case PickOutput
      show ?thesis
      proof (cases "recv (snOut (ppSniffer P))")
        case RecvClosed
        then have "run_return P = Done P'"
          using r PickOutput by (simp add: select_output_def)
        note run_return_fields [OF this]
        then show ?thesis using AtSelect by (intro reorderStep.other) (simp_all add: sending_def)
      qed (use r AtSelect PickOutput in \<open>auto simp: select_output_def sending_def intro!: reorderStep.other\<close>)
    next
      case PickBarriers
      then show ?thesis
        using r AtSelect
        by (auto simp: select_barriers_def sending_def intro!: reorderStep.other split: RecvResult.splits)
    qed
  qed
next
  case (AtBarrier req)
  then show ?thesis using assms handleBarrier_reorder by (auto simp: run_step_def)
next
  case AtFinish
  then show ?thesis
    using assms run_finish_fields [of P P'] by (auto simp: run_step_def sending_def intro!: reorderStep.other)
next
  case (AtDispatch ev ret)
  then have "ppPipe P' = ppPipe P" "ppDisp P' = dispatched ret ev (ppDisp P)"
    using assms by (auto simp: run_step_def split: Attempt.splits)
  then show ?thesis
    using reorderStep.dispatch [OF AtDispatch, of "ppPipe P"] by simp
next
  case (AtSubmit ob)
  then show ?thesis
    using assms by (auto simp: run_step_def sending_def intro!: reorderStep.other split: Attempt.splits)
next
  case (AtObserve ob)
  then show ?thesis
    using assms by (auto simp: run_step_def sending_def intro!: reorderStep.other split: Attempt.splits)
next
  case (AtSubmitBarrier req)
  then show ?thesis
    using assms by (auto simp: run_step_def sending_def intro!: reorderStep.other split: Attempt.splits)
next
  case AtReturned
  then show ?thesis using assms by (simp add: run_step_def)
qed

section \<open>The reorder map\<close>

text \<open>
  \<open>S\<close> is what was submitted, \<open>T\<close> what was sent to the sniffer.  The last part needs distinct sequence
  numbers: then no write disappears.
\<close>

definition inFlight :: "WritePipeline \<Rightarrow> Dispatcher \<Rightarrow> WriteEvent set" where
  "inFlight p d = set (chItems (plWrites p)) \<union> set (plFallback p) \<union> ran (dPending d) \<union> set (sending d)"

definition reorderInv :: "WriteEvent list \<Rightarrow> WriteEvent list \<Rightarrow> WritePipeline \<Rightarrow> Dispatcher \<Rightarrow> bool" where
  "reorderInv S T p d \<longleftrightarrow>
     map eSeq T = map word_of_nat [1..<Suc (length T)] \<and>
     dNextSeq d = word_of_nat (Suc (length T)) \<and>
     (\<forall>k e. dPending d k = Some e \<longrightarrow> eSeq e = k \<and> dNextSeq d < k) \<and>
     (\<forall>ev \<in> set (sending d). eSeq ev = dNextSeq d) \<and>
     set T \<union> inFlight p d \<subseteq> set S \<and>
     (inj_on eSeq (set S) \<and> 0 \<notin> eSeq ` set S \<longrightarrow> set S \<subseteq> set T \<union> inFlight p d)"

lemma reorderInv_seq:
  assumes "reorderInv S T p d" and "i < length T"
  shows "eSeq (T ! i) = word_of_nat (Suc i)"
proof -
  have "map eSeq T ! i = map word_of_nat [1..<Suc (length T)] ! i"
    using assms(1) by (simp add: reorderInv_def del: upt_Suc)
  then show ?thesis using assms(2) by (simp del: upt_Suc)
qed

text \<open>A write whose number is below the next one has already been sent.\<close>

lemma reorderInv_old:
  assumes "reorderInv S T p d" and "eSeq ev < dNextSeq d" and "eSeq ev \<noteq> 0"
  shows "\<exists>e \<in> set T. eSeq e = eSeq ev"
proof -
  let ?n = "unat (eSeq ev)"
  have n: "dNextSeq d = word_of_nat (Suc (length T))"
    using assms(1) by (simp add: reorderInv_def)
  have "unat (dNextSeq d) \<le> Suc (length T)"
    unfolding n by (metis unat_of_nat mod_less_eq_dividend)
  then have "?n < Suc (length T)" "0 < ?n"
    using assms(2,3) by (auto simp: word_less_nat_alt unat_gt_0)
  then have i: "?n - 1 < length T" "Suc (?n - 1) = ?n" by simp_all
  have "eSeq (T ! (?n - 1)) = word_of_nat ?n"
    using reorderInv_seq [OF assms(1) i(1)] i(2) by simp
  then have "eSeq (T ! (?n - 1)) = eSeq ev" by simp
  then show ?thesis using i(1) nth_mem by blast
qed

lemma word_less_not_next:
  fixes a k :: u64
  assumes "a < k" and "k \<noteq> a + 1"
  shows "a + 1 < k"
proof -
  have "a + 1 \<noteq> 0"
  proof
    assume "a + 1 = 0"
    then have "a = - 1" by (metis add.inverse_unique add.commute)
    then show False using assms(1) by simp
  qed
  then have u: "unat (a + 1) = unat a + 1" by (rule unat_plus_one)
  moreover have "unat k \<noteq> unat (a + 1)"
    using assms(2) by (auto dest: word_unat_eq_iff [THEN iffD2])
  ultimately show ?thesis using assms(1) by (simp add: word_less_nat_alt)
qed

lemma reorderInv_pending:
  "reorderInv S T p d \<Longrightarrow> dPending d k = Some e \<Longrightarrow> eSeq e = k \<and> dNextSeq d < k"
  unfolding reorderInv_def by blast

lemma ran_take_out:
  assumes "m k = Some e"
  shows "ran (m(k := None)) \<union> {e} = ran m"
proof
  show "ran m \<subseteq> ran (m(k := None)) \<union> {e}"
  proof
    fix x assume "x \<in> ran m"
    then obtain j where j: "m j = Some x" by (auto simp: ran_def)
    show "x \<in> ran (m(k := None)) \<union> {e}"
    proof (cases "j = k")
      case False
      then have "(m(k := None)) j = Some x" using j by simp
      then show ?thesis by (blast intro: ranI)
    qed (use assms j in simp)
  qed
qed (use assms in \<open>auto simp: ran_def\<close>)

lemma reorderInv_frame:
  assumes "reorderInv S T p d" and "dNextSeq d' = dNextSeq d"
    and "\<And>k e. dPending d' k = Some e \<Longrightarrow> eSeq e = k \<and> dNextSeq d < k"
    and "\<And>ev. ev \<in> set (sending d') \<Longrightarrow> eSeq ev = dNextSeq d"
    and "inFlight p' d' \<subseteq> inFlight p d"
    and "inj_on eSeq (set S) \<Longrightarrow> 0 \<notin> eSeq ` set S \<Longrightarrow> inFlight p d \<subseteq> set T \<union> inFlight p' d'"
  shows "reorderInv S T p' d'"
  using assms unfolding reorderInv_def by (simp del: upt_Suc) blast

lemma accept_reorderInv:
  assumes inv: "reorderInv S T p d" and it: "chItems (plWrites p) = ev # chItems (plWrites p')"
    and fb: "plFallback p' = plFallback p" and idle: "sending d = []"
  shows "reorderInv S T p' (acceptWrite ret ev d)"
proof -
  have fl: "inFlight p d = insert ev (set (chItems (plWrites p')) \<union> set (plFallback p') \<union> ran (dPending d))"
    using it fb idle by (auto simp: inFlight_def)
  have evS: "ev \<in> set S" using inv fl by (auto simp: reorderInv_def)
  consider (old) "eSeq ev < dNextSeq d" | (later) "dNextSeq d < eSeq ev" | (now) "eSeq ev = dNextSeq d"
    by (metis linorder_neqE)
  then show ?thesis
  proof cases
    case old
    have d': "sending (acceptWrite ret ev d) = []" "dPending (acceptWrite ret ev d) = dPending d"
        "dNextSeq (acceptWrite ret ev d) = dNextSeq d"
      using old by (auto simp: acceptWrite_def sending_def split: RunPC.splits)
    have "ev \<in> set T" if u: "inj_on eSeq (set S)" "0 \<notin> eSeq ` set S"
    proof -
      obtain e where e: "e \<in> set T" "eSeq e = eSeq ev"
        using reorderInv_old [OF inv old] evS u(2) by (metis imageI)
      moreover have "e \<in> set S" using e(1) inv by (auto simp: reorderInv_def)
      ultimately show ?thesis using u(1) evS by (metis inj_onD)
    qed
    then show ?thesis
      using inv d' fl by (auto simp: reorderInv_def inFlight_def)
  next
    case later
    then have d': "sending (acceptWrite ret ev d) = []"
        "dPending (acceptWrite ret ev d) = (dPending d)(eSeq ev \<mapsto> ev)" "dNextSeq (acceptWrite ret ev d) = dNextSeq d"
      by (auto simp: acceptWrite_def sending_def split: RunPC.splits)
    have lost: "e = ev" if "inj_on eSeq (set S)" "dPending d (eSeq ev) = Some e" for e
    proof -
      have "eSeq e = eSeq ev" "e \<in> set S"
        using inv that(2) by (auto simp: reorderInv_def inFlight_def intro: ranI)
      then show ?thesis using that(1) evS by (metis inj_onD)
    qed
    have r1: "ran ((dPending d)(eSeq ev \<mapsto> ev)) \<subseteq> insert ev (ran (dPending d))"
      by (auto simp: ran_def)
    have r2: "insert ev (ran (dPending d)) \<subseteq> ran ((dPending d)(eSeq ev \<mapsto> ev))" if "inj_on eSeq (set S)"
    proof
      fix e assume "e \<in> insert ev (ran (dPending d))"
      then consider "e = ev" | k where "dPending d k = Some e" by (auto simp: ran_def)
      then show "e \<in> ran ((dPending d)(eSeq ev \<mapsto> ev))"
      proof cases
        case (2 k)
        then show ?thesis using lost [OF that] by (cases "k = eSeq ev") (auto simp: ran_def)
      qed (simp add: ran_def, blast)
    qed
    have keys: "eSeq e = k \<and> dNextSeq d < k" if "((dPending d)(eSeq ev \<mapsto> ev)) k = Some e" for k e
      using that later reorderInv_pending [OF inv, of k e] by (cases "k = eSeq ev") simp_all
    have fl': "inFlight p' (acceptWrite ret ev d) =
        set (chItems (plWrites p')) \<union> set (plFallback p') \<union> ran ((dPending d)(eSeq ev \<mapsto> ev))"
      by (simp add: inFlight_def d')
    show ?thesis
    proof (rule reorderInv_frame [OF inv d'(3)])
      show "inFlight p' (acceptWrite ret ev d) \<subseteq> inFlight p d"
        unfolding fl fl' using r1 by blast
      show "inFlight p d \<subseteq> set T \<union> inFlight p' (acceptWrite ret ev d)" if "inj_on eSeq (set S)"
        unfolding fl fl' using r2 [OF that] by blast
      show "eSeq e = k \<and> dNextSeq d < k" if "dPending (acceptWrite ret ev d) k = Some e" for k e
        using keys that unfolding d'(2) by blast
      show "eSeq e = dNextSeq d" if "e \<in> set (sending (acceptWrite ret ev d))" for e
        using that by (simp add: d'(1))
    qed
  next
    case now
    then have d': "sending (acceptWrite ret ev d) = [ev]" "dPending (acceptWrite ret ev d) = dPending d"
        "dNextSeq (acceptWrite ret ev d) = dNextSeq d"
      by (auto simp: acceptWrite_def sending_def)
    show ?thesis using inv d' fl now by (auto simp: reorderInv_def inFlight_def)
  qed
qed

lemma dispatch_reorderInv:
  assumes inv: "reorderInv S T p d" and at: "dAt d = AtDispatch ev ret"
  shows "reorderInv S (T @ [ev]) p (dispatched ret ev d)"
proof -
  define n where "n = dNextSeq d + 1"
  define d' where "d' = dispatched ret ev d"
  have snd: "sending d = [ev]" using at by (simp add: sending_def)
  have nx: "dNextSeq d' = n"
    by (auto simp: d'_def dispatched_def n_def Let_def split: option.splits)
  have pend: "dPending d' = (dPending d)(n := None)"
    by (auto simp: d'_def dispatched_def n_def Let_def fun_eq_iff split: option.splits)
  have snd': "set (sending d') = (case dPending d n of None \<Rightarrow> {} | Some e \<Rightarrow> {e})"
    by (auto simp: d'_def dispatched_def n_def Let_def sending_def split: option.splits RunPC.splits)
  have ran: "ran (dPending d') \<union> set (sending d') = ran (dPending d)"
  proof (cases "dPending d n")
    case None
    then have "dPending d' = dPending d" by (simp add: pend fun_upd_idem)
    then show ?thesis using snd' None by simp
  next
    case (Some e)
    then show ?thesis using ran_take_out [of "dPending d" n e] by (simp add: pend snd')
  qed
  have fl: "inFlight p d = insert ev (inFlight p d')"
    using ran snd by (auto simp: inFlight_def)
  have "n = word_of_nat (Suc (length (T @ [ev])))"
    using inv by (simp add: n_def reorderInv_def)
  moreover have "map eSeq (T @ [ev]) = map word_of_nat [1..<Suc (length (T @ [ev]))]"
    using inv snd by (simp add: reorderInv_def)
  moreover have "n < k" if "dPending d k = Some e" "k \<noteq> n" for k e
    using word_less_not_next [of "dNextSeq d" k] reorderInv_pending [OF inv that(1)] that(2) by (simp add: n_def)
  ultimately show ?thesis
    using inv fl nx pend snd' unfolding d'_def [symmetric] reorderInv_def
    by (auto split: option.splits if_splits)
qed

lemma reorderStep_inv:
  assumes "reorderInv S T p d" and "reorderStep p d p' d'"
  shows "reorderInv S (T @ sending d) p' d'"
  using assms(2,1)
proof cases
  case (accept ev ret)
  then show ?thesis using accept_reorderInv [OF assms(1)] by simp
next
  case (dispatch ev ret)
  then show ?thesis using dispatch_reorderInv [OF assms(1)] by (simp add: sending_def)
next
  case other
  then show ?thesis using assms(1) by (auto simp: reorderInv_def inFlight_def simp del: upt_Suc)
qed

lemma reorderInv_submit:
  assumes inv: "reorderInv S T p d" and fl: "inFlight p' d = insert ev (inFlight p d)"
  shows "reorderInv (S @ [ev]) T p' d"
proof -
  have "inj_on eSeq (set S) \<and> 0 \<notin> eSeq ` set S"
    if "inj_on eSeq (set (S @ [ev])) \<and> 0 \<notin> eSeq ` set (S @ [ev])"
    using that by (auto simp: inj_on_insert)
  moreover have "set (S @ [ev]) = insert ev (set S)" by simp
  ultimately show ?thesis
    using inv fl unfolding reorderInv_def by blast
qed

section \<open>The effect of the steps on the queues behind the dispatcher\<close>

lemma recv_items: "recv c = Received a c' \<Longrightarrow> chItems c = a # chItems c'"
  by (simp add: recv_Received)

lemma Writer_submit_items:
  "Writer_submit cmd w = Done w' \<Longrightarrow> chItems (wIn w') = chItems (wIn w) @ [cmd]"
  by (auto simp: Writer_submit_def chan_simps split: Attempt.splits)

lemma Writer_CloseInput_items:
  "Writer_CloseInput w = Done w' \<Longrightarrow> chItems (wIn w') = chItems (wIn w)"
  by (auto simp: Writer_CloseInput_def closeChan_def split: if_splits)

text \<open>
  What the dispatcher appends to the sniffer's input, takes from its output and submits to the
  writer in one step.
\<close>

definition queueStep :: "Pipe \<Rightarrow> Pipe \<Rightarrow> bool" where
  "queueStep P P' \<longleftrightarrow>
     chItems (snIn (ppSniffer P')) = chItems (snIn (ppSniffer P)) @ sentBy (runLabel P) \<and>
     snHeld (ppSniffer P') = snHeld (ppSniffer P) \<and> snScanner (ppSniffer P') = snScanner (ppSniffer P) \<and>
     forwardedBy (runLabel P) @ forwarding (ppDisp P') @ chItems (snOut (ppSniffer P'))
       = forwarding (ppDisp P) @ chItems (snOut (ppSniffer P)) \<and>
     chItems (wIn (ppWriter P')) = chItems (wIn (ppWriter P)) @ commandedBy (runLabel P)"

lemmas queue_simps = queueStep_def runLabel_def forwarding_def

lemma acceptWrite_forwarding [simp]: "forwarding (acceptWrite ret ev d) = []"
  by (auto simp: acceptWrite_def forwarding_def split: RunPC.splits)

lemma dispatched_forwarding [simp]: "forwarding (dispatched ret ev d) = []"
  by (auto simp: dispatched_def forwarding_def Let_def split: RunPC.splits option.splits)

lemma select_writes_queues:
  assumes "select_writes P = Done P'" and "dAt (ppDisp P) = AtSelect"
  shows "queueStep P P'"
proof (cases "recv (plWrites (ppPipe P))")
  case (Received ev c)
  then have "P' = P\<lparr>ppPipe := (ppPipe P)\<lparr>plWrites := c\<rparr>, ppDisp := acceptWrite None ev (ppDisp P)\<rparr>"
    using assms by (simp add: select_writes_def)
  then show ?thesis using assms(2) by (simp add: queueStep_def runLabel_def) (simp add: forwarding_def)
next
  case RecvClosed
  then show ?thesis
    using assms by (auto simp: select_writes_def queue_simps Let_def closeChan_def split: if_splits)
next
  case RecvBlocks
  then show ?thesis using assms by (simp add: select_writes_def)
qed

lemma handleBarrier_queues:
  assumes "handleBarrier req P = Done P'" and "dAt (ppDisp P) = AtBarrier req"
  shows "queueStep P P'"
proof -
  have f: "forwarding (ppDisp P) = []" "runLabel P = LQuiet"
    using assms(2) by (simp_all add: queue_simps)
  have "ppSniffer P' = ppSniffer P" "ppWriter P' = ppWriter P" "forwarding (ppDisp P') = []"
    using assms(1)
    by (auto simp: handleBarrier_def Let_def forwarding_def [of "_\<lparr>dAt := _\<rparr>"]
        forwarding_def [of "_\<lparr>dWritesOpen := _, dAt := _\<rparr>"] split: if_splits RecvResult.splits)
  then show ?thesis using f by (simp add: queueStep_def)
qed

lemma run_step_queues:
  assumes "run_step pick P = Done P'"
  shows "queueStep P P'"
proof (cases "dAt (ppDisp P)")
  case AtSelect
  show ?thesis
  proof (cases "dWritesOpen (ppDisp P)")
    case False
    then show ?thesis using assms AtSelect by (auto simp: run_step_def queue_simps)
  next
    case True
    then have r: "(case pick of PickWrites \<Rightarrow> select_writes P | PickOutput \<Rightarrow> select_output P
        | PickBarriers \<Rightarrow> select_barriers P) = Done P'"
      using assms AtSelect by (simp add: run_step_def)
    show ?thesis
    proof (cases pick)
      case PickWrites
      then show ?thesis using r AtSelect select_writes_queues by simp
    next
      case PickOutput
      show ?thesis
      proof (cases "recv (snOut (ppSniffer P))")
        case RecvClosed
        then have "run_return P = Done P'"
          using r PickOutput by (simp add: select_output_def)
        from run_return_fields [OF this] show ?thesis using AtSelect by (simp add: queue_simps)
      next
        case (Received ob c)
        then show ?thesis
          using r AtSelect PickOutput recv_items [OF Received] by (auto simp: select_output_def queue_simps)
      qed (use r PickOutput in \<open>simp add: select_output_def\<close>)
    next
      case PickBarriers
      then show ?thesis
        using r AtSelect by (auto simp: select_barriers_def queue_simps split: RecvResult.splits)
    qed
  qed
next
  case (AtBarrier req)
  then show ?thesis using assms handleBarrier_queues by (auto simp: run_step_def)
next
  case AtFinish
  then have "run_finish P = Done P'" using assms by (simp add: run_step_def)
  from run_finish_fields [OF this] show ?thesis
    using AtFinish Writer_CloseInput_items by (simp add: queue_simps)
next
  case (AtDispatch ev ret)
  then obtain c where "send ev (snIn (ppSniffer P)) = Done c"
      and "P' = P\<lparr>ppSniffer := (ppSniffer P)\<lparr>snIn := c\<rparr>, ppDisp := dispatched ret ev (ppDisp P)\<rparr>"
    using assms by (auto simp: run_step_def split: Attempt.splits)
  then show ?thesis
    using AtDispatch by (simp add: queueStep_def runLabel_def send_Done) (simp add: forwarding_def)
next
  case (AtSubmit ob)
  then obtain w where "Writer_SubmitWrite ob (ppWriter P) = Done w"
      and "P' = P\<lparr>ppWriter := w, ppDisp := (ppDisp P)\<lparr>dAt := AtObserve ob\<rparr>\<rparr>"
    using assms by (auto simp: run_step_def split: Attempt.splits)
  then show ?thesis
    using AtSubmit Writer_submit_items by (simp add: queue_simps Writer_SubmitWrite_def)
next
  case (AtObserve ob)
  then show ?thesis using assms by (auto simp: run_step_def queue_simps split: Attempt.splits)
next
  case (AtSubmitBarrier req)
  then obtain w where "Writer_SubmitBarrier (bqDone req) (ppWriter P) = Done w"
      and "P' = P\<lparr>ppWriter := w, ppDisp := (ppDisp P)\<lparr>dAt := AtSelect\<rparr>\<rparr>"
    using assms by (auto simp: run_step_def split: Attempt.splits)
  then show ?thesis
    using AtSubmitBarrier Writer_submit_items by (simp add: queue_simps Writer_SubmitBarrier_def)
next
  case AtReturned
  then show ?thesis using assms by (simp add: run_step_def)
qed

section \<open>The invariant of a run\<close>

text \<open>
  Everything sent is in the sniffer's input or has been observed, in order; everything observed has
  been forwarded or is on its way.
\<close>

definition fifoInv :: "WriteEvent list \<Rightarrow> ObservedWrite list \<Rightarrow> Dispatcher \<Rightarrow> Sniffer \<Rightarrow> bool" where
  "fifoInv T F d s \<longleftrightarrow>
     (\<exists>seen. T = seen @ chItems (snIn s) \<and>
        observeAll seen NewTSScanner = (F @ forwarding d @ chItems (snOut s) @ holding s, snScanner s))"

lemma sniffer_fifoInv:
  assumes "fifoInv T F d s" and "Sniffer_run_step s = Some s'"
  shows "fifoInv T F d s'"
proof (cases "snHeld s")
  case (Some ob)
  then obtain c where "\<not> snDone s" "send ob (snOut s) = Done c" "s' = s\<lparr>snOut := c, snHeld := None\<rparr>"
    using assms(2) by (auto simp: Sniffer_run_step_def split: if_splits Attempt.splits)
  then show ?thesis
    using assms(1) Some by (simp add: fifoInv_def holding_def send_Done)
next
  case None
  obtain seen where T: "T = seen @ chItems (snIn s)"
      and o: "observeAll seen NewTSScanner = (F @ forwarding d @ chItems (snOut s) @ holding s, snScanner s)"
    using assms(1) by (auto simp: fifoInv_def)
  show ?thesis
  proof (cases "recv (snIn s)")
    case (Received ev c)
    obtain casts ob sc where b: "observe ev (snScanner s) = (casts, ob, sc)"
      by (metis prod.exhaust)
    have s': "snIn s' = c" "snScanner s' = sc" "snHeld s' = Some ob" "snOut s' = snOut s"
      using assms(2) None Received b by (auto simp: Sniffer_run_step_def split: if_splits)
    have "T = (seen @ [ev]) @ chItems (snIn s')"
      using T recv_items [OF Received] s' by simp
    moreover have "observeAll (seen @ [ev]) NewTSScanner =
        (F @ forwarding d @ chItems (snOut s') @ holding s', snScanner s')"
      using o b s' None by (simp add: observeAll_append holding_def)
    ultimately show ?thesis unfolding fifoInv_def by blast
  next
    case RecvClosed
    then have "snIn s' = snIn s" "snScanner s' = snScanner s" "snHeld s' = snHeld s"
        "chItems (snOut s') = chItems (snOut s)"
      using assms(2) None
      by (auto simp: Sniffer_run_step_def closeChan_def split: if_splits)
    then show ?thesis using T o by (auto simp: fifoInv_def holding_def)
  qed (use assms(2) None in \<open>simp add: Sniffer_run_step_def split: if_splits\<close>)
qed

lemma dispatcher_fifoInv:
  assumes "fifoInv T F (ppDisp P) (ppSniffer P)" and "queueStep P P'"
  shows "fifoInv (T @ sentBy (runLabel P)) (F @ forwardedBy (runLabel P)) (ppDisp P') (ppSniffer P')"
proof -
  obtain seen where "T = seen @ chItems (snIn (ppSniffer P))"
      and "observeAll seen NewTSScanner =
        (F @ forwarding (ppDisp P) @ chItems (snOut (ppSniffer P)) @ holding (ppSniffer P), snScanner (ppSniffer P))"
    using assms(1) by (auto simp: fifoInv_def)
  moreover have "F @ forwarding (ppDisp P) @ chItems (snOut (ppSniffer P)) =
      F @ forwardedBy (runLabel P) @ forwarding (ppDisp P') @ chItems (snOut (ppSniffer P'))"
    using assms(2) by (simp add: queueStep_def)
  then have "F @ forwarding (ppDisp P) @ chItems (snOut (ppSniffer P)) @ holding (ppSniffer P') =
      F @ forwardedBy (runLabel P) @ forwarding (ppDisp P') @ chItems (snOut (ppSniffer P')) @ holding (ppSniffer P')"
    by (metis append.assoc)
  moreover have "holding (ppSniffer P') = holding (ppSniffer P)"
    using assms(2) by (simp add: queueStep_def holding_def)
  ultimately show ?thesis
    using assms(2) unfolding fifoInv_def queueStep_def by (intro exI [of _ seen]) simp
qed

definition pipeInv :: "PipeLabel list \<Rightarrow> Pipe \<Rightarrow> bool" where
  "pipeInv tr P \<longleftrightarrow>
     reorderInv (submitted tr) (sent tr) (ppPipe P) (ppDisp P) \<and>
     fifoInv (sent tr) (forwarded tr) (ppDisp P) (ppSniffer P) \<and>
     commanded tr = handled tr @ chItems (wIn (ppWriter P))"

lemma pipeInv_start: "pipeInv [] (startPipe disk s)"
  by (simp add: pipeInv_def startPipe_def histories reorderInv_def fifoInv_def inFlight_def sending_def
      forwarding_def holding_def NewWritePipeline_def startDispatcher_def NewSniffer_def NewWriter_def chan_simps)

lemma inFlight_cong:
  "chItems (plWrites p') = chItems (plWrites p) \<Longrightarrow> plFallback p' = plFallback p \<Longrightarrow> inFlight p' d = inFlight p d"
  by (simp add: inFlight_def)

lemma reorderInv_same:
  "inFlight p' d = inFlight p d \<Longrightarrow> reorderInv S T p' d = reorderInv S T p d"
  by (simp add: reorderInv_def del: upt_Suc)

lemma sentBy_runLabel: "sentBy (runLabel P) = sending (ppDisp P)"
  by (simp add: runLabel_def sending_def split: RunPC.split)

lemma SubmitWrite_inFlight:
  "Pipeline_SubmitWrite ev p = Done (None, p') \<Longrightarrow> inFlight p' d = insert ev (inFlight p d)"
  by (auto simp: Pipeline_SubmitWrite_def inFlight_def send_Done split: if_splits Attempt.splits)

lemma fallback_inFlight:
  assumes "fallbackSend i p = Done p'"
  shows "inFlight p' d = inFlight p d"
proof -
  have i: "i < length (plFallback p)"
    using assms by (auto simp: fallbackSend_def split: if_splits)
  define rest where "rest = take i (plFallback p) @ drop (Suc i) (plFallback p)"
  have s: "set (plFallback p) = insert (plFallback p ! i) (set rest)"
    unfolding rest_def by (subst id_take_nth_drop [OF i]) auto
  obtain c where "send (plFallback p ! i) (plWrites p) = Done c" "p' = p\<lparr>plWrites := c, plFallback := rest\<rparr>"
    using assms i by (auto simp: fallbackSend_def rest_def split: Attempt.splits)
  then show ?thesis
    by (auto simp: inFlight_def send_Done s)
qed

lemma quiet_inFlight:
  "Sync_wait target b p = Done p' \<Longrightarrow> inFlight p' d = inFlight p d"
  "Sync_send i p = Done p' \<Longrightarrow> inFlight p' d = inFlight p d"
  "inFlight (CloseWrites_mark p) d = inFlight p d"
  "CloseWrites_close p = Done p' \<Longrightarrow> inFlight p' d = inFlight p d"
  by (auto simp: Sync_wait_def Sync_send_def CloseWrites_mark_def CloseWrites_close_def closeChan_def
      inFlight_def split: if_splits Attempt.splits)

lemma histories_snoc [simp]:
  "submitted (tr @ [l]) = submitted tr @ submittedBy l" "sent (tr @ [l]) = sent tr @ sentBy l"
  "forwarded (tr @ [l]) = forwarded tr @ forwardedBy l" "commanded (tr @ [l]) = commanded tr @ commandedBy l"
  "handled (tr @ [l]) = handled tr @ handledBy l"
  by (simp_all add: histories)

lemma runLabel_by [simp]: "submittedBy (runLabel P) = []" "handledBy (runLabel P) = []"
  by (simp_all add: runLabel_def split: RunPC.split)

lemma pipeStep_inv:
  assumes inv: "pipeInv tr P" and st: "pipeStep P l P'"
  shows "pipeInv (tr @ [l]) P'"
  using st
proof cases
  case (submit ev p)
  then show ?thesis
    using inv reorderInv_submit [OF _ SubmitWrite_inFlight [OF submit(3)]] by (simp add: pipeInv_def)
next
  case (fallback i p)
  then show ?thesis
    using inv reorderInv_same [OF fallback_inFlight [OF fallback(3)]] by (simp add: pipeInv_def)
next
  case (sync_wait target b p)
  then show ?thesis
    using inv reorderInv_same [OF quiet_inFlight(1) [OF sync_wait(3)]] by (simp add: pipeInv_def)
next
  case (sync_send i p)
  then show ?thesis
    using inv reorderInv_same [OF quiet_inFlight(2) [OF sync_send(3)]] by (simp add: pipeInv_def)
next
  case mark
  then show ?thesis
    using inv reorderInv_same [OF quiet_inFlight(3)] by (simp add: pipeInv_def)
next
  case (close p)
  then show ?thesis
    using inv reorderInv_same [OF quiet_inFlight(4) [OF close(4)]] by (simp add: pipeInv_def)
next
  case (dispatcher pick)
  note q = run_step_queues [OF dispatcher(2)]
  have "commanded tr @ commandedBy (runLabel P) = handled tr @ chItems (wIn (ppWriter P'))"
    using inv q by (simp add: pipeInv_def queueStep_def)
  moreover have "reorderInv (submitted tr) (sent tr @ sentBy (runLabel P)) (ppPipe P') (ppDisp P')"
    using reorderStep_inv [OF _ run_step_reorder [OF dispatcher(2)]] inv
    by (simp add: pipeInv_def sentBy_runLabel)
  ultimately show ?thesis
    using dispatcher_fifoInv [OF _ q] inv dispatcher(1) by (simp add: pipeInv_def)
next
  case (sniffer s)
  then show ?thesis
    using inv sniffer_fifoInv [OF _ sniffer(3)] by (simp add: pipeInv_def)
next
  case (writer cmd c io)
  then have "chItems (wIn (ppWriter P)) = cmd # chItems c" by (simp add: recv_items)
  then show ?thesis
    using inv writer by (simp add: pipeInv_def)
next
  case (reconciler ob c)
  then show ?thesis
    using inv reorderInv_same [of "(ppPipe P)\<lparr>plObserved := c\<rparr>" "ppDisp P" "ppPipe P"]
    by (simp add: pipeInv_def inFlight_def)
qed

lemma pipeReach_inv: "pipeReach tr P \<Longrightarrow> pipeInv tr P"
  by (induction rule: pipeReach.induct) (auto intro: pipeInv_start pipeStep_inv)

section \<open>Properties\<close>

fun writesOf :: "writerCommand list \<Rightarrow> ObservedWrite list" where
  "writesOf [] = []"
| "writesOf (writerWrite ob # cs) = ob # writesOf cs"
| "writesOf (writerBarrier b # cs) = writesOf cs"

lemma writesOf_append [simp]: "writesOf (xs @ ys) = writesOf xs @ writesOf ys"
  by (induction xs rule: writesOf.induct) auto

lemma writesOf_commandedBy [simp]: "writesOf (commandedBy l) = forwardedBy l"
  by (cases l) auto

lemma writesOf_commanded: "writesOf (commanded tr) = forwarded tr"
  by (induction tr) (simp_all add: histories)

lemma observeAll_take:
  "fst (observeAll (evs @ evs') s) = fst (observeAll evs s) @ fst (observeAll evs' (snd (observeAll evs s)))"
  by (induction evs arbitrary: s) (simp_all add: Let_def split_beta)

text \<open>The observations the writer has handled are the first ones of what the sniffer makes of the writes sent.\<close>

lemma handled_prefix:
  assumes "pipeInv tr P"
  shows "\<exists>rest. fst (observeAll (sent tr) NewTSScanner) = writesOf (handled tr) @ rest"
proof -
  obtain seen where s: "sent tr = seen @ chItems (snIn (ppSniffer P))"
      and o: "observeAll seen NewTSScanner = (forwarded tr @ forwarding (ppDisp P) @
        chItems (snOut (ppSniffer P)) @ holding (ppSniffer P), snScanner (ppSniffer P))"
    using assms by (auto simp: pipeInv_def fifoInv_def)
  have "forwarded tr = writesOf (handled tr) @ writesOf (chItems (wIn (ppWriter P)))"
    using assms unfolding pipeInv_def by (metis writesOf_append writesOf_commanded)
  then show ?thesis using observeAll_take [of seen] o by (simp add: s)
qed

text \<open>
  C14. The writer handles the writes in the order of their sequence numbers: in every run, whatever
  the order in which the senders got through and however the goroutines interleave, the writes
  handled so far are numbered 1, 2, 3, \<dots> without gap or repetition, each is a write the host
  submitted, and they carry what the sniffer makes of exactly that sequence.
\<close>

theorem pipeline_in_order:
  assumes "pipeReach tr P" and "ws = writesOf (handled tr)"
  shows "map (\<lambda>ob. eSeq (oEvent ob)) ws = map word_of_nat [1..<Suc (length ws)] \<and>
    oEvent ` set ws \<subseteq> set (submitted tr) \<and>
    ws = take (length ws) (fst (observeAll (sent tr) NewTSScanner))"
proof -
  note inv = pipeReach_inv [OF assms(1)]
  obtain rest where r: "fst (observeAll (sent tr) NewTSScanner) = ws @ rest"
    using handled_prefix [OF inv] assms(2) by blast
  have ev: "sent tr = map oEvent ws @ map oEvent rest"
    using observeAll_events [of "sent tr" NewTSScanner] r by simp
  have sq: "map eSeq (sent tr) = map word_of_nat [1..<Suc (length (sent tr))]" and sub: "set (sent tr) \<subseteq> set (submitted tr)"
    using inv unfolding pipeInv_def reorderInv_def by blast+
  have "map (\<lambda>ob. eSeq (oEvent ob)) ws = take (length ws) (map eSeq (sent tr))"
    by (simp add: ev)
  also have "\<dots> = map word_of_nat (take (length ws) [1..<Suc (length (sent tr))])"
    unfolding sq by (rule take_map)
  also have "take (length ws) [1..<Suc (length (sent tr))] = [1..<Suc (length ws)]"
    using ev by (simp add: take_upt del: upt_Suc)
  finally show ?thesis using r ev sub by auto
qed

lemma word_of_nat_eq_iff:
  "i < 2 ^ 64 \<Longrightarrow> j < 2 ^ 64 \<Longrightarrow> (word_of_nat i :: u64) = word_of_nat j \<longleftrightarrow> i = j"
  by (metis u64_of_len)

text \<open>
  The reorder map at rest, with the numbers 1 to \<open>k\<close> submitted: every number sent is at most \<open>k\<close>, and
  the next one expected is not waiting in the map, so it is above \<open>k\<close>.
\<close>

definition reorderRest :: "WriteEvent list \<Rightarrow> WriteEvent list \<Rightarrow> WritePipeline \<Rightarrow> Dispatcher \<Rightarrow> nat \<Rightarrow> bool" where
  "reorderRest S T p d k \<longleftrightarrow>
     reorderInv S T p d \<and> eSeq ` set S = word_of_nat ` {1..k} \<and> k < 2 ^ 64 - 1 \<and>
     set S = set T \<union> ran (dPending d)"

lemma reorderRestD:
  assumes "reorderRest S T p d k"
  shows "reorderInv S T p d" "eSeq ` set S = word_of_nat ` {1..k}" "k < 2 ^ 64 - 1"
    "set S = set T \<union> ran (dPending d)" "dNextSeq d = word_of_nat (Suc (length T))"
  using assms unfolding reorderRest_def reorderInv_def by blast+

lemma submitted_seq:
  "reorderRest S T p d k \<Longrightarrow> e \<in> set S \<Longrightarrow> \<exists>j. 1 \<le> j \<and> j \<le> k \<and> eSeq e = word_of_nat j"
  using reorderRestD(2) by (metis atLeastAtMost_iff imageE imageI)

lemma sent_at_most:
  assumes rest: "reorderRest S T p d k"
  shows "length T \<le> k"
proof (rule ccontr)
  note inv = reorderRestD(1) [OF rest] and seqs = reorderRestD(2) [OF rest] and bound = reorderRestD(3) [OF rest]
    and cov = reorderRestD(4) [OF rest]
  assume "\<not> length T \<le> k"
  then have i: "k < length T" by simp
  have "T ! k \<in> set S" using cov i by auto
  then obtain j where j: "1 \<le> j" "j \<le> k" "eSeq (T ! k) = word_of_nat j"
    using submitted_seq [OF rest] by blast
  then have "(word_of_nat (Suc k) :: u64) = word_of_nat j"
    using reorderInv_seq [OF inv i] by simp
  then show False using word_of_nat_eq_iff [of "Suc k" j] j bound by simp
qed

lemma sent_at_least:
  assumes rest: "reorderRest S T p d k"
  shows "k \<le> length T"
proof (rule ccontr)
  note inv = reorderRestD(1) [OF rest] and seqs = reorderRestD(2) [OF rest] and bound = reorderRestD(3) [OF rest]
    and cov = reorderRestD(4) [OF rest]
  assume lt: "\<not> k \<le> length T"
  then have "word_of_nat (Suc (length T)) \<in> eSeq ` set S"
    unfolding seqs by (intro imageI) simp
  then obtain e where e: "e \<in> set S" "eSeq e = word_of_nat (Suc (length T))" by auto
  have "e \<notin> set T"
  proof
    assume "e \<in> set T"
    then obtain i where i: "i < length T" "T ! i = e" by (auto simp: in_set_conv_nth)
    then have "(word_of_nat (Suc i) :: u64) = word_of_nat (Suc (length T))"
      using reorderInv_seq [OF inv i(1)] e(2) by simp
    then show False
      using word_of_nat_eq_iff [of "Suc i" "Suc (length T)"] i(1) lt bound by simp
  qed
  then obtain a where a: "dPending d a = Some e" using e(1) cov by (auto simp: ran_def)
  have "eSeq e < eSeq e"
    using reorderInv_pending [OF inv a] e(2) reorderRestD(5) [OF rest] by metis
  then show False by simp
qed

lemma map_is_empty:
  assumes rest: "reorderRest S T p d k"
  shows "dPending d = (\<lambda>_. None)"
proof
  note inv = reorderRestD(1) [OF rest] and seqs = reorderRestD(2) [OF rest] and bound = reorderRestD(3) [OF rest]
    and cov = reorderRestD(4) [OF rest]
  fix a
  show "dPending d a = None"
  proof (rule ccontr)
    assume "dPending d a \<noteq> None"
    then obtain e where e: "dPending d a = Some e" by blast
    then have "e \<in> set S" using cov by (auto intro: ranI)
    then obtain j where j: "1 \<le> j" "j \<le> k" "eSeq e = word_of_nat j" using submitted_seq [OF rest] by blast
    have "dNextSeq d = word_of_nat (Suc k)"
      using reorderRestD(5) [OF rest] sent_at_most [OF rest] sent_at_least [OF rest] by (metis le_antisym)
    then have "word_of_nat (Suc k) < (word_of_nat j :: u64)"
      using reorderInv_pending [OF inv e] j(3) by simp
    then show False using j bound by (simp add: word_less_nat_alt u64_of_len del: of_nat_Suc)
  qed
qed

text \<open>
  Nothing stays behind in the reorder map: once the queue and the fallback senders are empty and
  the dispatcher is back in its loop, with the numbers 1 to \<open>k\<close> submitted in any order, all \<open>k\<close> writes
  have been sent on and the map is empty.
\<close>

lemma reorder_complete:
  assumes "pipeInv tr P" and "eSeq ` set (submitted tr) = word_of_nat ` {1..k}"
    and "inj_on eSeq (set (submitted tr))" and "k < 2 ^ 64 - 1"
    and "chItems (plWrites (ppPipe P)) = []" and "plFallback (ppPipe P) = []" and "sending (ppDisp P) = []"
  shows "length (sent tr) = k \<and> set (sent tr) = set (submitted tr) \<and> dPending (ppDisp P) = (\<lambda>_. None)"
proof -
  let ?S = "submitted tr" and ?T = "sent tr" and ?d = "ppDisp P"
  have inv: "reorderInv ?S ?T (ppPipe P) ?d"
    using assms(1) by (simp add: pipeInv_def)
  have fl: "inFlight (ppPipe P) ?d = ran (dPending ?d)"
    using assms(5-7) by (simp add: inFlight_def)
  have z: "0 \<notin> eSeq ` set ?S"
  proof
    assume "0 \<in> eSeq ` set ?S"
    then obtain j where "1 \<le> j" "j \<le> k" "(word_of_nat 0 :: u64) = word_of_nat j" unfolding assms(2) by auto
    then show False using word_of_nat_eq_iff [of 0 j] assms(4) by simp
  qed
  have cov: "set ?S = set ?T \<union> ran (dPending ?d)"
    using inv fl z assms(3) unfolding reorderInv_def by blast
  have rest: "reorderRest ?S ?T (ppPipe P) ?d k"
    using inv assms(2,4) cov unfolding reorderRest_def by blast
  show ?thesis
    using sent_at_most [OF rest] sent_at_least [OF rest] map_is_empty [OF rest] cov by simp
qed

end
