(* ===== verification/PipelineRuns.thy ===== *)
theory PipelineRuns
  imports PipelineSpec
begin

text \<open>
  Concrete runs of the pipeline: the interleaving as an executable schedule, witnesses for the
  ordering theorems, and three runs in which the code does not keep what its comments promise.
\<close>

section \<open>Schedules\<close>

datatype PipeAction =
    ActSubmit WriteEvent
  | ActFallback nat
  | ActSyncWait u64 nat
  | ActSyncSend nat
  | ActMark
  | ActClose
  | ActDispatch SelectCase
  | ActSniff
  | ActWrite WriterIo
  | ActReconcile

definition ofAttempt :: "PipeLabel \<Rightarrow> Pipe \<Rightarrow> WritePipeline Attempt \<Rightarrow> (PipeLabel \<times> Pipe) option" where
  "ofAttempt l P a = (case a of Done p \<Rightarrow> Some (l, P\<lparr>ppPipe := p\<rparr>) | _ \<Rightarrow> None)"

fun perform :: "PipeAction \<Rightarrow> Pipe \<Rightarrow> (PipeLabel \<times> Pipe) option" where
  "perform (ActSubmit ev) P =
     (case Pipeline_SubmitWrite ev (ppPipe P) of
        Done (None, p) \<Rightarrow> Some (LSubmit ev, P\<lparr>ppPipe := p\<rparr>)
      | _ \<Rightarrow> None)"
| "perform (ActFallback i) P = ofAttempt LQuiet P (fallbackSend i (ppPipe P))"
| "perform (ActSyncWait target b) P = ofAttempt LQuiet P (Sync_wait target b (ppPipe P))"
| "perform (ActSyncSend i) P = ofAttempt LQuiet P (Sync_send i (ppPipe P))"
| "perform ActMark P = Some (LQuiet, P\<lparr>ppPipe := CloseWrites_mark (ppPipe P)\<rparr>)"
| "perform ActClose P =
     (if plClosing (ppPipe P) then ofAttempt LQuiet P (CloseWrites_close (ppPipe P)) else None)"
| "perform (ActDispatch pick) P =
     (case run_step pick P of Done P' \<Rightarrow> Some (runLabel P, P') | _ \<Rightarrow> None)"
| "perform ActSniff P =
     (case Sniffer_run_step (ppSniffer P) of
        Some s \<Rightarrow> Some (LQuiet, P\<lparr>ppSniffer := s\<rparr>)
      | None \<Rightarrow> None)"
| "perform (ActWrite io) P =
     (case recv (wIn (ppWriter P)) of
        Received cmd c \<Rightarrow>
          Some (LWriter cmd, P\<lparr>ppWriter := processCommand io cmd ((ppWriter P)\<lparr>wIn := c\<rparr>)\<rparr>)
      | _ \<Rightarrow> None)"
| "perform ActReconcile P =
     (case recv (plObserved (ppPipe P)) of
        Received ob c \<Rightarrow> Some (LQuiet, P\<lparr>ppPipe := (ppPipe P)\<lparr>plObserved := c\<rparr>\<rparr>)
      | _ \<Rightarrow> None)"

fun performAll :: "PipeAction list \<Rightarrow> Pipe \<Rightarrow> (PipeLabel list \<times> Pipe) option" where
  "performAll [] P = Some ([], P)"
| "performAll (a # as) P =
     (case perform a P of
        None \<Rightarrow> None
      | Some (l, P') \<Rightarrow> map_option (\<lambda>(ls, Q). (l # ls, Q)) (performAll as P'))"

lemma perform_step: "perform a P = Some (l, P') \<Longrightarrow> pipeStep P l P'"
  by (cases a)
    (auto simp: ofAttempt_def simp del: processCommand_queues intro: pipeStep.intros split: Attempt.splits option.splits RecvResult.splits if_splits)

text \<open>Runs that continue from a given state.\<close>

inductive pipeRun :: "Pipe \<Rightarrow> PipeLabel list \<Rightarrow> Pipe \<Rightarrow> bool" where
  none: "pipeRun P [] P"
| more: "pipeStep P l P1 \<Longrightarrow> pipeRun P1 ls P' \<Longrightarrow> pipeRun P (l # ls) P'"

lemma performAll_run: "performAll as P = Some (ls, P') \<Longrightarrow> pipeRun P ls P'"
  by (induction as arbitrary: P ls)
    (auto intro: pipeRun.intros perform_step split: option.splits)

lemma pipeReach_run: "pipeRun P ls P' \<Longrightarrow> pipeReach tr P \<Longrightarrow> pipeReach (tr @ ls) P'"
proof (induction arbitrary: tr rule: pipeRun.induct)
  case (more P l P1 ls P')
  then show ?case using pipeReach.step [OF more.prems more.hyps(1)] by fastforce
qed simp

lemma performAll_reach:
  "performAll as (startPipe disk s) = Some (ls, P) \<Longrightarrow> pipeReach ls P"
  using pipeReach_run [OF performAll_run pipeReach.start] by fastforce

definition secondEvent :: WriteEvent where
  "secondEvent = sampleEvent\<lparr>eSeq := 2, eOffset := 8192\<rparr>"

lemma observe_sample:
  "observe sampleEvent NewTSScanner =
     ([], \<lparr>oEvent = sampleEvent, oMPEGTS = False, oCaptures = []\<rparr>,
      snd (snd (observe sampleEvent NewTSScanner)))"
  by (simp add: observe_def sampleEvent_def Feed_def NewTSScanner_def resetScanner_def keepTail_def findMPEGTS_def)

lemmas run_eval = startPipe_def NewWritePipeline_def startDispatcher_def NewSniffer_def NewWriter_def makeChan_def
  pipelineWriteDepth_def pipelineBarrierDepth_def snifferQueueDepth_def writerQueueDepth_def
  Pipeline_SubmitWrite_def Sync_wait_def Sync_send_def CloseWrites_mark_def CloseWrites_close_def ofAttempt_def
  run_step_def select_writes_def select_output_def select_barriers_def handleBarrier_def run_finish_def run_return_def
  acceptWrite_def dispatched_def backTo_def runLabel_def Sniffer_run_step_def Writer_CloseInput_def
  Writer_SubmitWrite_def Writer_SubmitBarrier_def Writer_submit_def send_def recv_def closeChan_def

lemma events_seq [simp]: "eSeq sampleEvent = 1" "eSeq secondEvent = 2"
  by (simp_all add: sampleEvent_def secondEvent_def)

section \<open>Witnesses for the ordering theorems\<close>

definition sampleObserved :: ObservedWrite where
  "sampleObserved = \<lparr>oEvent = sampleEvent, oMPEGTS = False, oCaptures = []\<rparr>"

lemma observe_sample_eq:
  obtains sc where "observe sampleEvent NewTSScanner = ([], sampleObserved, sc)"
  using observe_sample by (simp add: sampleObserved_def)

text \<open>The two writes arrive in the wrong order; the first one is taken all the way to the writer.\<close>

lemma swapped_run:
  "\<exists>P. performAll [ActSubmit secondEvent, ActSubmit sampleEvent, ActDispatch PickWrites, ActDispatch PickWrites,
       ActDispatch PickWrites, ActDispatch PickWrites, ActSniff, ActSniff, ActDispatch PickOutput,
       ActDispatch PickOutput, ActWrite quietIo] (startPipe disk s) =
     Some ([LSubmit secondEvent, LSubmit sampleEvent, LQuiet, LQuiet, LSent sampleEvent, LSent secondEvent,
       LQuiet, LQuiet, LQuiet, LForward sampleObserved, LWriter (writerWrite sampleObserved)], P) \<and>
     chItems (plWrites (ppPipe P)) = [] \<and> plFallback (ppPipe P) = [] \<and> dAt (ppDisp P) = AtObserve sampleObserved"
proof -
  obtain sc where "observe sampleEvent NewTSScanner = ([], sampleObserved, sc)"
    by (rule observe_sample_eq)
  then show ?thesis by (simp add: run_eval)
qed

lemma swapped_reach:
  obtains tr P where "pipeReach tr P" and "submitted tr = [secondEvent, sampleEvent]"
    and "handled tr = [writerWrite sampleObserved]" and "chItems (plWrites (ppPipe P)) = []"
    and "plFallback (ppPipe P) = []" and "sending (ppDisp P) = []"
proof -
  obtain P where P: "performAll [ActSubmit secondEvent, ActSubmit sampleEvent, ActDispatch PickWrites,
       ActDispatch PickWrites, ActDispatch PickWrites, ActDispatch PickWrites, ActSniff, ActSniff,
       ActDispatch PickOutput, ActDispatch PickOutput, ActWrite quietIo]
         (startPipe \<lparr>fSize = 64, fData = (\<lambda>_. 1)\<rparr> shm0) =
     Some ([LSubmit secondEvent, LSubmit sampleEvent, LQuiet, LQuiet, LSent sampleEvent, LSent secondEvent,
       LQuiet, LQuiet, LQuiet, LForward sampleObserved, LWriter (writerWrite sampleObserved)], P)"
     "chItems (plWrites (ppPipe P)) = []" "plFallback (ppPipe P) = []" "dAt (ppDisp P) = AtObserve sampleObserved"
    using swapped_run [of "\<lparr>fSize = 64, fData = (\<lambda>_. 1)\<rparr>" shm0] by blast
  show thesis
    by (rule that [OF performAll_reach [OF P(1)] _ _ P(2,3)]) (simp_all add: histories sending_def P(4))
qed

theorem pipeline_in_order_witness:
  "\<exists>tr P. pipeReach tr P \<and> map (\<lambda>ob. eSeq (oEvent ob)) (writesOf (handled tr)) = [1]"
proof -
  obtain tr P where r: "pipeReach tr P" and h: "handled tr = [writerWrite sampleObserved]"
    by (rule swapped_reach)
  have "map (\<lambda>ob. eSeq (oEvent ob)) (writesOf (handled tr)) = [1]"
    using conjunct1 [OF pipeline_in_order [OF r refl]] by (simp add: h)
  with r show ?thesis by (intro exI conjI)
qed

section \<open>A barrier does not wait for the writer\<close>

text \<open>
  C32. A flush can be answered before the write it covers is written: the barrier waits until its
  target has been sent to the sniffer, not until the observation has come back, so there is a run in
  which the host submits one write, asks for it to be flushed, gets the answer "no error", and the
  writer has handled no write and the image is untouched.
\<close>

theorem barrier_overtakes_write:
  "\<exists>tr P. pipeReach tr P \<and> submitted tr = [sampleEvent] \<and> wReplies (ppWriter P) = [(7, None)] \<and>
     writesOf (commanded tr) = [] \<and> wDisk (ppWriter P) = disk"
proof -
  let ?as = "[ActSubmit sampleEvent, ActDispatch PickWrites, ActDispatch PickWrites, ActSyncWait 1 7, ActSyncSend 0,
    ActDispatch PickBarriers, ActDispatch PickBarriers, ActDispatch PickBarriers, ActWrite quietIo]"
  have "\<exists>P. performAll ?as (startPipe disk shm0) =
      Some ([LSubmit sampleEvent, LQuiet, LSent sampleEvent, LQuiet, LQuiet, LQuiet, LQuiet, LBarrier 7,
        LWriter (writerBarrier 7)], P) \<and> wReplies (ppWriter P) = [(7, None)] \<and> wDisk (ppWriter P) = disk"
    by (simp add: run_eval processCommand_def quietIo_def)
  then obtain P where P: "performAll ?as (startPipe disk shm0) =
      Some ([LSubmit sampleEvent, LQuiet, LSent sampleEvent, LQuiet, LQuiet, LQuiet, LQuiet, LBarrier 7,
        LWriter (writerBarrier 7)], P)" "wReplies (ppWriter P) = [(7, None)]" "wDisk (ppWriter P) = disk"
    by blast
  show ?thesis
    by (intro exI conjI, rule performAll_reach [OF P(1)]) (simp_all add: histories P(2,3))
qed

section \<open>Shutdown\<close>

lemma returned_step:
  assumes "pipeStep P l P'" and "dAt (ppDisp P) = AtReturned"
  shows "dAt (ppDisp P') = AtReturned \<and> forwardedBy l = []"
  using assms by cases (auto simp: run_step_def)

lemma returned_forever:
  "pipeRun P ls P' \<Longrightarrow> dAt (ppDisp P) = AtReturned \<Longrightarrow> forwarded ls = []"
  by (induction rule: pipeRun.induct) (use returned_step in \<open>auto simp: forwarded_def\<close>)

text \<open>
  C33. Shutdown loses acknowledged writes: when the queue is closed and empty the dispatcher leaves its
  loop without waiting for the sniffer, so there is a run in which the host has submitted a write,
  \<open>CloseWrites\<close> has been called and the dispatcher has returned, and in no continuation does that write
  reach the writer.
\<close>

theorem shutdown_drops_write:
  "\<exists>tr P. pipeReach tr P \<and> submitted tr = [sampleEvent] \<and> forwarded tr = [] \<and>
     dAt (ppDisp P) = AtReturned \<and> chClosed (wIn (ppWriter P)) \<and>
     \<not> (\<exists>ls P'. pipeRun P ls P' \<and> forwarded ls \<noteq> [])"
proof -
  let ?as = "[ActSubmit sampleEvent, ActDispatch PickWrites, ActDispatch PickWrites, ActMark, ActClose,
    ActDispatch PickWrites, ActDispatch PickWrites, ActDispatch PickWrites]"
  have "\<exists>P. performAll ?as (startPipe \<lparr>fSize = 64, fData = (\<lambda>_. 1)\<rparr> shm0) =
      Some ([LSubmit sampleEvent, LQuiet, LSent sampleEvent, LQuiet, LQuiet, LQuiet, LQuiet, LQuiet], P) \<and>
      dAt (ppDisp P) = AtReturned \<and> chClosed (wIn (ppWriter P))"
    by (simp add: run_eval)
  then obtain P where P: "performAll ?as (startPipe \<lparr>fSize = 64, fData = (\<lambda>_. 1)\<rparr> shm0) =
      Some ([LSubmit sampleEvent, LQuiet, LSent sampleEvent, LQuiet, LQuiet, LQuiet, LQuiet, LQuiet], P)"
      "dAt (ppDisp P) = AtReturned" "chClosed (wIn (ppWriter P))"
    by blast
  show ?thesis
    by (intro exI conjI, rule performAll_reach [OF P(1)])
      (use P returned_forever in \<open>auto simp: histories\<close>)
qed

section \<open>A barrier that waits for a write that never comes\<close>

definition stuckBarrier :: "Pipe \<Rightarrow> bool" where
  "stuckBarrier P \<longleftrightarrow>
     (\<exists>req. dAt (ppDisp P) = AtBarrier req \<and> dDispatchedSeq (ppDisp P) < bqTargetSeq req) \<and>
     dWritesOpen (ppDisp P) \<and> chItems (plWrites (ppPipe P)) = [] \<and> plFallback (ppPipe P) = []"

lemma stuck_step:
  assumes "pipeStep P l P'" and "stuckBarrier P" and "\<not> chClosed (plWrites (ppPipe P))" and "submittedBy l = []"
  shows "stuckBarrier P' \<and> commandedBy l = []"
  using assms
proof cases
  case (dispatcher pick)
  obtain req where "dAt (ppDisp P) = AtBarrier req" "dDispatchedSeq (ppDisp P) < bqTargetSeq req"
    using assms(2) by (auto simp: stuckBarrier_def)
  then show ?thesis
    using dispatcher assms(2,3) by (simp add: stuckBarrier_def run_step_def handleBarrier_def recv_def)
qed (auto simp: stuckBarrier_def fallbackSend_def Sync_wait_def Sync_send_def CloseWrites_mark_def
    CloseWrites_close_def closeChan_def split: if_splits Attempt.splits)

lemma run_step_keeps_closed:
  assumes "run_step pick P = Done P'" and "chClosed (plWrites (ppPipe P))"
  shows "chClosed (plWrites (ppPipe P'))"
proof -
  have recv: "chClosed c'" if "recv c = Received a c'" "chClosed c" for c c' :: "WriteEvent Chan" and a
    using that by (auto simp: recv_def split: list.splits if_splits)
  have "run_return Q = Done Q' \<Longrightarrow> plWrites (ppPipe Q') = plWrites (ppPipe Q)" for Q Q'
    by (rule run_return_fields)
  then show ?thesis
    using assms recv run_finish_fields(6) [of P P']
    by (auto simp: run_step_def select_writes_def select_output_def select_barriers_def handleBarrier_def Let_def
        split: RunPC.splits SelectCase.splits RecvResult.splits Attempt.splits if_splits option.splits)
qed

lemma closed_step: "pipeStep P l P' \<Longrightarrow> chClosed (plWrites (ppPipe P)) \<Longrightarrow> chClosed (plWrites (ppPipe P'))"
  by (induction rule: pipeStep.induct)
    (auto simp: Pipeline_SubmitWrite_def fallbackSend_def Sync_wait_def Sync_send_def CloseWrites_mark_def
      CloseWrites_close_def closeChan_def send_def run_step_keeps_closed split: if_splits Attempt.splits)

lemma closed_run: "pipeRun P ls P' \<Longrightarrow> chClosed (plWrites (ppPipe P)) \<Longrightarrow> chClosed (plWrites (ppPipe P'))"
  by (induction rule: pipeRun.induct) (auto dest: closed_step)

lemma stuck_run:
  assumes "pipeRun P ls P'" and "stuckBarrier P" and "submitted ls = []" and "\<not> chClosed (plWrites (ppPipe P'))"
  shows "commanded ls = []"
  using assms
proof (induction rule: pipeRun.induct)
  case (more P l P1 ls P')
  have sub: "submittedBy l = []" "submitted ls = []"
    using more.prems(2) by (simp_all add: submitted_def)
  have "\<not> chClosed (plWrites (ppPipe P))"
    using closed_step [OF more.hyps(1)] closed_run [OF more.hyps(2)] more.prems(3) by blast
  then show ?case
    using stuck_step [OF more.hyps(1) more.prems(1) _ sub(1)] more.IH sub(2) more.prems(3)
    by (simp add: commanded_def)
qed (simp add: commanded_def)

text \<open>
  A flush can wait for ever although its target was dispatched: forwarding an observation sets
  \<open>dispatchedSeq\<close> back to the older number of that observation, so there is a run in which both
  submitted writes have been sent to the sniffer, a barrier with target 2 has been taken up, and
  nothing more is submitted to the writer (neither the barrier nor the second write) until the host
  writes again or the queue is closed.
\<close>

theorem barrier_waits_for_dispatched_write:
  "\<exists>tr P. pipeReach tr P \<and> map eSeq (sent tr) = [1, 2] \<and>
     dAt (ppDisp P) = AtBarrier \<lparr>bqTargetSeq = 2, bqDone = 7\<rparr> \<and>
     \<not> (\<exists>ls P'. pipeRun P ls P' \<and> submitted ls = [] \<and> \<not> chClosed (plWrites (ppPipe P')) \<and> commanded ls \<noteq> [])"
proof -
  let ?as = "[ActSubmit sampleEvent, ActDispatch PickWrites, ActDispatch PickWrites,
    ActSubmit secondEvent, ActDispatch PickWrites, ActDispatch PickWrites, ActSniff, ActSniff,
    ActDispatch PickOutput, ActDispatch PickOutput, ActDispatch PickOutput,
    ActSyncWait 2 7, ActSyncSend 0, ActDispatch PickBarriers]"
  let ?ls = "[LSubmit sampleEvent, LQuiet, LSent sampleEvent, LSubmit secondEvent, LQuiet, LSent secondEvent,
    LQuiet, LQuiet, LQuiet, LForward sampleObserved, LQuiet, LQuiet, LQuiet, LQuiet]"
  obtain sc where "observe sampleEvent NewTSScanner = ([], sampleObserved, sc)"
    by (rule observe_sample_eq)
  then have "\<exists>P. performAll ?as (startPipe \<lparr>fSize = 64, fData = (\<lambda>_. 1)\<rparr> shm0) = Some (?ls, P) \<and>
      dAt (ppDisp P) = AtBarrier \<lparr>bqTargetSeq = 2, bqDone = 7\<rparr> \<and> stuckBarrier P"
    by (simp add: run_eval stuckBarrier_def sampleObserved_def)
  then obtain P where P: "performAll ?as (startPipe \<lparr>fSize = 64, fData = (\<lambda>_. 1)\<rparr> shm0) = Some (?ls, P)"
      "dAt (ppDisp P) = AtBarrier \<lparr>bqTargetSeq = 2, bqDone = 7\<rparr>" "stuckBarrier P"
    by blast
  have "commanded ls = []" if "pipeRun P ls P'" "submitted ls = []" "\<not> chClosed (plWrites (ppPipe P'))" for ls P'
    by (rule stuck_run [OF that(1) P(3) that(2,3)])
  then have "\<not> (\<exists>ls P'. pipeRun P ls P' \<and> submitted ls = [] \<and> \<not> chClosed (plWrites (ppPipe P')) \<and> commanded ls \<noteq> [])"
    by blast
  moreover have "map eSeq (sent ?ls) = [1, 2]" by (simp add: sent_def)
  ultimately show ?thesis
    using performAll_reach [OF P(1)] P(2) by (intro exI conjI)
qed

section \<open>A shutdown that waits for ever\<close>

text \<open>The dispatcher in its loop with empty queues before the sniffer and \<open>m\<close> observations behind it.\<close>

definition backlog :: "nat \<Rightarrow> nat \<Rightarrow> Pipe \<Rightarrow> bool" where
  "backlog k m P \<longleftrightarrow>
     dAt (ppDisp P) = AtSelect \<and> dWritesOpen (ppDisp P) \<and> \<not> dSnifferClosed (ppDisp P) \<and>
     dNextSeq (ppDisp P) = word_of_nat k \<and> dPending (ppDisp P) = (\<lambda>_. None) \<and>
     plWrites (ppPipe P) = makeChan pipelineWriteDepth \<and> plFallback (ppPipe P) = [] \<and> \<not> plClosing (ppPipe P) \<and>
     \<not> chClosed (plObserved (ppPipe P)) \<and>
     snIn (ppSniffer P) = makeChan snifferQueueDepth \<and> snHeld (ppSniffer P) = None \<and> \<not> snDone (ppSniffer P) \<and>
     length (chItems (snOut (ppSniffer P))) = m \<and> chCap (snOut (ppSniffer P)) = snifferQueueDepth \<and>
     \<not> chClosed (snOut (ppSniffer P)) \<and> \<not> chClosed (wIn (ppWriter P))"

definition numberedEvent :: "nat \<Rightarrow> WriteEvent" where
  "numberedEvent k = sampleEvent\<lparr>eSeq := word_of_nat k\<rparr>"

text \<open>One more write goes through to the sniffer.\<close>

lemma backlog_dispatch:
  assumes "backlog k m P"
  obtains ls P' ob where "pipeRun P ls P'" and "snHeld (ppSniffer P') = Some ob"
    and "backlog (Suc k) m (P'\<lparr>ppSniffer := (ppSniffer P')\<lparr>snHeld := None\<rparr>\<rparr>)"
proof -
  obtain casts ob sc where ob: "observe (numberedEvent k) (snScanner (ppSniffer P)) = (casts, ob, sc)"
    by (metis prod.exhaust)
  have sq: "eSeq (numberedEvent k) = word_of_nat k" by (simp add: numberedEvent_def)
  have "\<exists>ls P'. performAll [ActSubmit (numberedEvent k), ActDispatch PickWrites, ActDispatch PickWrites, ActSniff] P = Some (ls, P') \<and>
      snHeld (ppSniffer P') = Some ob \<and> backlog (Suc k) m (P'\<lparr>ppSniffer := (ppSniffer P')\<lparr>snHeld := None\<rparr>\<rparr>)"
    using assms ob sq by (simp add: backlog_def run_eval add.commute)
  then show thesis using performAll_run that by blast
qed

lemma pipeRun_trans: "pipeRun P ls Q \<Longrightarrow> pipeRun Q ls' R \<Longrightarrow> pipeRun P (ls @ ls') R"
  by (induction rule: pipeRun.induct) (auto intro: pipeRun.intros)

lemma backlog_grows:
  assumes "backlog k m P" and "m < snifferQueueDepth"
  shows "\<exists>ls P'. pipeRun P ls P' \<and> backlog (Suc k) (Suc m) P'"
proof -
  obtain ls Q ob where q: "pipeRun P ls Q" "snHeld (ppSniffer Q) = Some ob"
      "backlog (Suc k) m (Q\<lparr>ppSniffer := (ppSniffer Q)\<lparr>snHeld := None\<rparr>\<rparr>)"
    using backlog_dispatch [OF assms(1)] .
  have "\<exists>R. performAll [ActSniff] Q = Some ([LQuiet], R) \<and> backlog (Suc k) (Suc m) R"
    using q(2,3) assms(2) by (simp add: backlog_def Sniffer_run_step_def send_def)
  then obtain R where "pipeRun Q [LQuiet] R" "backlog (Suc k) (Suc m) R"
    using performAll_run by blast
  then show ?thesis using pipeRun_trans [OF q(1)] by blast
qed

lemma backlog_reach: "m \<le> snifferQueueDepth \<Longrightarrow> \<exists>tr P. pipeReach tr P \<and> backlog (Suc m) m P"
proof (induction m)
  case 0
  have "backlog 1 0 (startPipe \<lparr>fSize = 64, fData = (\<lambda>_. 1)\<rparr> shm0)"
    by (simp add: backlog_def startPipe_def startDispatcher_def NewWritePipeline_def NewSniffer_def NewWriter_def chan_simps)
  then show ?case using pipeReach.start by fastforce
next
  case (Suc m)
  then obtain tr P where P: "pipeReach tr P" "backlog (Suc m) m P" by auto
  obtain ls P' where "pipeRun P ls P'" "backlog (Suc (Suc m)) (Suc m) P'"
    using backlog_grows [OF P(2)] Suc.prems by auto
  then show ?case using pipeReach_run [OF _ P(1)] by blast
qed

text \<open>The sniffer sends on a full channel that nobody empties any more.\<close>

definition snifferStuck :: "Pipe \<Rightarrow> bool" where
  "snifferStuck P \<longleftrightarrow>
     dAt (ppDisp P) = AtReturned \<and> snHeld (ppSniffer P) \<noteq> None \<and> \<not> snDone (ppSniffer P) \<and>
     \<not> chClosed (snOut (ppSniffer P)) \<and> chCap (snOut (ppSniffer P)) \<le> length (chItems (snOut (ppSniffer P)))"

lemma snifferStuck_step: "pipeStep P l P' \<Longrightarrow> snifferStuck P \<Longrightarrow> snifferStuck P'"
  by (induction rule: pipeStep.induct)
    (auto simp: snifferStuck_def run_step_def Sniffer_run_step_def send_def)

lemma snifferStuck_run: "pipeRun P ls P' \<Longrightarrow> snifferStuck P \<Longrightarrow> \<not> snDone (ppSniffer P')"
  by (induction rule: pipeRun.induct) (auto dest: snifferStuck_step simp: snifferStuck_def)

text \<open>
  C34. Shutdown can hang: with the sniffer's output queue full (1024 observations) and one more
  observation in hand, closing the pipeline lets the dispatcher return without reading that queue, so
  there is a run after which the sniffer goroutine cannot finish in any continuation, and \<open>shutdown\<close>,
  which waits for it before it does anything else, never returns.
\<close>

theorem shutdown_can_hang:
  "\<exists>tr P. pipeReach tr P \<and> dAt (ppDisp P) = AtReturned \<and> \<not> (\<exists>ls P'. pipeRun P ls P' \<and> snDone (ppSniffer P'))"
proof -
  obtain tr P where P: "pipeReach tr P" "backlog (Suc snifferQueueDepth) snifferQueueDepth P"
    using backlog_reach by blast
  obtain ls Q ob where q: "pipeRun P ls Q" "snHeld (ppSniffer Q) = Some ob"
      "backlog (Suc (Suc snifferQueueDepth)) snifferQueueDepth (Q\<lparr>ppSniffer := (ppSniffer Q)\<lparr>snHeld := None\<rparr>\<rparr>)"
    using backlog_dispatch [OF P(2)] .
  have "\<exists>ls' R. performAll [ActMark, ActClose, ActDispatch PickWrites, ActDispatch PickWrites, ActDispatch PickWrites] Q
      = Some (ls', R) \<and> snifferStuck R"
    using q(2,3) by (simp add: backlog_def snifferStuck_def run_eval)
  then obtain ls' R where r: "pipeRun Q ls' R" "snifferStuck R" using performAll_run by blast
  have "pipeReach ((tr @ ls) @ ls') R"
    using pipeReach_run [OF r(1) pipeReach_run [OF q(1) P(1)]] .
  moreover have "dAt (ppDisp R) = AtReturned" using r(2) by (simp add: snifferStuck_def)
  moreover have "\<not> (\<exists>ls P'. pipeRun R ls P' \<and> snDone (ppSniffer P'))"
    using snifferStuck_run [OF _ r(2)] by blast
  ultimately show ?thesis by (intro exI conjI)
qed

end
