(* ===== verification/PipelineProgress.thy ===== *)
theory PipelineProgress
  imports PipelineRuns
begin

text \<open>
  Panics, progress and deadlock of the pipeline's goroutines.  The phase invariant says which
  channels are closed when; from it no goroutine sends on or closes a closed channel.  Without new
  requests from the host the goroutines come to rest, and the states of rest are told apart: all
  work done, a barrier that waits for the host, a returned dispatcher, or the dispatcher and the
  sniffer blocked on each other.
\<close>

section \<open>Which channels are closed when\<close>

definition phaseInv :: "Pipe \<Rightarrow> bool" where
  "phaseInv P \<longleftrightarrow>
     (let p = ppPipe P; d = ppDisp P; s = ppSniffer P; w = ppWriter P
      in chClosed (snIn s) = (dSnifferClosed d \<or> dAt d = AtReturned) \<and>
         (dSnifferClosed d \<longrightarrow> \<not> dWritesOpen d) \<and>
         (\<not> dWritesOpen d \<longrightarrow> (dAt d \<in> {AtSelect, AtFinish, AtReturned} \<or> (\<exists>req. dAt d = AtSubmitBarrier req))) \<and>
         (dAt d \<in> {AtFinish, AtReturned} \<longrightarrow> \<not> dWritesOpen d) \<and>
         chClosed (snOut s) = snDone s \<and> (snDone s \<longrightarrow> chClosed (snIn s)) \<and>
         chClosed (plObserved p) = (dAt d = AtReturned) \<and> chClosed (wIn w) = (dAt d = AtReturned) \<and>
         \<not> chClosed (plBarriers p) \<and> (chClosed (plWrites p) \<longrightarrow> plClosing p \<and> plFallback p = []))"

lemma phaseInv_start: "phaseInv (startPipe disk s)"
  by (simp add: phaseInv_def startPipe_def NewWritePipeline_def startDispatcher_def NewSniffer_def NewWriter_def
      Let_def chan_simps)

lemma phaseInvD:
  assumes "phaseInv P"
  shows "chClosed (snIn (ppSniffer P)) = (dSnifferClosed (ppDisp P) \<or> dAt (ppDisp P) = AtReturned)"
    "dSnifferClosed (ppDisp P) \<Longrightarrow> \<not> dWritesOpen (ppDisp P)"
    "\<not> dWritesOpen (ppDisp P) \<Longrightarrow>
       (dAt (ppDisp P) \<in> {AtSelect, AtFinish, AtReturned} \<or> (\<exists>req. dAt (ppDisp P) = AtSubmitBarrier req))"
    "dAt (ppDisp P) \<in> {AtFinish, AtReturned} \<Longrightarrow> \<not> dWritesOpen (ppDisp P)"
    "chClosed (snOut (ppSniffer P)) = snDone (ppSniffer P)" "snDone (ppSniffer P) \<Longrightarrow> chClosed (snIn (ppSniffer P))"
    "chClosed (plObserved (ppPipe P)) = (dAt (ppDisp P) = AtReturned)"
    "chClosed (wIn (ppWriter P)) = (dAt (ppDisp P) = AtReturned)" "\<not> chClosed (plBarriers (ppPipe P))"
    "chClosed (plWrites (ppPipe P)) \<Longrightarrow> plClosing (ppPipe P) \<and> plFallback (ppPipe P) = []"
  using assms by (auto simp: phaseInv_def Let_def)

lemma acceptWrite_fields [simp]:
  "dWritesOpen (acceptWrite ret ev d) = dWritesOpen d" "dSnifferClosed (acceptWrite ret ev d) = dSnifferClosed d"
  "dAt (acceptWrite ret ev d) \<noteq> AtReturned" "dAt (acceptWrite ret ev d) \<noteq> AtFinish"
  by (auto simp: acceptWrite_def backTo_def split: option.splits)

lemma dispatched_fields [simp]:
  "dWritesOpen (dispatched ret ev d) = dWritesOpen d" "dSnifferClosed (dispatched ret ev d) = dSnifferClosed d"
  "dAt (dispatched ret ev d) \<noteq> AtReturned" "dAt (dispatched ret ev d) \<noteq> AtFinish"
  by (auto simp: dispatched_def backTo_def Let_def split: option.splits)

lemma recv_keeps: "recv c = Received a c' \<Longrightarrow> chClosed c' = chClosed c \<and> chCap c' = chCap c"
  by (auto simp: recv_def split: list.splits if_splits)

lemma Writer_submit_keeps: "Writer_submit cmd w = Done w' \<Longrightarrow> chClosed (wIn w') = chClosed (wIn w)"
  by (auto simp: Writer_submit_def chan_simps split: Attempt.splits)

text \<open>The select, case by case; while the writes are open no channel behind the dispatcher is closed.\<close>

lemma phaseInv_open:
  assumes "phaseInv P" and "dWritesOpen (ppDisp P)"
  shows "\<not> dSnifferClosed (ppDisp P)" "dAt (ppDisp P) \<noteq> AtFinish" "dAt (ppDisp P) \<noteq> AtReturned"
    "\<not> chClosed (snIn (ppSniffer P))" "\<not> chClosed (snOut (ppSniffer P))" "\<not> snDone (ppSniffer P)"
    "\<not> chClosed (plObserved (ppPipe P))" "\<not> chClosed (wIn (ppWriter P))"
proof -
  show a: "\<not> dSnifferClosed (ppDisp P)" "dAt (ppDisp P) \<noteq> AtFinish" "dAt (ppDisp P) \<noteq> AtReturned"
    using phaseInvD(2,4) [OF assms(1)] assms(2) by auto
  show "\<not> chClosed (snIn (ppSniffer P))" "\<not> chClosed (plObserved (ppPipe P))" "\<not> chClosed (wIn (ppWriter P))"
    using phaseInvD(1,7,8) [OF assms(1)] a by simp_all
  then show "\<not> snDone (ppSniffer P)" "\<not> chClosed (snOut (ppSniffer P))"
    using phaseInvD(5,6) [OF assms(1)] by auto
qed

lemma phaseInv_openI:
  assumes "dWritesOpen (ppDisp P)" and "\<not> dSnifferClosed (ppDisp P)" and "dAt (ppDisp P) \<notin> {AtFinish, AtReturned}"
    and "\<not> chClosed (snIn (ppSniffer P))" and "\<not> chClosed (snOut (ppSniffer P))" and "\<not> snDone (ppSniffer P)"
    and "\<not> chClosed (plObserved (ppPipe P))" and "\<not> chClosed (wIn (ppWriter P))" and "\<not> chClosed (plBarriers (ppPipe P))"
    and "chClosed (plWrites (ppPipe P)) \<Longrightarrow> plClosing (ppPipe P) \<and> plFallback (ppPipe P) = []"
  shows "phaseInv P"
  using assms by (simp add: phaseInv_def Let_def)

lemma select_phase:
  assumes inv: "phaseInv P" and at: "dAt (ppDisp P) = AtSelect" and op: "dWritesOpen (ppDisp P)"
    and st: "run_step pick P = Done P'"
  shows "phaseInv P'"
proof (cases pick)
  case PickWrites
  note o = phaseInv_open [OF inv op] and i = phaseInvD(9,10) [OF inv]
  have st': "select_writes P = Done P'" using st at op PickWrites by (simp add: run_step_def)
  show ?thesis
  proof (cases "recv (plWrites (ppPipe P))")
    case (Received ev c)
    then have "P' = P\<lparr>ppPipe := (ppPipe P)\<lparr>plWrites := c\<rparr>, ppDisp := acceptWrite None ev (ppDisp P)\<rparr>"
      using st' by (simp add: select_writes_def)
    then show ?thesis using o i op recv_keeps [OF Received] by (intro phaseInv_openI) auto
  next
    case RecvClosed
    then show ?thesis using st' o inv at by (simp add: select_writes_def closeChan_def phaseInv_def Let_def) auto
  qed (use st' in \<open>simp add: select_writes_def\<close>)
next
  case PickOutput
  note o = phaseInv_open [OF inv op] and i = phaseInvD(9,10) [OF inv]
  have st': "select_output P = Done P'" using st at op PickOutput by (simp add: run_step_def)
  then obtain ob c where r: "recv (snOut (ppSniffer P)) = Received ob c"
    using o(5) by (cases "recv (snOut (ppSniffer P))") (auto simp: select_output_def recv_RecvClosed)
  then have "P' = P\<lparr>ppSniffer := (ppSniffer P)\<lparr>snOut := c\<rparr>, ppDisp := (ppDisp P)\<lparr>dAt := AtSubmit ob\<rparr>\<rparr>"
    using st' by (simp add: select_output_def)
  then show ?thesis using o i op recv_keeps [OF r] by (intro phaseInv_openI) auto
next
  case PickBarriers
  note o = phaseInv_open [OF inv op] and i = phaseInvD(9,10) [OF inv]
  have st': "select_barriers P = Done P'" using st at op PickBarriers by (simp add: run_step_def)
  then obtain req c where r: "recv (plBarriers (ppPipe P)) = Received req c"
    by (auto simp: select_barriers_def split: RecvResult.splits)
  then have "P' = P\<lparr>ppPipe := (ppPipe P)\<lparr>plBarriers := c\<rparr>, ppDisp := (ppDisp P)\<lparr>dAt := AtBarrier req\<rparr>\<rparr>"
    using st' by (simp add: select_barriers_def)
  then show ?thesis using o i op recv_keeps [OF r] by (intro phaseInv_openI) auto
qed

lemma run_step_phase:
  assumes "phaseInv P" and "run_step pick P = Done P'"
  shows "phaseInv P'"
proof (cases "dAt (ppDisp P)")
  case AtSelect
  show ?thesis
  proof (cases "dWritesOpen (ppDisp P)")
    case False
    then show ?thesis
      using assms AtSelect by (auto simp: run_step_def phaseInv_def Let_def)
  next
    case True
    then show ?thesis using select_phase assms AtSelect by blast
  qed
next
  case (AtBarrier req)
  then have "dWritesOpen (ppDisp P)" using phaseInvD(3) [OF assms(1)] by auto
  note o = this phaseInv_open [OF assms(1) this] phaseInvD(9,10) [OF assms(1)]
  show ?thesis
  proof (cases "dDispatchedSeq (ppDisp P) < bqTargetSeq req")
    case False
    then show ?thesis using assms AtBarrier o by (auto simp: run_step_def handleBarrier_def intro!: phaseInv_openI)
  next
    case True
    then show ?thesis
    proof (cases "recv (plWrites (ppPipe P))")
      case (Received ev c)
      then have "P' = P\<lparr>ppPipe := (ppPipe P)\<lparr>plWrites := c\<rparr>, ppDisp := acceptWrite (Some req) ev (ppDisp P)\<rparr>"
        using assms(2) AtBarrier True o by (simp add: run_step_def handleBarrier_def)
      then show ?thesis using o recv_keeps [OF Received] by (intro phaseInv_openI) auto
    qed (use assms AtBarrier True o in \<open>auto simp: run_step_def handleBarrier_def phaseInv_def Let_def\<close>)
  qed
next
  case AtFinish
  then show ?thesis
    using assms
    by (auto simp: run_step_def phaseInv_def Let_def run_finish_def run_return_def closeChan_def Writer_CloseInput_def
        split: option.splits if_splits Attempt.splits)
next
  case (AtDispatch ev ret)
  then have "dWritesOpen (ppDisp P)" using phaseInvD(3) [OF assms(1)] by auto
  note o = this phaseInv_open [OF assms(1) this] phaseInvD(9,10) [OF assms(1)]
  then show ?thesis
    using assms AtDispatch by (auto simp: run_step_def send_Done intro!: phaseInv_openI split: Attempt.splits)
next
  case (AtSubmit ob)
  then show ?thesis
    using assms phaseInvD(3) [OF assms(1)]
    by (auto simp: run_step_def phaseInv_def Let_def Writer_SubmitWrite_def dest!: Writer_submit_keeps split: Attempt.splits)
next
  case (AtObserve ob)
  then show ?thesis
    using assms phaseInvD(3) [OF assms(1)]
    by (auto simp: run_step_def phaseInv_def Let_def send_Done split: Attempt.splits)
next
  case (AtSubmitBarrier req)
  then show ?thesis
    using assms
    by (auto simp: run_step_def phaseInv_def Let_def Writer_SubmitBarrier_def dest!: Writer_submit_keeps split: Attempt.splits)
next
  case AtReturned
  then show ?thesis using assms by (simp add: run_step_def)
qed

lemma Sniffer_step_flags:
  assumes "Sniffer_run_step s = Some s'" and "chClosed (snOut s) = snDone s"
  shows "chClosed (snIn s') = chClosed (snIn s)" "chClosed (snOut s') = snDone s'" "snDone s' \<Longrightarrow> chClosed (snIn s)"
  using assms
  by (auto simp: Sniffer_run_step_def closeChan_def send_Done recv_RecvClosed Let_def dest!: recv_keeps
      split: if_splits option.splits Attempt.splits RecvResult.splits prod.splits)

lemma phaseInv_cong:
  assumes "phaseInv P" and "ppDisp P' = ppDisp P"
    and "chClosed (snIn (ppSniffer P')) = chClosed (snIn (ppSniffer P))"
    and "chClosed (snOut (ppSniffer P')) = snDone (ppSniffer P')" and "snDone (ppSniffer P') \<Longrightarrow> chClosed (snIn (ppSniffer P))"
    and "chClosed (plObserved (ppPipe P')) = chClosed (plObserved (ppPipe P))"
    and "chClosed (wIn (ppWriter P')) = chClosed (wIn (ppWriter P))"
    and "chClosed (plBarriers (ppPipe P')) = chClosed (plBarriers (ppPipe P))"
    and "chClosed (plWrites (ppPipe P')) \<Longrightarrow> plClosing (ppPipe P') \<and> plFallback (ppPipe P') = []"
  shows "phaseInv P'"
  using assms(1,5) unfolding phaseInv_def Let_def by (simp add: assms(2-4,6-))

lemma pipeStep_phase:
  assumes "pipeStep P l P'" and "phaseInv P"
  shows "phaseInv P'"
  using assms(1)
proof cases
  case (dispatcher pick)
  then show ?thesis using run_step_phase assms(2) by blast
next
  case (sniffer s)
  then show ?thesis
    using Sniffer_step_flags [OF sniffer(3)] phaseInvD(5,10) [OF assms(2)]
    by (intro phaseInv_cong [OF assms(2)]) simp_all
next
  case (writer cmd c io)
  then show ?thesis
    using recv_keeps [OF writer(3)] phaseInvD(5,6,10) [OF assms(2)] by (intro phaseInv_cong [OF assms(2)]) simp_all
next
  case (reconciler ob c)
  then show ?thesis
    using recv_keeps [OF reconciler(3)] phaseInvD(5,6,10) [OF assms(2)] by (intro phaseInv_cong [OF assms(2)]) simp_all
qed (use phaseInvD(5,6,10) [OF assms(2)] in
    \<open>auto intro!: phaseInv_cong [OF assms(2)] simp: Pipeline_SubmitWrite_def fallbackSend_def Sync_wait_def Sync_send_def
      CloseWrites_mark_def CloseWrites_close_def closeChan_def send_Done split: if_splits Attempt.splits option.splits\<close>)

lemma pipeReach_phase: "pipeReach tr P \<Longrightarrow> phaseInv P"
  by (induction rule: pipeReach.induct) (auto intro: phaseInv_start pipeStep_phase)

section \<open>No panic\<close>

text \<open>The sniffer's sends and its close, which \<open>Sniffer_run_step\<close> has no step for when they panic.\<close>

definition snifferPanics :: "Sniffer \<Rightarrow> bool" where
  "snifferPanics s \<longleftrightarrow> \<not> snDone s \<and> chClosed (snOut s)"

lemma run_step_no_panic:
  assumes inv: "phaseInv P"
  shows "run_step pick P \<noteq> Panics"
proof (cases "dWritesOpen (ppDisp P)")
  case True
  note o = phaseInv_open [OF inv True] phaseInvD(9) [OF inv]
  show ?thesis
    using o True
    by (auto simp: run_step_def select_writes_def select_output_def select_barriers_def handleBarrier_def Let_def
        closeChan_def send_def recv_def Writer_SubmitWrite_def Writer_SubmitBarrier_def Writer_submit_def
        split: RunPC.splits SelectCase.splits list.splits if_splits Attempt.splits)
next
  case False
  note i = phaseInvD [OF inv]
  from i(3) [OF False] consider (select) "dAt (ppDisp P) = AtSelect" | (finish) "dAt (ppDisp P) = AtFinish"
    | (returned) "dAt (ppDisp P) = AtReturned" | (barrier) req where "dAt (ppDisp P) = AtSubmitBarrier req"
    by auto
  then show ?thesis
  proof cases
    case (barrier req)
    then show ?thesis
      using i(8) by (simp add: run_step_def Writer_SubmitBarrier_def Writer_submit_def send_def)
  next
    case finish
    then show ?thesis
      using i(1,7,8) by (simp add: run_step_def run_finish_def run_return_def Writer_CloseInput_def closeChan_def)
  qed (simp_all add: run_step_def False)
qed

text \<open>
  No goroutine of the pipeline panics: in every reachable state the dispatcher's next action, the
  sends of \<open>SubmitWrite\<close>, of its fallback senders and of \<open>Sync\<close>, and the sniffer's send and close find the
  channel they use open, whatever the interleaving with a shutdown.
\<close>

theorem pipeline_never_panics:
  assumes "pipeReach tr P"
  shows "run_step pick P \<noteq> Panics \<and> Pipeline_SubmitWrite ev (ppPipe P) \<noteq> Panics \<and>
    fallbackSend i (ppPipe P) \<noteq> Panics \<and> Sync_send j (ppPipe P) \<noteq> Panics \<and> \<not> snifferPanics (ppSniffer P)"
proof -
  note inv = pipeReach_phase [OF assms]
  show ?thesis
    using run_step_no_panic [OF inv, of pick] phaseInvD(5,9,10) [OF inv]
    by (auto simp: Pipeline_SubmitWrite_def fallbackSend_def Sync_send_def snifferPanics_def send_def split: Attempt.splits if_splits)
qed

theorem pipeline_never_panics_witness:
  "\<exists>tr P. pipeReach tr P \<and> submitted tr = [secondEvent, sampleEvent] \<and> run_step PickWrites P \<noteq> Panics"
proof -
  obtain tr P where "pipeReach tr P" "submitted tr = [secondEvent, sampleEvent]"
    by (rule swapped_reach)
  then show ?thesis using pipeline_never_panics [of tr P PickWrites] by blast
qed

section \<open>Capacities\<close>

text \<open>The buffers keep the sizes they were made with; the reorder map is finite.\<close>

definition sizeInv :: "Pipe \<Rightarrow> bool" where
  "sizeInv P \<longleftrightarrow>
     chCap (plWrites (ppPipe P)) = pipelineWriteDepth \<and> chCap (plBarriers (ppPipe P)) = pipelineBarrierDepth \<and>
     chCap (plObserved (ppPipe P)) = pipelineWriteDepth \<and> chCap (snIn (ppSniffer P)) = snifferQueueDepth \<and>
     chCap (snOut (ppSniffer P)) = snifferQueueDepth \<and> chCap (wIn (ppWriter P)) = writerQueueDepth \<and>
     finite (dom (dPending (ppDisp P)))"

lemma sizeInv_start: "sizeInv (startPipe disk s)"
  by (simp add: sizeInv_def startPipe_def NewWritePipeline_def startDispatcher_def NewSniffer_def NewWriter_def makeChan_def)

lemma acceptWrite_finite [simp]: "finite (dom (dPending (acceptWrite ret ev d))) = finite (dom (dPending d))"
  by (simp add: acceptWrite_def)

lemma dispatched_finite [simp]: "finite (dom (dPending (dispatched ret ev d))) = finite (dom (dPending d))"
  by (simp add: dispatched_def Let_def split: option.split)

lemma Writer_submit_cap: "Writer_submit cmd w = Done w' \<Longrightarrow> chCap (wIn w') = chCap (wIn w)"
  by (auto simp: Writer_submit_def send_Done split: Attempt.splits)

lemma run_step_size:
  assumes "run_step pick P = Done P'" and "sizeInv P"
  shows "sizeInv P'"
  using assms
  by (auto simp: run_step_def sizeInv_def select_writes_def select_output_def select_barriers_def handleBarrier_def
      run_finish_def run_return_def closeChan_def send_Done Writer_SubmitWrite_def Writer_SubmitBarrier_def
      Writer_CloseInput_def Let_def dest!: recv_keeps Writer_submit_cap
      split: RunPC.splits SelectCase.splits RecvResult.splits Attempt.splits option.splits if_splits)

lemma Sniffer_step_cap:
  "Sniffer_run_step s = Some s' \<Longrightarrow> chCap (snIn s') = chCap (snIn s) \<and> chCap (snOut s') = chCap (snOut s)"
  by (auto simp: Sniffer_run_step_def closeChan_def send_Done Let_def dest!: recv_keeps
      split: if_splits option.splits Attempt.splits RecvResult.splits prod.splits)

lemma pipeStep_size:
  assumes "pipeStep P l P'" and "sizeInv P"
  shows "sizeInv P'"
  using assms(1)
proof cases
  case (dispatcher pick)
  then show ?thesis using run_step_size assms(2) by blast
next
  case (sniffer s)
  then show ?thesis using Sniffer_step_cap [OF sniffer(3)] assms(2) by (simp add: sizeInv_def)
next
  case (writer cmd c io)
  then show ?thesis using recv_keeps [OF writer(3)] assms(2) by (simp add: sizeInv_def)
next
  case (reconciler ob c)
  then show ?thesis using recv_keeps [OF reconciler(3)] assms(2) by (simp add: sizeInv_def)
qed (use assms(2) in
    \<open>auto simp: sizeInv_def Pipeline_SubmitWrite_def fallbackSend_def Sync_wait_def Sync_send_def
      CloseWrites_mark_def CloseWrites_close_def closeChan_def send_Done split: if_splits Attempt.splits option.splits\<close>)

lemma pipeReach_size: "pipeReach tr P \<Longrightarrow> sizeInv P"
  by (induction rule: pipeReach.induct) (auto intro: sizeInv_start pipeStep_size)

section \<open>Steps without the host, and the work left\<close>

fun isInner :: "PipeAction \<Rightarrow> bool" where
  "isInner (ActSubmit _) = False"
| "isInner (ActSyncWait _ _) = False"
| "isInner ActMark = False"
| "isInner ActClose = False"
| "isInner _ = True"

definition innerStep :: "Pipe \<Rightarrow> Pipe \<Rightarrow> bool" where
  "innerStep P P' \<longleftrightarrow> (\<exists>a l. isInner a \<and> perform a P = Some (l, P'))"

fun pcWork :: "RunPC \<Rightarrow> nat" where
  "pcWork AtSelect = 2"
| "pcWork (AtDispatch ev ret) = (if ret = None then 10 else 13)"
| "pcWork (AtSubmit ob) = 6"
| "pcWork (AtObserve ob) = 4"
| "pcWork (AtBarrier req) = 5"
| "pcWork (AtSubmitBarrier req) = 4"
| "pcWork AtFinish = 1"
| "pcWork AtReturned = 0"

text \<open>Every place a write or a barrier waits in weighs more than the next one on its way.\<close>

definition dispatcherWork :: "Dispatcher \<Rightarrow> nat" where
  "dispatcherWork d = 9 * card (dom (dPending d)) + pcWork (dAt d) + (if dWritesOpen d then 1 else 0)"

definition snifferWork :: "Sniffer \<Rightarrow> nat" where
  "snifferWork s = 7 * length (chItems (snIn s)) + (if snHeld s = None then 0 else 6) +
     5 * length (chItems (snOut s)) + (if snDone s then 0 else 1)"

definition queueWork :: "WritePipeline \<Rightarrow> nat" where
  "queueWork p = 11 * length (plFallback p) + 10 * length (chItems (plWrites p)) + 5 * length (plSyncs p) +
     4 * length (chItems (plBarriers p)) + length (chItems (plObserved p))"

definition work :: "Pipe \<Rightarrow> nat" where
  "work P = queueWork (ppPipe P) + dispatcherWork (ppDisp P) + snifferWork (ppSniffer P) + length (chItems (wIn (ppWriter P)))"

lemmas work_defs = work_def queueWork_def dispatcherWork_def snifferWork_def

lemma recv_length: "recv c = Received a c' \<Longrightarrow> length (chItems c) = Suc (length (chItems c'))"
  by (auto simp: recv_def split: list.splits if_splits)

lemma Writer_submit_length:
  "Writer_submit cmd w = Done w' \<Longrightarrow> length (chItems (wIn w')) = Suc (length (chItems (wIn w)))"
  by (auto dest: Writer_submit_items)

lemma pcWork_back: "pcWork (backTo ret) = (if ret = None then 2 else 5)"
  by (cases ret) (simp_all add: backTo_def)

lemma acceptWrite_work:
  assumes "finite (dom (dPending d))" and "pcWork (dAt d) = (if ret = None then 2 else 5)"
  shows "dispatcherWork (acceptWrite ret ev d) < dispatcherWork d + 10"
proof -
  have "card (insert (eSeq ev) (dom (dPending d))) \<le> Suc (card (dom (dPending d)))"
    by (rule card_insert_le_m1) simp_all
  then show ?thesis using assms(2) by (auto simp: acceptWrite_def dispatcherWork_def pcWork_back)
qed

lemma dispatched_work:
  assumes "finite (dom (dPending d))" and "dAt d = AtDispatch ev ret"
  shows "dispatcherWork (dispatched ret ev d) + 7 < dispatcherWork d"
proof (cases "dPending d (dNextSeq d + 1)")
  case None
  then show ?thesis using assms(2) by (simp add: dispatched_def dispatcherWork_def pcWork_back)
next
  case (Some nx)
  then have "dNextSeq d + 1 \<in> dom (dPending d)" by blast
  then have "card (dom (dPending d)) = Suc (card (dom (dPending d) - {dNextSeq d + 1}))"
    using card.remove [OF assms(1)] by blast
  then show ?thesis using Some assms(2) by (simp add: dispatched_def dispatcherWork_def)
qed

lemma select_work:
  assumes "finite (dom (dPending (ppDisp P)))" and "dAt (ppDisp P) = AtSelect" and "dWritesOpen (ppDisp P)"
    and "run_step pick P = Done P'"
  shows "work P' < work P"
proof (cases pick)
  case PickWrites
  then have st: "select_writes P = Done P'" using assms by (simp add: run_step_def)
  show ?thesis
  proof (cases "recv (plWrites (ppPipe P))")
    case (Received ev c)
    then show ?thesis
      using st recv_length [OF Received] acceptWrite_work [OF assms(1), of None ev] assms(2)
      by (auto simp: select_writes_def work_def queueWork_def)
  next
    case RecvClosed
    then show ?thesis
      using st assms(2,3) by (auto simp: select_writes_def work_defs closeChan_def Let_def split: if_splits)
  qed (use st in \<open>simp add: select_writes_def\<close>)
next
  case PickOutput
  then have st: "select_output P = Done P'" using assms by (simp add: run_step_def)
  show ?thesis
  proof (cases "recv (snOut (ppSniffer P))")
    case (Received ob c)
    then show ?thesis
      using st recv_length [OF Received] assms(2) by (auto simp: select_output_def work_defs)
  qed (use st assms(2) in \<open>auto simp: select_output_def run_return_def work_defs closeChan_def split: if_splits\<close>)
next
  case PickBarriers
  then have st: "select_barriers P = Done P'" using assms by (simp add: run_step_def)
  then obtain req c where r: "recv (plBarriers (ppPipe P)) = Received req c"
    by (auto simp: select_barriers_def split: RecvResult.splits)
  then show ?thesis using st recv_length [OF r] assms(2) by (auto simp: select_barriers_def work_defs)
qed

lemma barrier_work:
  assumes "finite (dom (dPending (ppDisp P)))" and "dAt (ppDisp P) = AtBarrier req" and "handleBarrier req P = Done P'"
  shows "work P' < work P"
proof (cases "dDispatchedSeq (ppDisp P) < bqTargetSeq req \<and> dWritesOpen (ppDisp P)")
  case True
  show ?thesis
  proof (cases "recv (plWrites (ppPipe P))")
    case (Received ev c)
    then show ?thesis
      using assms True recv_length [OF Received] acceptWrite_work [OF assms(1), of "Some req" ev]
      by (auto simp: handleBarrier_def work_def queueWork_def)
  qed (use assms True in \<open>auto simp: handleBarrier_def work_defs\<close>)
next
  case False
  then show ?thesis using assms by (auto simp: handleBarrier_def work_defs Let_def)
qed

lemma run_step_work:
  assumes f: "finite (dom (dPending (ppDisp P)))" and st: "run_step pick P = Done P'"
  shows "work P' < work P"
proof (cases "dAt (ppDisp P)")
  case AtSelect
  then show ?thesis
    using select_work [OF f] st by (cases "dWritesOpen (ppDisp P)") (auto simp: run_step_def work_defs)
next
  case (AtBarrier req)
  then show ?thesis using barrier_work [OF f] st by (simp add: run_step_def)
next
  case (AtDispatch ev ret)
  then show ?thesis
    using st dispatched_work [OF f AtDispatch] by (auto simp: run_step_def send_Done work_def snifferWork_def split: Attempt.splits)
next
  case (AtSubmit ob)
  then show ?thesis
    using st by (auto simp: run_step_def Writer_SubmitWrite_def work_defs dest!: Writer_submit_length split: Attempt.splits)
next
  case (AtSubmitBarrier req)
  then show ?thesis
    using st by (auto simp: run_step_def Writer_SubmitBarrier_def work_defs dest!: Writer_submit_length split: Attempt.splits)
next
  case AtFinish
  then show ?thesis
    using st by (auto simp: run_step_def run_finish_def run_return_def Writer_CloseInput_def closeChan_def work_defs
        split: if_splits option.splits)
qed (use st in \<open>auto simp: run_step_def send_Done work_defs split: Attempt.splits\<close>)

lemma Sniffer_step_work:
  assumes "Sniffer_run_step s = Some s'"
  shows "snifferWork s' < snifferWork s"
  using assms
  by (auto simp: Sniffer_run_step_def snifferWork_def closeChan_def send_Done Let_def dest!: recv_length
      split: if_splits option.splits Attempt.splits RecvResult.splits prod.splits)

lemma inner_work:
  assumes "innerStep P P'" and "finite (dom (dPending (ppDisp P)))"
  shows "work P' < work P"
proof -
  obtain a l where a: "isInner a" "perform a P = Some (l, P')" using assms(1) by (auto simp: innerStep_def)
  show ?thesis
  proof (cases a)
    case (ActDispatch pick)
    then show ?thesis using a(2) run_step_work [OF assms(2)] by (auto split: Attempt.splits)
  next
    case ActSniff
    then show ?thesis using a(2) Sniffer_step_work by (auto simp: work_def split: option.splits)
  next
    case (ActWrite io)
    then show ?thesis using a(2) by (auto simp: work_def dest!: recv_length split: RecvResult.splits)
  next
    case ActReconcile
    then show ?thesis using a(2) by (auto simp: work_defs dest!: recv_length split: RecvResult.splits)
  next
    case (ActFallback i)
    then obtain p where p: "fallbackSend i (ppPipe P) = Done p" "P' = P\<lparr>ppPipe := p\<rparr>"
      using a(2) by (auto simp: ofAttempt_def split: Attempt.splits)
    then have "queueWork p < queueWork (ppPipe P)"
      by (auto simp: fallbackSend_def send_Done queueWork_def split: if_splits Attempt.splits)
    then show ?thesis by (simp add: work_def p(2))
  next
    case (ActSyncSend i)
    then obtain p where p: "Sync_send i (ppPipe P) = Done p" "P' = P\<lparr>ppPipe := p\<rparr>"
      using a(2) by (auto simp: ofAttempt_def split: Attempt.splits)
    then have "queueWork p < queueWork (ppPipe P)"
      by (auto simp: Sync_send_def send_Done queueWork_def split: if_splits Attempt.splits)
    then show ?thesis by (simp add: work_def p(2))
  qed (use a(1) in simp_all)
qed

lemma innerStep_reach:
  assumes "innerStep P P'" and "pipeReach tr P"
  shows "\<exists>l. pipeReach (tr @ [l]) P'"
proof -
  obtain a l where "perform a P = Some (l, P')" using assms(1) by (auto simp: innerStep_def)
  then show ?thesis using pipeReach.step [OF assms(2) perform_step] by blast
qed

lemma inner_run_bound: "pipeReach tr P \<Longrightarrow> (innerStep ^^ n) P Q \<Longrightarrow> n + work Q \<le> work P"
proof (induction n arbitrary: tr P)
  case 0
  then show ?case by simp
next
  case (Suc n)
  then obtain P1 where st: "innerStep P P1" and rn: "(innerStep ^^ n) P1 Q"
    by (meson relpowp_Suc_D2)
  obtain l where "pipeReach (tr @ [l]) P1" using innerStep_reach [OF st Suc.prems(1)] by blast
  then have "n + work Q \<le> work P1" using Suc.IH rn by blast
  moreover have "work P1 < work P"
    using inner_work [OF st] pipeReach_size [OF Suc.prems(1)] by (simp add: sizeInv_def)
  ultimately show ?case by simp
qed

lemma inner_run_ends: "pipeReach tr P \<Longrightarrow> \<exists>Q. innerStep\<^sup>*\<^sup>* P Q \<and> \<not> (\<exists>R. innerStep Q R)"
proof (induction "work P" arbitrary: tr P rule: less_induct)
  case less
  show ?case
  proof (cases "\<exists>R. innerStep P R")
    case True
    then obtain R where R: "innerStep P R" by blast
    obtain l where l: "pipeReach (tr @ [l]) R" using innerStep_reach [OF R less.prems] by blast
    have "work R < work P"
      using inner_work [OF R] pipeReach_size [OF less.prems] by (simp add: sizeInv_def)
    from less.hyps [OF this l] show ?thesis using R by (meson converse_rtranclp_into_rtranclp)
  qed blast
qed

text \<open>
  Left alone, the pipeline comes to rest: from every reachable state the goroutines (fallback senders,
  \<open>Sync\<close> calls, dispatcher, sniffer, writer, reconciler) can take at most \<open>work P\<close> steps without a new
  request from the host, whatever the interleaving and the outcomes of the system calls, and a state
  of rest is reached.
\<close>

theorem pipeline_settles:
  assumes "pipeReach tr P"
  shows "(\<forall>n Q. (innerStep ^^ n) P Q \<longrightarrow> n \<le> work P) \<and> (\<exists>Q. innerStep\<^sup>*\<^sup>* P Q \<and> \<not> (\<exists>R. innerStep Q R))"
proof
  show "\<forall>n Q. (innerStep ^^ n) P Q \<longrightarrow> n \<le> work P"
    using inner_run_bound [OF assms] by fastforce
  show "\<exists>Q. innerStep\<^sup>*\<^sup>* P Q \<and> \<not> (\<exists>R. innerStep Q R)"
    by (rule inner_run_ends [OF assms])
qed

theorem pipeline_settles_witness:
  "\<exists>tr P Q. pipeReach tr P \<and> submitted tr = [secondEvent, sampleEvent] \<and> innerStep\<^sup>*\<^sup>* P Q \<and> \<not> (\<exists>R. innerStep Q R)"
proof -
  obtain tr P where "pipeReach tr P" "submitted tr = [secondEvent, sampleEvent]"
    by (rule swapped_reach)
  then show ?thesis using pipeline_settles [of tr P] by blast
qed

section \<open>The states of rest\<close>

text \<open>Dispatcher and sniffer blocked on each other's full queues.\<close>

definition deadlocked :: "Pipe \<Rightarrow> bool" where
  "deadlocked P \<longleftrightarrow>
     (\<exists>ev ret. dAt (ppDisp P) = AtDispatch ev ret) \<and> snHeld (ppSniffer P) \<noteq> None \<and> \<not> snDone (ppSniffer P) \<and>
     \<not> chClosed (snIn (ppSniffer P)) \<and> \<not> chClosed (snOut (ppSniffer P)) \<and>
     chCap (snIn (ppSniffer P)) \<le> length (chItems (snIn (ppSniffer P))) \<and>
     chCap (snOut (ppSniffer P)) \<le> length (chItems (snOut (ppSniffer P)))"

text \<open>A barrier whose target number no submitted write has brought.\<close>

definition waitsForHost :: "Pipe \<Rightarrow> bool" where
  "waitsForHost P \<longleftrightarrow>
     (\<exists>req. dAt (ppDisp P) = AtBarrier req \<and> dDispatchedSeq (ppDisp P) < bqTargetSeq req) \<and>
     chItems (plWrites (ppPipe P)) = [] \<and> \<not> chClosed (plWrites (ppPipe P))"

definition nothingLeft :: "Pipe \<Rightarrow> bool" where
  "nothingLeft P \<longleftrightarrow>
     dAt (ppDisp P) = AtSelect \<and> chItems (plWrites (ppPipe P)) = [] \<and> plFallback (ppPipe P) = [] \<and>
     plSyncs (ppPipe P) = [] \<and> chItems (plBarriers (ppPipe P)) = [] \<and> chItems (plObserved (ppPipe P)) = [] \<and>
     chItems (snIn (ppSniffer P)) = [] \<and> snHeld (ppSniffer P) = None \<and> chItems (snOut (ppSniffer P)) = [] \<and>
     chItems (wIn (ppWriter P)) = []"

lemma no_inner:
  assumes "\<not> (\<exists>R. innerStep P R)" and "isInner a"
  shows "perform a P = None"
  using assms by (cases "perform a P") (auto simp: innerStep_def)

lemma writer_rest: "\<not> (\<exists>R. innerStep P R) \<Longrightarrow> chItems (wIn (ppWriter P)) = []"
  using no_inner [of P "ActWrite quietIo"] by (auto simp: recv_def split: RecvResult.splits list.splits if_splits)

lemma reconciler_rest: "\<not> (\<exists>R. innerStep P R) \<Longrightarrow> chItems (plObserved (ppPipe P)) = []"
  using no_inner [of P ActReconcile] by (auto simp: recv_def split: RecvResult.splits list.splits if_splits)

lemma dispatcher_rest: "\<not> (\<exists>R. innerStep P R) \<Longrightarrow> phaseInv P \<Longrightarrow> run_step pick P = Blocks"
  using no_inner [of P "ActDispatch pick"] run_step_no_panic [of P pick]
  by (cases "run_step pick P") (auto split: Attempt.splits)

lemma sniffer_rest:
  assumes "\<not> (\<exists>R. innerStep P R)" and "\<not> snDone (ppSniffer P)" and "\<not> chClosed (snOut (ppSniffer P))"
  shows "snHeld (ppSniffer P) \<noteq> None \<and> chCap (snOut (ppSniffer P)) \<le> length (chItems (snOut (ppSniffer P))) \<or>
    snHeld (ppSniffer P) = None \<and> chItems (snIn (ppSniffer P)) = []"
  using no_inner [of P ActSniff] assms
  by (auto simp: Sniffer_run_step_def send_def recv_def closeChan_def Let_def
      split: option.splits list.splits if_splits prod.splits)

lemma senders_rest:
  assumes "\<not> (\<exists>R. innerStep P R)" and "\<not> chClosed (plWrites (ppPipe P)) \<or> plFallback (ppPipe P) = []"
    and "\<not> chClosed (plBarriers (ppPipe P))" and "sizeInv P"
  shows "chItems (plWrites (ppPipe P)) = [] \<Longrightarrow> plFallback (ppPipe P) = []"
    "chItems (plBarriers (ppPipe P)) = [] \<Longrightarrow> plSyncs (ppPipe P) = []"
  using no_inner [of P "ActFallback 0"] no_inner [of P "ActSyncSend 0"] assms
  by (auto simp: ofAttempt_def fallbackSend_def Sync_send_def send_def sizeInv_def pipelineWriteDepth_def
      pipelineBarrierDepth_def split: if_splits)

lemma submit_rest:
  assumes "\<not> (\<exists>R. innerStep P R)" and "phaseInv P" and "sizeInv P"
  shows "dAt (ppDisp P) \<noteq> AtSubmit ob" "dAt (ppDisp P) \<noteq> AtObserve ob" "dAt (ppDisp P) \<noteq> AtSubmitBarrier req"
    "dAt (ppDisp P) \<noteq> AtFinish"
  using dispatcher_rest [OF assms(1,2), of PickWrites] writer_rest [OF assms(1)] reconciler_rest [OF assms(1)]
    phaseInvD(1,7,8) [OF assms(2)] assms(3)
  by (auto simp: run_step_def Writer_SubmitWrite_def Writer_SubmitBarrier_def Writer_submit_def send_def sizeInv_def
      writerQueueDepth_def pipelineWriteDepth_def run_finish_def run_return_def Writer_CloseInput_def closeChan_def
      split: if_splits)

lemma rest_cases:
  assumes rest: "\<not> (\<exists>R. innerStep P R)" and inv: "phaseInv P" and sz: "sizeInv P"
  shows "deadlocked P \<or> waitsForHost P \<or> dAt (ppDisp P) = AtReturned \<or> nothingLeft P"
proof -
  note b = dispatcher_rest [OF rest inv] and i = phaseInvD [OF inv]
  have op: "dWritesOpen (ppDisp P)" if "dAt (ppDisp P) \<noteq> AtReturned"
  proof (rule ccontr)
    assume c: "\<not> dWritesOpen (ppDisp P)"
    then have "dAt (ppDisp P) = AtSelect" using i(3) that submit_rest [OF rest inv sz] by auto
    then show False using b [of PickWrites] c by (simp add: run_step_def)
  qed
  have fb: "\<not> chClosed (plWrites (ppPipe P)) \<or> plFallback (ppPipe P) = []" using i(10) by blast
  show ?thesis
  proof (cases "dAt (ppDisp P)")
    case AtSelect
    note o = phaseInv_open [OF inv op] and open' = op
    have "select_writes P = Blocks" "select_output P = Blocks" "select_barriers P = Blocks"
      using b [of PickWrites] b [of PickOutput] b [of PickBarriers] AtSelect op by (simp_all add: run_step_def)
    then have "chItems (plWrites (ppPipe P)) = []" "chItems (snOut (ppSniffer P)) = []" "chItems (plBarriers (ppPipe P)) = []"
      by (auto simp: select_writes_def select_output_def select_barriers_def recv_def Let_def run_return_def closeChan_def
          split: list.splits if_splits option.splits)
    moreover have "snHeld (ppSniffer P) = None \<and> chItems (snIn (ppSniffer P)) = []"
      using sniffer_rest [OF rest] o AtSelect calculation(2) sz by (auto simp: sizeInv_def snifferQueueDepth_def)
    ultimately show ?thesis
      using AtSelect writer_rest [OF rest] reconciler_rest [OF rest] senders_rest [OF rest fb i(9) sz]
      by (simp add: nothingLeft_def)
  next
    case (AtDispatch ev ret)
    then have "\<not> chClosed (snIn (ppSniffer P))" "chCap (snIn (ppSniffer P)) \<le> length (chItems (snIn (ppSniffer P)))"
      using b [of PickWrites] by (auto simp: run_step_def send_def split: if_splits)
    moreover from this have "chItems (snIn (ppSniffer P)) \<noteq> []" using sz by (auto simp: sizeInv_def snifferQueueDepth_def)
    ultimately show ?thesis
      using sniffer_rest [OF rest] phaseInv_open [OF inv op] AtDispatch by (auto simp: deadlocked_def)
  next
    case (AtBarrier req)
    then show ?thesis
      using b [of PickWrites] op
      by (auto simp: run_step_def handleBarrier_def waitsForHost_def recv_def Let_def split: list.splits if_splits)
  qed (use submit_rest [OF rest inv sz] in auto)
qed

text \<open>When nothing is left, every submitted write has gone through to the writer.\<close>

lemma idle_all_handled:
  assumes inv: "pipeInv tr P" and idle: "nothingLeft P"
    and "eSeq ` set (submitted tr) = word_of_nat ` {1..k}" and "inj_on eSeq (set (submitted tr))" and "k < 2 ^ 64 - 1"
  shows "map (\<lambda>ob. eSeq (oEvent ob)) (writesOf (handled tr)) = map word_of_nat [1..<Suc k]"
    and "oEvent ` set (writesOf (handled tr)) = set (submitted tr)"
proof -
  have s: "length (sent tr) = k" "set (sent tr) = set (submitted tr)"
    using reorder_complete [OF inv assms(3-5)] idle by (auto simp: nothingLeft_def sending_def)
  have "commanded tr = handled tr" using inv idle by (simp add: pipeInv_def nothingLeft_def)
  then have w: "writesOf (handled tr) = forwarded tr" by (metis writesOf_commanded)
  have "fst (observeAll (sent tr) NewTSScanner) = forwarded tr"
    using inv idle by (auto simp: pipeInv_def fifoInv_def nothingLeft_def forwarding_def holding_def)
  then have ev: "map oEvent (writesOf (handled tr)) = sent tr"
    using observeAll_events [of "sent tr" NewTSScanner] w by simp
  have "map eSeq (sent tr) = map word_of_nat [1..<Suc k]"
    using inv s(1) unfolding pipeInv_def reorderInv_def by blast
  then show "map (\<lambda>ob. eSeq (oEvent ob)) (writesOf (handled tr)) = map word_of_nat [1..<Suc k]"
    unfolding ev [symmetric] by (simp add: comp_def del: upt_Suc)
  show "oEvent ` set (writesOf (handled tr)) = set (submitted tr)"
    using ev s(2) by (metis list.set_map)
qed

text \<open>
  At rest everything is done, with three exceptions: when no goroutine of the pipeline can move, and
  the dispatcher has not returned, is not waiting for a barrier's target and is not blocked on the
  sniffer, then every write the host submitted has been handled by the writer, once and in the order
  of the numbers, and no barrier is left over.
\<close>

theorem pipeline_rest:
  assumes "pipeReach tr P" and "\<not> (\<exists>R. innerStep P R)"
    and "dAt (ppDisp P) \<noteq> AtReturned" and "\<not> waitsForHost P" and "\<not> deadlocked P"
    and "eSeq ` set (submitted tr) = word_of_nat ` {1..k}" and "inj_on eSeq (set (submitted tr))" and "k < 2 ^ 64 - 1"
  shows "map (\<lambda>ob. eSeq (oEvent ob)) (writesOf (handled tr)) = map word_of_nat [1..<Suc k] \<and>
    oEvent ` set (writesOf (handled tr)) = set (submitted tr) \<and>
    chItems (plBarriers (ppPipe P)) = [] \<and> plSyncs (ppPipe P) = []"
proof -
  have idle: "nothingLeft P"
    using rest_cases [OF assms(2) pipeReach_phase [OF assms(1)] pipeReach_size [OF assms(1)]] assms(3-5) by blast
  show ?thesis
    using idle_all_handled [OF pipeReach_inv [OF assms(1)] idle assms(6-8)] idle by (simp add: nothingLeft_def)
qed

text \<open>One write taken through to the end.\<close>

lemma finished_run:
  "\<exists>P. performAll [ActSubmit sampleEvent, ActDispatch PickWrites, ActDispatch PickWrites, ActSniff, ActSniff,
       ActDispatch PickOutput, ActDispatch PickOutput, ActDispatch PickOutput, ActWrite quietIo, ActReconcile]
       (startPipe disk s) =
     Some ([LSubmit sampleEvent, LQuiet, LSent sampleEvent, LQuiet, LQuiet, LQuiet, LForward sampleObserved, LQuiet,
       LWriter (writerWrite sampleObserved), LQuiet], P) \<and> nothingLeft P \<and> dWritesOpen (ppDisp P) \<and>
     \<not> chClosed (plWrites (ppPipe P)) \<and> \<not> chClosed (snIn (ppSniffer P)) \<and> \<not> chClosed (snOut (ppSniffer P))"
proof -
  obtain sc where "observe sampleEvent NewTSScanner = ([], sampleObserved, sc)"
    by (rule observe_sample_eq)
  then show ?thesis by (simp add: run_eval nothingLeft_def)
qed

lemma nothing_moves:
  assumes "nothingLeft P" and "dWritesOpen (ppDisp P)" and "\<not> chClosed (plWrites (ppPipe P))"
    and "\<not> chClosed (snIn (ppSniffer P))" and "\<not> chClosed (snOut (ppSniffer P))"
  shows "\<not> (\<exists>R. innerStep P R)"
proof -
  have "perform a P = None" if "isInner a" for a
    using that assms
    by (cases a) (auto simp: nothingLeft_def ofAttempt_def fallbackSend_def Sync_send_def recv_def run_step_def
        select_writes_def select_output_def select_barriers_def Sniffer_run_step_def
        split: SelectCase.splits Attempt.splits)
  then show ?thesis by (auto simp: innerStep_def)
qed

theorem pipeline_rest_witness:
  "\<exists>tr P. pipeReach tr P \<and> submitted tr = [sampleEvent] \<and> \<not> (\<exists>R. innerStep P R) \<and>
     map (\<lambda>ob. eSeq (oEvent ob)) (writesOf (handled tr)) = [1]"
proof -
  let ?tr = "[LSubmit sampleEvent, LQuiet, LSent sampleEvent, LQuiet, LQuiet, LQuiet, LForward sampleObserved, LQuiet,
       LWriter (writerWrite sampleObserved), LQuiet]"
  obtain P where r: "pipeReach ?tr P" and P: "nothingLeft P" "dWritesOpen (ppDisp P)" "\<not> chClosed (plWrites (ppPipe P))"
      "\<not> chClosed (snIn (ppSniffer P))" "\<not> chClosed (snOut (ppSniffer P))"
    using finished_run [of "\<lparr>fSize = 64, fData = (\<lambda>_. 1)\<rparr>" shm0] performAll_reach by blast
  have s: "submitted ?tr = [sampleEvent]" by (simp add: submitted_def)
  note rest = nothing_moves [OF P]
  have at: "dAt (ppDisp P) = AtSelect" using P(1) by (simp add: nothingLeft_def)
  have "map (\<lambda>ob. eSeq (oEvent ob)) (writesOf (handled ?tr)) = map word_of_nat [1..<Suc 1]"
    using pipeline_rest [OF r rest, of 1] s at by (simp add: waitsForHost_def deadlocked_def)
  then have "map (\<lambda>ob. eSeq (oEvent ob)) (writesOf (handled ?tr)) = [1]" by simp
  then show ?thesis using r s rest by (intro exI conjI)
qed

end
