(* ===== verification/PipelineDeadlock.thy ===== *)
theory PipelineDeadlock
  imports PipelineProgress
begin

text \<open>
  The third state of rest is reachable, by ordinary writes alone.  Only the dispatcher empties the
  sniffer's output and only the sniffer empties its input, but when both cases of its select are ready
  the dispatcher may take the next write, and then its send to the sniffer waits.  The two queues and
  the observation in hand hold 2049 writes; the next send finds the input full for ever.
\<close>

section \<open>A dispatcher that keeps choosing writes\<close>

text \<open>
  Write \<open>k\<close> is next; \<open>m\<close> observations wait behind the sniffer, \<open>i\<close> writes before it, and \<open>h\<close> says whether it
  has one in hand.
\<close>

definition busy :: "nat \<Rightarrow> nat \<Rightarrow> bool \<Rightarrow> nat \<Rightarrow> Pipe \<Rightarrow> bool" where
  "busy k m h i P \<longleftrightarrow>
     dAt (ppDisp P) = AtSelect \<and> dWritesOpen (ppDisp P) \<and> dNextSeq (ppDisp P) = word_of_nat k \<and>
     dPending (ppDisp P) = (\<lambda>_. None) \<and> plWrites (ppPipe P) = makeChan pipelineWriteDepth \<and> \<not> plClosing (ppPipe P) \<and>
     chCap (snIn (ppSniffer P)) = snifferQueueDepth \<and> \<not> chClosed (snIn (ppSniffer P)) \<and>
     length (chItems (snIn (ppSniffer P))) = i \<and> (snHeld (ppSniffer P) \<noteq> None) = h \<and> \<not> snDone (ppSniffer P) \<and>
     length (chItems (snOut (ppSniffer P))) = m \<and> chCap (snOut (ppSniffer P)) = snifferQueueDepth \<and>
     \<not> chClosed (snOut (ppSniffer P))"

lemma numberedEvent_seq [simp]: "eSeq (numberedEvent k) = word_of_nat k"
  by (simp add: numberedEvent_def)

lemma busy_start: "busy 1 0 False 0 (startPipe disk s)"
  by (simp add: busy_def startPipe_def NewWritePipeline_def startDispatcher_def NewSniffer_def makeChan_def)

text \<open>Schedules of host writes, selects that pick a write and steps of the sniffer, and what they submit.\<close>

abbreviation plainActions :: "PipeAction set" where
  "plainActions \<equiv> range ActSubmit \<union> {ActDispatch PickWrites, ActSniff}"

definition leads :: "Pipe \<Rightarrow> WriteEvent list \<Rightarrow> Pipe \<Rightarrow> bool" where
  "leads P S P' \<longleftrightarrow> (\<exists>as ls. performAll as P = Some (ls, P') \<and> set as \<subseteq> plainActions \<and> submitted ls = S)"

lemma performAll_append:
  "performAll as P = Some (ls, Q) \<Longrightarrow> performAll bs Q = Some (ms, R) \<Longrightarrow> performAll (as @ bs) P = Some (ls @ ms, R)"
  by (induction as arbitrary: P ls) (auto split: option.splits)

lemma leads_refl: "leads P [] P"
  unfolding leads_def by (intro exI [of _ "[]"]) (simp add: submitted_def)

lemma leads_trans:
  assumes "leads P S Q" and "leads Q S' R"
  shows "leads P (S @ S') R"
proof -
  obtain as ls where a: "performAll as P = Some (ls, Q)" "set as \<subseteq> plainActions" "submitted ls = S"
    using assms(1) by (auto simp: leads_def)
  obtain bs ms where b: "performAll bs Q = Some (ms, R)" "set bs \<subseteq> plainActions" "submitted ms = S'"
    using assms(2) by (auto simp: leads_def)
  have "submitted (ls @ ms) = S @ S'" using a(3) b(3) by (simp add: submitted_def)
  then show ?thesis
    unfolding leads_def using performAll_append [OF a(1) b(1)] a(2) b(2) by (intro exI [of _ "as @ bs"] exI [of _ "ls @ ms"]) simp
qed

lemma busy_send:
  assumes "busy k m h i P" and "i < snifferQueueDepth"
  shows "\<exists>P'. leads P [numberedEvent k] P' \<and> busy (Suc k) m h (Suc i) P'"
proof -
  have "\<exists>P'. performAll [ActSubmit (numberedEvent k), ActDispatch PickWrites, ActDispatch PickWrites] P =
      Some ([LSubmit (numberedEvent k), LQuiet, LSent (numberedEvent k)], P') \<and> busy (Suc k) m h (Suc i) P'"
    using assms
    by (simp add: busy_def Pipeline_SubmitWrite_def run_step_def select_writes_def recv_def acceptWrite_def send_def dispatched_def
        backTo_def runLabel_def makeChan_def pipelineWriteDepth_def Let_def add.commute)
  then obtain P' where "performAll [ActSubmit (numberedEvent k), ActDispatch PickWrites, ActDispatch PickWrites] P =
      Some ([LSubmit (numberedEvent k), LQuiet, LSent (numberedEvent k)], P')" "busy (Suc k) m h (Suc i) P'"
    by blast
  moreover from this(1) have "leads P [numberedEvent k] P'"
    unfolding leads_def by (intro exI conjI) (assumption, simp_all add: submitted_def)
  ultimately show ?thesis by blast
qed

lemma leads_sniff: "performAll [ActSniff] P = Some (ls, P') \<Longrightarrow> leads P [] P'"
  unfolding leads_def by (intro exI [of _ "[ActSniff]"] exI [of _ ls]) (auto simp: submitted_def split: option.splits)

lemma busy_take:
  assumes "busy k m False (Suc i) P"
  shows "\<exists>P'. leads P [] P' \<and> busy k m True i P'"
proof -
  obtain ev evs where q: "chItems (snIn (ppSniffer P)) = ev # evs" "length evs = i"
    using assms by (auto simp: busy_def length_Suc_conv)
  obtain casts ob sc where "observe ev (snScanner (ppSniffer P)) = (casts, ob, sc)" by (metis prod.exhaust)
  then have "\<exists>ls P'. performAll [ActSniff] P = Some (ls, P') \<and> busy k m True i P'"
    using assms q by (simp add: busy_def Sniffer_run_step_def recv_def)
  then show ?thesis using leads_sniff by blast
qed

lemma busy_pass:
  assumes "busy k m True i P" and "m < snifferQueueDepth"
  shows "\<exists>P'. leads P [] P' \<and> busy k (Suc m) False i P'"
proof -
  have "\<exists>ls P'. performAll [ActSniff] P = Some (ls, P') \<and> busy k (Suc m) False i P'"
    using assms by (auto simp: busy_def Sniffer_run_step_def send_def)
  then show ?thesis using leads_sniff by blast
qed

lemma numbered_more: "map numberedEvent [j..<j + d] @ [numberedEvent (j + d)] = map numberedEvent [j..<j + Suc d]"
  by simp

text \<open>First the output fills up, one observation per write, then the input.\<close>

lemma busy_out:
  "busy k 0 False 0 P \<Longrightarrow> d \<le> snifferQueueDepth \<Longrightarrow>
     \<exists>P'. leads P (map numberedEvent [k..<k + d]) P' \<and> busy (k + d) d False 0 P'"
proof (induction d)
  case 0
  then show ?case using leads_refl by auto
next
  case (Suc d)
  then obtain Q where Q: "leads P (map numberedEvent [k..<k + d]) Q" "busy (k + d) d False 0 Q" by auto
  obtain Q1 where 1: "leads Q [numberedEvent (k + d)] Q1" "busy (Suc (k + d)) d False 1 Q1"
    using busy_send [OF Q(2)] by (auto simp: snifferQueueDepth_def)
  obtain Q2 where 2: "leads Q1 [] Q2" "busy (Suc (k + d)) d True 0 Q2"
    using busy_take [of "Suc (k + d)" d 0 Q1] 1(2) by auto
  obtain Q3 where 3: "leads Q2 [] Q3" "busy (Suc (k + d)) (Suc d) False 0 Q3"
    using busy_pass [OF 2(2)] Suc.prems by auto
  have "leads P (map numberedEvent [k..<k + Suc d]) Q3"
    using leads_trans [OF Q(1) leads_trans [OF 1(1) leads_trans [OF 2(1) 3(1)]]] by simp
  then show ?case using 3(2) by auto
qed

lemma busy_in:
  "busy k m True 0 P \<Longrightarrow> d \<le> snifferQueueDepth \<Longrightarrow>
     \<exists>P'. leads P (map numberedEvent [k..<k + d]) P' \<and> busy (k + d) m True d P'"
proof (induction d)
  case 0
  then show ?case using leads_refl by auto
next
  case (Suc d)
  then obtain Q where Q: "leads P (map numberedEvent [k..<k + d]) Q" "busy (k + d) m True d Q" by auto
  obtain Q1 where 1: "leads Q [numberedEvent (k + d)] Q1" "busy (Suc (k + d)) m True (Suc d) Q1"
    using busy_send [OF Q(2)] Suc.prems by auto
  have "leads P (map numberedEvent [k..<k + Suc d]) Q1" using leads_trans [OF Q(1) 1(1)] by simp
  then show ?case using 1(2) by auto
qed

lemma start_deadlock:
  "\<exists>P. leads (startPipe disk s) (map numberedEvent [1..<2051]) P \<and> deadlocked P"
proof -
  obtain Q where Q: "leads (startPipe disk s) (map numberedEvent [1..<1025]) Q" "busy 1025 1024 False 0 Q"
    using busy_out [OF busy_start, of 1024] by (auto simp: snifferQueueDepth_def)
  obtain Q1 where 1: "leads Q [numberedEvent 1025] Q1" "busy 1026 1024 False 1 Q1"
    using busy_send [OF Q(2)] by (auto simp: snifferQueueDepth_def)
  obtain Q2 where 2: "leads Q1 [] Q2" "busy 1026 1024 True 0 Q2"
    using busy_take [of 1026 1024 0 Q1] 1(2) by auto
  obtain Q3 where 3: "leads Q2 (map numberedEvent [1026..<2050]) Q3" "busy 2050 1024 True 1024 Q3"
    using busy_in [OF 2(2), of 1024] by (auto simp: snifferQueueDepth_def)
  have "\<exists>R. performAll [ActSubmit (numberedEvent 2050), ActDispatch PickWrites] Q3 = Some ([LSubmit (numberedEvent 2050), LQuiet], R) \<and>
      deadlocked R"
    using 3(2)
    by (auto simp: busy_def Pipeline_SubmitWrite_def run_step_def select_writes_def recv_def acceptWrite_def send_def runLabel_def
        makeChan_def pipelineWriteDepth_def deadlocked_def snifferQueueDepth_def Let_def)
  then obtain R where R: "performAll [ActSubmit (numberedEvent 2050), ActDispatch PickWrites] Q3 =
      Some ([LSubmit (numberedEvent 2050), LQuiet], R)" "deadlocked R" by blast
  from R(1) have 4: "leads Q3 [numberedEvent 2050] R"
    unfolding leads_def by (intro exI conjI) (assumption, simp_all add: submitted_def)
  have "[1..<2051] = [1..<1025] @ [1025] @ [] @ [1026..<2050] @ [2050::nat]"
    by (simp add: upt_add_eq_append [of 1 1025 1026, simplified] upt_conv_Cons [symmetric] upt_rec [of 1025] del: upt_Suc)
  then show ?thesis
    using leads_trans [OF Q(1) leads_trans [OF 1(1) leads_trans [OF 2(1) leads_trans [OF 3(1) 4]]]] R(2) by auto
qed

section \<open>It lasts\<close>

lemma deadlocked_step:
  assumes "pipeStep P l P'" and "deadlocked P"
  shows "deadlocked P' \<and> commandedBy l = []"
  using assms
proof cases
  case (dispatcher pick)
  then show ?thesis using assms(2) by (auto simp: deadlocked_def run_step_def send_def)
next
  case (sniffer s)
  then show ?thesis using assms(2) by (auto simp: deadlocked_def Sniffer_run_step_def send_def)
qed (use assms(2) in \<open>auto simp: deadlocked_def\<close>)

lemma deadlocked_run: "pipeRun P ls P' \<Longrightarrow> deadlocked P \<Longrightarrow> commanded ls = [] \<and> deadlocked P'"
  by (induction rule: pipeRun.induct) (use deadlocked_step in \<open>fastforce simp: commanded_def\<close>)+

text \<open>
  C12. Ordinary writes can stop the program for ever: there is a schedule in which the host submits 2050
  writes, numbered in order, and nothing else (no flush, no shutdown), the dispatcher's select picks a
  write each time, and the dispatcher and the sniffer end up blocked on each other's full queues; in
  no continuation does any write or barrier reach the writer again.
\<close>

theorem pipeline_can_deadlock:
  "\<exists>as tr P. performAll as (startPipe disk s) = Some (tr, P) \<and>
     set as \<subseteq> range ActSubmit \<union> {ActDispatch PickWrites, ActSniff} \<and>
     map eSeq (submitted tr) = map word_of_nat [1..<2051] \<and> deadlocked P \<and>
     \<not> (\<exists>ls P'. pipeRun P ls P' \<and> commanded ls \<noteq> []) \<and> \<not> (\<exists>ls P'. pipeRun P ls P' \<and> \<not> deadlocked P')"
proof -
  obtain P where "leads (startPipe disk s) (map numberedEvent [1..<2051]) P" and d: "deadlocked P"
    using start_deadlock by blast
  then obtain as tr where as: "performAll as (startPipe disk s) = Some (tr, P)" "set as \<subseteq> plainActions"
      "submitted tr = map numberedEvent [1..<2051]"
    by (auto simp: leads_def)
  have "map eSeq (submitted tr) = map word_of_nat [1..<2051]"
    using as(3) by (simp add: comp_def del: upt_Suc)
  moreover have "\<not> (\<exists>ls P'. pipeRun P ls P' \<and> commanded ls \<noteq> [])" "\<not> (\<exists>ls P'. pipeRun P ls P' \<and> \<not> deadlocked P')"
    using deadlocked_run [OF _ d] by blast+
  ultimately show ?thesis using as(1,2) d by (intro exI conjI)
qed

end
