(* ===== verification/WriteBack.thy ===== *)
theory WriteBack
  imports WriterSpec
begin

text \<open>
  The contract of the write-back cache that FUSE, the overlay and the writer form together, as a
  machine over the overlay, the image and the list of the writes acknowledged so far.  Its steps
  use the operations of the code: \<open>StageWrite\<close>, the physical write and the release of \<open>processWrite\<close>
  as two separate steps (host writes come in between), the discarding of MPEG-TS writes, punches, and
  every failure.

  The promise: at every moment the mount point shows, for each byte, the value last acknowledged
  there, except for bytes given up (\<open>wbLost\<close>): those of a write that was answered with an error, those
  whose last write was recognised as MPEG-TS and discarded, and those punched.
\<close>

section \<open>What the host expects\<close>

definition covers :: "WriteEvent \<Rightarrow> u64 \<Rightarrow> bool" where
  "covers ev p \<longleftrightarrow> eOffset ev \<le> p \<and> unat p < unat (eOffset ev) + length (eData ev)"

definition byteOf :: "WriteEvent \<Rightarrow> u64 \<Rightarrow> u8" where
  "byteOf ev p = eData ev ! (unat p - unat (eOffset ev))"

text \<open>The volume after the writes \<open>evs\<close> over the content \<open>base\<close>.\<close>

definition expected :: "(u64 \<Rightarrow> u8) \<Rightarrow> WriteEvent list \<Rightarrow> u64 \<Rightarrow> u8" where
  "expected base evs p = foldl (\<lambda>v ev. if covers ev p then byteOf ev p else v) (base p) evs"

lemma expected_Nil [simp]: "expected base [] p = base p"
  by (simp add: expected_def)

lemma expected_snoc [simp]:
  "expected base (evs @ [ev]) p = (if covers ev p then byteOf ev p else expected base evs p)"
  by (simp add: expected_def)

definition lastCover :: "WriteEvent list \<Rightarrow> nat \<Rightarrow> u64 \<Rightarrow> bool" where
  "lastCover evs j p \<longleftrightarrow>
     j < length evs \<and> covers (evs ! j) p \<and> (\<forall>i. j < i \<and> i < length evs \<longrightarrow> \<not> covers (evs ! i) p)"

lemma expected_last: "lastCover evs j p \<Longrightarrow> expected base evs p = byteOf (evs ! j) p"
proof (induction evs rule: rev_induct)
  case Nil
  then show ?case by (simp add: lastCover_def)
next
  case (snoc ev evs)
  show ?case
  proof (cases "j = length evs")
    case True
    then show ?thesis using snoc.prems by (simp add: lastCover_def)
  next
    case False
    then have j: "j < length evs" and "\<not> covers ev p"
      using snoc.prems by (auto simp: lastCover_def nth_append dest: spec [of _ "length evs"])
    moreover have "lastCover evs j p"
      using snoc.prems j by (auto simp: lastCover_def nth_append dest: less_SucI)
    ultimately show ?thesis using snoc.IH by (simp add: nth_append)
  qed
qed

section \<open>The machine\<close>

record WriteBack =
  wbDisk :: File
  wbShm :: SHMDisk
  wbAll :: "WriteEvent list"
  wbDone :: nat
  wbMid :: bool
  wbLost :: "u64 set"

definition startWriteBack :: "File \<Rightarrow> SHMDisk \<Rightarrow> WriteBack" where
  "startWriteBack disk s =
     \<lparr>wbDisk = disk, wbShm = s, wbAll = [], wbDone = 0, wbMid = False, wbLost = {}\<rparr>"

text \<open>The write that the writer has to handle next.\<close>

abbreviation wbNext :: "WriteBack \<Rightarrow> WriteEvent" where
  "wbNext W \<equiv> wbAll W ! wbDone W"

text \<open>The bytes that \<open>k\<close> and the later writes leave alone.\<close>

definition untouchedFrom :: "nat \<Rightarrow> WriteEvent list \<Rightarrow> u64 set" where
  "untouchedFrom k evs = {p. \<forall>j. k \<le> j \<and> j < length evs \<longrightarrow> \<not> covers (evs ! j) p}"

inductive wbStep :: "WriteBack \<Rightarrow> WriteBack \<Rightarrow> bool" where
  acknowledge: "StageWrite oc (eData ev) (eOffset ev) (wbShm W) = (Inr (eStaged ev), s) \<Longrightarrow>
    eData ev \<noteq> [] \<Longrightarrow> length (eData ev) < 2 ^ 63 \<Longrightarrow> nextGen (wbShm W) + 1 \<noteq> 0 \<Longrightarrow>
    wbStep W (W\<lparr>wbShm := s, wbAll := wbAll W @ [ev], wbLost := wbLost W - {p. covers ev p}\<rparr>)"
| refuse: "StageWrite oc (eData ev) (eOffset ev) (wbShm W) = (r, s) \<Longrightarrow>
    length (eData ev) < 2 ^ 63 \<Longrightarrow> nextGen (wbShm W) + 1 \<noteq> 0 \<Longrightarrow>
    wbStep W (W\<lparr>wbShm := s, wbLost := wbLost W \<union> {p. covers ev p}\<rparr>)"
| put: "\<not> wbMid W \<Longrightarrow> wbDone W < length (wbAll W) \<Longrightarrow>
    File_WriteAt oc (wbDisk W) (eData (wbNext W)) (eOffset (wbNext W)) = (n, None, f) \<Longrightarrow>
    wbStep W (W\<lparr>wbDisk := f, wbMid := True\<rparr>)"
| put_fails: "\<not> wbMid W \<Longrightarrow> wbDone W < length (wbAll W) \<Longrightarrow>
    File_WriteAt oc (wbDisk W) (eData (wbNext W)) (eOffset (wbNext W)) = (n, Some err, f) \<Longrightarrow>
    wbStep W (W\<lparr>wbDisk := f, wbDone := wbDone W + 1\<rparr>)"
| release: "wbMid W \<Longrightarrow>
    wbStep W (W\<lparr>wbShm := snd (ReleaseIfCurrent pf [eStaged (wbNext W)] (wbShm W)),
                wbMid := False, wbDone := wbDone W + 1\<rparr>)"
| discard: "\<not> wbMid W \<Longrightarrow> wbDone W < length (wbAll W) \<Longrightarrow>
    wbStep W (W\<lparr>wbShm := snd (ReleaseIfCurrent pf [eStaged (wbNext W)] (wbShm W)),
                wbDone := wbDone W + 1,
                wbLost := wbLost W \<union> {p. lastCover (wbAll W) (wbDone W) p}\<rparr>)"
| punch: "\<not> wbMid W \<Longrightarrow> lo < hi \<Longrightarrow>
    wbStep W (W\<lparr>wbDisk := snd (File_PunchHole oc (wbDisk W) lo (hi - lo)),
                wbLost := wbLost W \<union> ({p. lo \<le> p \<and> p < hi} \<inter> untouchedFrom (wbDone W) (wbAll W))\<rparr>)"

inductive wbReach :: "File \<Rightarrow> SHMDisk \<Rightarrow> WriteBack \<Rightarrow> bool" for disk s where
  start: "wbReach disk s (startWriteBack disk s)"
| step: "wbReach disk s W \<Longrightarrow> wbStep W W' \<Longrightarrow> wbReach disk s W'"

section \<open>Invariant\<close>

abbreviation genOf :: "WriteEvent \<Rightarrow> u64" where
  "genOf ev \<equiv> xGen (eStaged ev)"

definition eventOk :: "SHMDisk \<Rightarrow> WriteEvent \<Rightarrow> bool" where
  "eventOk s ev \<longleftrightarrow>
     eData ev \<noteq> [] \<and> unat (eOffset ev) + length (eData ev) \<le> unat (shmSize s) \<and>
     xStart (eStaged ev) = eOffset ev \<and> unat (xEnd (eStaged ev)) = unat (eOffset ev) + length (eData ev) \<and>
     genOf ev < nextGen s"

text \<open>Every byte of a write that has not been handled is owned by it or by a later one.\<close>

definition ownedFrom :: "nat \<Rightarrow> WriteEvent list \<Rightarrow> SHMDisk \<Rightarrow> bool" where
  "ownedFrom k evs s \<longleftrightarrow>
     (\<forall>j p. k \<le> j \<and> j < length evs \<and> covers (evs ! j) p \<longrightarrow>
        (\<exists>g. ownerOf (extents s) p = Some g \<and> genOf (evs ! j) \<le> g))"

definition wbInv :: "(u64 \<Rightarrow> u8) \<Rightarrow> WriteBack \<Rightarrow> bool" where
  "wbInv base W \<longleftrightarrow>
     shmInv (wbShm W) \<and>
     (\<forall>ev \<in> set (wbAll W). eventOk (wbShm W) ev) \<and>
     sorted_wrt (<) (map genOf (wbAll W)) \<and>
     ownedFrom (wbDone W) (wbAll W) (wbShm W) \<and>
     (wbMid W \<longrightarrow> wbDone W < length (wbAll W) \<and>
        (\<forall>p. covers (wbNext W) p \<longrightarrow> diskByte (wbDisk W) p = byteOf (wbNext W) p)) \<and>
     (\<forall>p. p \<notin> wbLost W \<longrightarrow> shmView (wbShm W) (wbDisk W) p = expected base (wbAll W) p)"

lemma wbInvD:
  assumes "wbInv base W"
  shows "shmInv (wbShm W)" "\<And>ev. ev \<in> set (wbAll W) \<Longrightarrow> eventOk (wbShm W) ev"
    "sorted_wrt (<) (map genOf (wbAll W))" "ownedFrom (wbDone W) (wbAll W) (wbShm W)"
    "\<And>p. p \<notin> wbLost W \<Longrightarrow> shmView (wbShm W) (wbDisk W) p = expected base (wbAll W) p"
  using assms by (auto simp: wbInv_def)

lemma covers_staged:
  "eventOk s ev \<Longrightarrow> xStart (eStaged ev) \<le> p \<and> p < xEnd (eStaged ev) \<longleftrightarrow> covers ev p"
  by (auto simp: eventOk_def covers_def word_less_nat_alt)

lemma eventOk_offset:
  assumes "eventOk s ev" and "shmInv s"
  shows "0 \<le> sint (eOffset ev)"
  using assms by (simp add: eventOk_def shmInv_def sint_u64_neg flip: not_less)

lemma ownedFrom_later: "ownedFrom k evs s \<Longrightarrow> k \<le> k' \<Longrightarrow> ownedFrom k' evs s"
  unfolding ownedFrom_def by (meson le_trans)

text \<open>A byte still owned by an unhandled write was last written by it.\<close>

lemma owner_is_last:
  assumes "ownedFrom k evs s" and "sorted_wrt (<) (map genOf evs)" and "k \<le> j" and "j < length evs"
    and "covers (evs ! j) p" and "ownerOf (extents s) p = Some (genOf (evs ! j))"
  shows "lastCover evs j p"
proof -
  have "\<not> covers (evs ! i) p" if i: "j < i" "i < length evs" for i
  proof
    assume "covers (evs ! i) p"
    then obtain g where "ownerOf (extents s) p = Some g" "genOf (evs ! i) \<le> g"
      using assms(1,3) i unfolding ownedFrom_def by (meson less_imp_le le_trans)
    then have "genOf (evs ! i) \<le> genOf (evs ! j)" using assms(6) by simp
    moreover have "genOf (evs ! j) < genOf (evs ! i)"
      using assms(2) i by (simp add: sorted_wrt_iff_nth_less)
    ultimately show False by simp
  qed
  then show ?thesis using assms(4,5) by (simp add: lastCover_def)
qed

text \<open>Changing image bytes that the overlay owns changes nothing that a reader sees.\<close>

lemma view_owned: "ownerOf (extents s) p = Some g \<Longrightarrow> shmView s f p = shmView s f' p"
  by (simp add: shmView_def)

lemma view_disk: "diskByte f p = diskByte f' p \<Longrightarrow> shmView s f p = shmView s f' p"
  by (simp add: shmView_def split: option.split)

section \<open>Every step keeps it\<close>

lemma StageWrite_facts:
  assumes "shmInv s" and "eData ev \<noteq> []" and "length (eData ev) < 2 ^ 63" and "nextGen s + 1 \<noteq> 0"
    and "StageWrite oc (eData ev) (eOffset ev) s = (Inr x, s')"
  shows "shmInv s'" and "shmSize s' = shmSize s" and "nextGen s < nextGen s'"
    and "ownerOf (extents s') p = (if covers ev p then Some (nextGen s) else ownerOf (extents s) p)"
    and "eStaged ev = x \<Longrightarrow> eventOk s' ev \<and> genOf ev = nextGen s"
    and "shmView s' disk p = (if covers ev p then byteOf ev p else shmView s disk p)"
proof -
  have oc: "oc = IoOk" using StageWrite_Inr_outcome assms(2,5) by blast
  note st = assms(5) [unfolded oc]
  show "shmInv s'" by (rule StageWrite_inv [OF assms(1,3,4) st])
  show "shmView s' disk p = (if covers ev p then byteOf ev p else shmView s disk p)"
    using StageWrite_view [OF assms(1,3) st] by (simp add: covers_def byteOf_def)
  obtain f where "shmFile s = Some f" "fSize f = unat (shmSize s)" "\<not> closed s"
    and x: "x = \<lparr>xStart = eOffset ev, xEnd = eOffset ev + word_of_nat (length (eData ev)), xGen = nextGen s\<rparr>"
      "xStart x < xEnd x" "unat (eOffset ev) + length (eData ev) \<le> unat (shmSize s)"
      "unat (xEnd x) = unat (eOffset ev) + length (eData ev)"
    and s': "s' = s\<lparr>shmFile := Some \<lparr>fSize = fSize f,
                  fData = pokeBytes (unat (eOffset ev)) (eData ev) (\<lambda>i. if i < fSize f then fData f i else 0)\<rparr>,
                nextGen := nextGen s + 1,
                extents := coalesceSHM (replaceLoop x False (extents s))\<rparr>"
    using StageWrite_Inr [OF assms(1,3,2) st] .
  have lt: "nextGen s < nextGen s + 1"
    using unat_plus_one [OF assms(4)] by (simp add: word_less_nat_alt)
  then show "shmSize s' = shmSize s" "nextGen s < nextGen s'" using s' by simp_all
  show "eventOk s' ev \<and> genOf ev = nextGen s" if "eStaged ev = x"
    using that x s' assms(2) lt by (simp add: eventOk_def)
  have hit: "xStart x \<le> p \<and> p < xEnd x \<longleftrightarrow> covers ev p"
    using x(1,4) by (auto simp: covers_def word_less_nat_alt)
  have "shmSorted (extents s)" using assms(1) by (simp add: shmInv_def)
  then show "ownerOf (extents s') p = (if covers ev p then Some (nextGen s) else ownerOf (extents s) p)"
    using staged_extents(2) [OF _ x(2)] hit s' x(1) by simp
qed

lemma eventOk_mono:
  "eventOk s ev \<Longrightarrow> shmSize s' = shmSize s \<Longrightarrow> nextGen s \<le> nextGen s' \<Longrightarrow> eventOk s' ev"
  by (auto simp: eventOk_def)

text \<open>Staging a write, acknowledged or not, keeps the older writes owned.\<close>

lemma stage_owned:
  assumes "wbInv base W" and "ownerOf (extents s') = (\<lambda>p. if covers ev p then Some (nextGen (wbShm W)) else ownerOf (extents (wbShm W)) p)"
  shows "ownedFrom (wbDone W) (wbAll W) s'"
proof -
  have "genOf (wbAll W ! j) \<le> nextGen (wbShm W)" if "j < length (wbAll W)" for j
    using wbInvD(2) [OF assms(1) nth_mem [OF that]] by (auto simp: eventOk_def)
  then show ?thesis
    using wbInvD(4) [OF assms(1)] by (simp add: ownedFrom_def assms(2))
qed

lemma acknowledge_inv:
  assumes inv: "wbInv base W" and st: "StageWrite oc (eData ev) (eOffset ev) (wbShm W) = (Inr (eStaged ev), s)"
    and ne: "eData ev \<noteq> []" and len: "length (eData ev) < 2 ^ 63" and g: "nextGen (wbShm W) + 1 \<noteq> 0"
  shows "wbInv base (W\<lparr>wbShm := s, wbAll := wbAll W @ [ev], wbLost := wbLost W - {p. covers ev p}\<rparr>)"
proof -
  note facts = StageWrite_facts [OF wbInvD(1) [OF inv] ne len g st]
  have ok: "\<forall>e \<in> set (wbAll W @ [ev]). eventOk s e"
    using wbInvD(2) [OF inv] facts(2,3,5) eventOk_mono less_imp_le by fastforce
  have gens: "sorted_wrt (<) (map genOf (wbAll W @ [ev]))"
    using wbInvD(2,3) [OF inv] facts(5) by (auto simp: sorted_wrt_append eventOk_def)
  have "ownedFrom (wbDone W) (wbAll W) s"
    by (rule stage_owned [OF inv, where ev = ev]) (simp add: facts(4) fun_eq_iff)
  then have own: "ownedFrom (wbDone W) (wbAll W @ [ev]) s"
    using facts(4,5) by (auto simp: ownedFrom_def nth_append less_Suc_eq)
  have mid: "wbMid W \<longrightarrow> wbDone W < length (wbAll W) \<and>
      (\<forall>p. covers (wbNext W) p \<longrightarrow> diskByte (wbDisk W) p = byteOf (wbNext W) p)"
    using inv by (simp add: wbInv_def)
  have view: "shmView s (wbDisk W) p = expected base (wbAll W @ [ev]) p" if "p \<notin> wbLost W - {p. covers ev p}" for p
    using that facts(6) wbInvD(5) [OF inv] by auto
  show ?thesis
    unfolding wbInv_def using facts(1) ok gens own mid view by (auto simp: nth_append)
qed

text \<open>A refused write: whether the bytes were staged or the overlay failed, only its range is given up.\<close>

lemma StageWrite_refused:
  assumes inv: "shmInv s" and len: "length (eData ev) < 2 ^ 63" and st: "StageWrite oc (eData ev) (eOffset ev) s = (Inl e, s')"
  shows "\<not> covers ev p \<Longrightarrow> shmView s' disk p = shmView s disk p"
proof -
  assume out: "\<not> covers ev p"
  note same = StageWrite_Inl [OF st]
  show "shmView s' disk p = shmView s disk p"
  proof (cases "shmFile s' = shmFile s")
    case True
    then show ?thesis by (simp only: shmView_def same(1))
  next
    case False
    then have gd: "eData ev \<noteq> []" "\<not> shmSize s \<le> eOffset ev"
        "\<not> shmSize s - eOffset ev < word_of_nat (length (eData ev))" "\<not> closed s"
      using st by (auto simp: StageWrite_def Let_def split: if_splits)
    obtain f where f: "shmFile s = Some f" "fSize f = unat (shmSize s)"
      using shmInv_open [OF inv gd(4)] .
    obtain n err f' where w: "File_WriteAt oc f (eData ev) (eOffset ev) = (n, err, f')"
      by (metis prod.exhaust)
    have s': "shmFile s' = Some f'"
      using st gd f w by (auto simp: StageWrite_def Let_def split: if_splits option.splits)
    have "fData f' (unat p) = fData f (unat p)" if "ownerOf (extents s) p = Some g" for g
      using File_WriteAt_frame(2) [OF w, of "unat p"] new_extent_facts(2) [OF gd(2,3) len gd(1)] f(2) out
        shmInv_owner_bound(1) [OF inv that]
      by (auto simp: covers_def word_less_nat_alt word_le_nat_alt)
    then show ?thesis using same(1) s' f(1) by (auto simp: shmView_def split: option.split)
  qed
qed

lemma refuse_inv:
  assumes inv: "wbInv base W" and st: "StageWrite oc (eData ev) (eOffset ev) (wbShm W) = (r, s)"
    and len: "length (eData ev) < 2 ^ 63" and g: "nextGen (wbShm W) + 1 \<noteq> 0"
  shows "wbInv base (W\<lparr>wbShm := s, wbLost := wbLost W \<union> {p. covers ev p}\<rparr>)"
proof (cases "(\<exists>x. r = Inr x) \<and> eData ev \<noteq> []")
  case True
  then obtain x where r: "r = Inr x" and ne: "eData ev \<noteq> []" by blast
  note facts = StageWrite_facts [OF wbInvD(1) [OF inv] ne len g st [unfolded r]]
  have ok: "\<forall>e \<in> set (wbAll W). eventOk s e"
    using wbInvD(2) [OF inv] facts(2,3) eventOk_mono less_imp_le by fastforce
  have own: "ownedFrom (wbDone W) (wbAll W) s"
    by (rule stage_owned [OF inv, where ev = ev]) (simp add: facts(4) fun_eq_iff)
  have "shmView s (wbDisk W) p = expected base (wbAll W) p" if "p \<notin> wbLost W" "\<not> covers ev p" for p
    using that facts(6) wbInvD(5) [OF inv] by simp
  then show ?thesis
    using inv facts(1) ok own by (simp add: wbInv_def)
next
  case False
  have "extents s = extents (wbShm W) \<and> shmSize s = shmSize (wbShm W) \<and> nextGen s = nextGen (wbShm W) \<and>
      (\<forall>p. \<not> covers ev p \<longrightarrow> shmView s (wbDisk W) p = shmView (wbShm W) (wbDisk W) p)"
  proof (cases r)
    case (Inl e)
    then show ?thesis
      using StageWrite_Inl [OF st [unfolded Inl]] StageWrite_refused [OF wbInvD(1) [OF inv] len st [unfolded Inl]]
      by blast
  next
    case (Inr x)
    then have "eData ev = []" using False by blast
    then show ?thesis using st by (simp add: StageWrite_def)
  qed
  then have same: "extents s = extents (wbShm W)" "shmSize s = shmSize (wbShm W)" "nextGen s = nextGen (wbShm W)"
      "\<And>p. \<not> covers ev p \<Longrightarrow> shmView s (wbDisk W) p = shmView (wbShm W) (wbDisk W) p"
    by blast+
  have si: "shmInv s" by (rule StageWrite_inv [OF wbInvD(1) [OF inv] len g st])
  have ok: "\<forall>e \<in> set (wbAll W). eventOk s e"
    using wbInvD(2) [OF inv] same by (simp add: eventOk_def)
  show ?thesis
    using inv si ok same unfolding wbInv_def ownedFrom_def by simp
qed

text \<open>The physical write changes only bytes that the overlay owns.\<close>

lemma put_view:
  assumes inv: "wbInv base W" and k: "wbDone W < length (wbAll W)"
    and w: "File_WriteAt oc (wbDisk W) (eData (wbNext W)) (eOffset (wbNext W)) = (n, err, f)"
  shows "shmView (wbShm W) f p = shmView (wbShm W) (wbDisk W) p"
    and "err = None \<Longrightarrow> covers (wbNext W) p \<Longrightarrow> diskByte f p = byteOf (wbNext W) p"
proof -
  have ok: "eventOk (wbShm W) (wbNext W)"
    using wbInvD(2) [OF inv] k by simp
  note byte = diskByte_WriteAt [OF eventOk_offset [OF ok wbInvD(1) [OF inv]] w]
  show "shmView (wbShm W) f p = shmView (wbShm W) (wbDisk W) p"
  proof (cases "covers (wbNext W) p")
    case True
    then obtain g where "ownerOf (extents (wbShm W)) p = Some g"
      using wbInvD(4) [OF inv] k unfolding ownedFrom_def by (meson le_refl)
    then show ?thesis by (rule view_owned)
  next
    case False
    then have "diskByte f p = diskByte (wbDisk W) p"
      using byte(1,2) by (auto simp: covers_def word_le_nat_alt)
    then show ?thesis by (rule view_disk)
  qed
  show "diskByte f p = byteOf (wbNext W) p" if "err = None" "covers (wbNext W) p"
    using that byte by (simp add: covers_def byteOf_def word_le_nat_alt)
qed

lemma put_inv:
  assumes inv: "wbInv base W" and k: "wbDone W < length (wbAll W)"
    and w: "File_WriteAt oc (wbDisk W) (eData (wbNext W)) (eOffset (wbNext W)) = (n, None, f)"
  shows "wbInv base (W\<lparr>wbDisk := f, wbMid := True\<rparr>)"
  using inv k put_view [OF inv k w] by (simp add: wbInv_def)

lemma put_fails_inv:
  assumes inv: "wbInv base W" and k: "wbDone W < length (wbAll W)" and m: "\<not> wbMid W"
    and w: "File_WriteAt oc (wbDisk W) (eData (wbNext W)) (eOffset (wbNext W)) = (n, Some err, f)"
  shows "wbInv base (W\<lparr>wbDisk := f, wbDone := wbDone W + 1\<rparr>)"
  using inv m put_view(1) [OF inv k w] ownedFrom_later [of "wbDone W" "wbAll W" "wbShm W" "wbDone W + 1"]
  by (simp add: wbInv_def)

text \<open>
  Releasing the extent of the next write: nothing happens unless the write still owns all of its
  bytes, and then it is the last write to each of them.
\<close>

lemma release_facts:
  assumes inv: "wbInv base W" and k: "wbDone W < length (wbAll W)"
    and s: "s = snd (ReleaseIfCurrent pf [eStaged (wbNext W)] (wbShm W))"
  shows "shmInv s" and "shmSize s = shmSize (wbShm W)" and "nextGen s = nextGen (wbShm W)"
    and "ownedFrom (wbDone W + 1) (wbAll W) s"
    and "shmView s disk p = shmView (wbShm W) disk p \<or>
         lastCover (wbAll W) (wbDone W) p \<and> shmView s disk p = diskByte disk p"
proof -
  let ?x = "eStaged (wbNext W)" and ?s = "wbShm W"
  have ok: "eventOk ?s (wbNext W)" using wbInvD(2) [OF inv] k by simp
  note hit = covers_staged [OF ok]
  have one: "s = (if current ?x ?s \<and> pf ?x = IoOk then released ?x ?s else ?s)"
    unfolding s by (rule ReleaseIfCurrent_one [OF wbInvD(1) [OF inv]])
  have later: "ownedFrom (wbDone W + 1) (wbAll W) ?s"
    by (rule ownedFrom_later [OF wbInvD(4) [OF inv]]) simp
  consider (kept) "s = ?s" | (gone) "current ?x ?s" "s = released ?x ?s"
    using one by (auto split: if_splits)
  then have "shmInv s \<and> shmSize s = shmSize ?s \<and> nextGen s = nextGen ?s \<and> ownedFrom (wbDone W + 1) (wbAll W) s \<and>
      (shmView s disk p = shmView ?s disk p \<or> lastCover (wbAll W) (wbDone W) p \<and> shmView s disk p = diskByte disk p)"
  proof cases
    case kept
    then show ?thesis using wbInvD(1) [OF inv] later by simp
  next
    case gone
    have cur: "ownerOf (extents ?s) q = Some (genOf (wbNext W))" if "covers (wbNext W) q" for q
      using gone(1) that hit unfolding current_def by blast
    have last: "lastCover (wbAll W) (wbDone W) q" if "covers (wbNext W) q" for q
      using owner_is_last [OF wbInvD(4,3) [OF inv] le_refl k that cur [OF that]] .
    note own = released_owner [OF wbInvD(1) [OF inv] gone(1)]
    have "ownedFrom (wbDone W + 1) (wbAll W) s"
      unfolding ownedFrom_def
    proof (intro allI impI, elim conjE)
      fix j q assume j: "wbDone W + 1 \<le> j" "j < length (wbAll W)" and c: "covers (wbAll W ! j) q"
      have "\<not> covers (wbNext W) q"
        using last [of q] j c by (auto simp: lastCover_def)
      then have "ownerOf (extents s) q = ownerOf (extents ?s) q"
        using own [of q] hit gone(2) by simp
      then show "\<exists>g. ownerOf (extents s) q = Some g \<and> genOf (wbAll W ! j) \<le> g"
        using later j c unfolding ownedFrom_def by metis
    qed
    moreover have "shmView s disk p = (if covers (wbNext W) p then diskByte disk p else shmView ?s disk p)"
      using released_view [OF wbInvD(1) [OF inv] gone(1)] hit gone(2) by simp
    moreover have "shmSize s = shmSize ?s" "nextGen s = nextGen ?s"
      using gone(2) by (simp_all add: released_def removeRangeGenerationLocked_def punchLocked_def Let_def
          split: option.split prod.split)
    ultimately show ?thesis
      using released_inv [OF wbInvD(1) [OF inv] gone(1)] gone(2) last by auto
  qed
  then show "shmInv s" "shmSize s = shmSize (wbShm W)" "nextGen s = nextGen (wbShm W)"
    "ownedFrom (wbDone W + 1) (wbAll W) s"
    "shmView s disk p = shmView (wbShm W) disk p \<or> lastCover (wbAll W) (wbDone W) p \<and> shmView s disk p = diskByte disk p"
    by blast+
qed

lemma release_inv:
  assumes inv: "wbInv base W" and m: "wbMid W"
  shows "wbInv base (W\<lparr>wbShm := snd (ReleaseIfCurrent pf [eStaged (wbNext W)] (wbShm W)),
    wbMid := False, wbDone := wbDone W + 1\<rparr>)"
proof -
  have k: "wbDone W < length (wbAll W)" and d: "\<And>p. covers (wbNext W) p \<Longrightarrow> diskByte (wbDisk W) p = byteOf (wbNext W) p"
    using inv m by (auto simp: wbInv_def)
  note facts = release_facts [OF inv k refl, of pf]
  have "shmView (snd (ReleaseIfCurrent pf [eStaged (wbNext W)] (wbShm W))) (wbDisk W) p = expected base (wbAll W) p"
    if "p \<notin> wbLost W" for p
    using facts(5) [of "wbDisk W" p] wbInvD(5) [OF inv that] expected_last [of "wbAll W" "wbDone W" p base] d [of p]
    by (auto simp: lastCover_def)
  then show ?thesis
    using inv facts(1-4) eventOk_mono by (auto simp: wbInv_def)
qed

lemma discard_inv:
  assumes inv: "wbInv base W" and k: "wbDone W < length (wbAll W)" and m: "\<not> wbMid W"
  shows "wbInv base (W\<lparr>wbShm := snd (ReleaseIfCurrent pf [eStaged (wbNext W)] (wbShm W)),
    wbDone := wbDone W + 1, wbLost := wbLost W \<union> {p. lastCover (wbAll W) (wbDone W) p}\<rparr>)"
proof -
  note facts = release_facts [OF inv k refl, of pf]
  have "shmView (snd (ReleaseIfCurrent pf [eStaged (wbNext W)] (wbShm W))) (wbDisk W) p = expected base (wbAll W) p"
    if "p \<notin> wbLost W" "\<not> lastCover (wbAll W) (wbDone W) p" for p
    using facts(5) [of "wbDisk W" p] wbInvD(5) [OF inv that(1)] that(2) by auto
  then show ?thesis
    using inv m facts(1-4) eventOk_mono by (auto simp: wbInv_def)
qed

lemma diskByte_outside_hole:
  assumes "lo < hi" and "\<not> (lo \<le> p \<and> p < hi)"
  shows "diskByte (snd (File_PunchHole oc f lo (hi - lo))) p = diskByte f p"
proof -
  have "unat lo + unat (hi - lo) = unat hi"
    using assms(1) by (simp add: unat_minus_le [OF less_imp_le [OF assms(1)]] word_less_nat_alt)
  then show ?thesis
    using assms(2)
    by (auto simp: File_PunchHole_def diskByte_def zeroBytes_def word_le_nat_alt word_less_nat_alt split: IoOutcome.split)
qed

lemma punch_inv:
  assumes inv: "wbInv base W" and m: "\<not> wbMid W" and r: "lo < hi"
  shows "wbInv base (W\<lparr>wbDisk := snd (File_PunchHole oc (wbDisk W) lo (hi - lo)),
    wbLost := wbLost W \<union> ({p. lo \<le> p \<and> p < hi} \<inter> untouchedFrom (wbDone W) (wbAll W))\<rparr>)"
proof -
  let ?f = "snd (File_PunchHole oc (wbDisk W) lo (hi - lo))"
  have "shmView (wbShm W) ?f p = expected base (wbAll W) p"
    if p: "p \<notin> wbLost W" "\<not> (lo \<le> p \<and> p < hi \<and> p \<in> untouchedFrom (wbDone W) (wbAll W))" for p
  proof (cases "lo \<le> p \<and> p < hi")
    case True
    then obtain j where "wbDone W \<le> j" "j < length (wbAll W)" "covers (wbAll W ! j) p"
      using p(2) by (auto simp: untouchedFrom_def)
    then obtain g where "ownerOf (extents (wbShm W)) p = Some g"
      using wbInvD(4) [OF inv] unfolding ownedFrom_def by meson
    then show ?thesis using wbInvD(5) [OF inv p(1)] view_owned [of "wbShm W" p g ?f "wbDisk W"] by simp
  next
    case False
    then show ?thesis
      using wbInvD(5) [OF inv p(1)] view_disk [OF diskByte_outside_hole [OF r False]] by simp
  qed
  then show ?thesis using inv m by (auto simp: wbInv_def)
qed

lemma wbStep_inv: "wbStep W W' \<Longrightarrow> wbInv base W \<Longrightarrow> wbInv base W'"
proof (induction rule: wbStep.induct)
  case (put_fails W oc n err f)
  then show ?case by (intro put_fails_inv)
qed (intro acknowledge_inv refuse_inv put_inv release_inv discard_inv punch_inv; assumption)+

lemma wbReach_inv:
  assumes "shmInv s" and "wbReach disk s W"
  shows "wbInv (shmView s disk) W"
  using assms(2)
proof induction
  case start
  then show ?case using assms(1) by (simp add: startWriteBack_def wbInv_def ownedFrom_def)
next
  case (step W W')
  then show ?case by (blast intro: wbStep_inv)
qed

section \<open>Properties\<close>

text \<open>
  The mount point never loses an acknowledged write: whatever the outcomes of the system calls and
  however host writes interleave with the writer, at every moment every byte that was not given up
  reads as the value last acknowledged there (or as at the start, when no write touched it).
\<close>

theorem write_back_correct:
  assumes "shmInv s" and "wbReach disk s W" and "p \<notin> wbLost W"
  shows "shmView (wbShm W) (wbDisk W) p = expected (shmView s disk) (wbAll W) p"
  using wbInvD(5) [OF wbReach_inv [OF assms(1,2)] assms(3)] .

text \<open>
  What has left the overlay is on the image: a byte that no live extent owns holds, on the image
  itself, the value last acknowledged there; and a byte of a write that has not been handled is still
  owned by the overlay, by that write or a later one.
\<close>

theorem released_bytes_are_durable:
  assumes "shmInv s" and "wbReach disk s W"
  shows "(p \<notin> wbLost W \<and> ownerOf (extents (wbShm W)) p = None \<longrightarrow>
      diskByte (wbDisk W) p = expected (shmView s disk) (wbAll W) p) \<and>
    (wbDone W \<le> j \<and> j < length (wbAll W) \<and> covers (wbAll W ! j) p \<longrightarrow>
      (\<exists>g. ownerOf (extents (wbShm W)) p = Some g \<and> genOf (wbAll W ! j) \<le> g))"
proof -
  note inv = wbReach_inv [OF assms]
  have "diskByte (wbDisk W) p = shmView (wbShm W) (wbDisk W) p" if "ownerOf (extents (wbShm W)) p = None"
    using that by (simp add: shmView_def)
  then show ?thesis
    using wbInvD(4,5) [OF inv] unfolding ownedFrom_def by metis
qed

text \<open>A write that is staged and not yet handled.\<close>

definition stagedEvent :: WriteEvent where
  "stagedEvent = \<lparr>eSeq = 1, eOffset = 10, eData = [7, 8, 9],
     eStaged = \<lparr>xStart = 10, xEnd = 13, xGen = 1\<rparr>, eTouchesMFT = False\<rparr>"

lemma stagedEvent_reach:
  "wbReach disk shm0 \<lparr>wbDisk = disk, wbShm = shm1, wbAll = [stagedEvent], wbDone = 0, wbMid = False, wbLost = {}\<rparr>"
proof -
  have "StageWrite IoOk (eData stagedEvent) (eOffset stagedEvent) (wbShm (startWriteBack disk shm0)) = (Inr (eStaged stagedEvent), shm1)"
    by (simp add: stagedEvent_def startWriteBack_def shm1_stage)
  from wbStep.acknowledge [OF this] have "wbStep (startWriteBack disk shm0)
      \<lparr>wbDisk = disk, wbShm = shm1, wbAll = [stagedEvent], wbDone = 0, wbMid = False, wbLost = {}\<rparr>"
    by (simp add: stagedEvent_def startWriteBack_def) (simp add: shm0_def)
  then show ?thesis by (rule wbReach.step [OF wbReach.start])
qed

theorem write_back_correct_witness:
  "shmView shm1 \<lparr>fSize = 64, fData = (\<lambda>_. 1)\<rparr> 11 = 8"
  using write_back_correct [OF shm0_inv stagedEvent_reach, of 11 "\<lparr>fSize = 64, fData = (\<lambda>_. 1)\<rparr>"]
  by (simp add: expected_def covers_def byteOf_def stagedEvent_def)

theorem released_bytes_are_durable_witness:
  "ownerOf (extents shm1) 20 = None \<and> diskByte \<lparr>fSize = 64, fData = (\<lambda>_. 1)\<rparr> 20 = 1 \<and>
   (\<exists>g. ownerOf (extents shm1) 11 = Some g)"
proof -
  have n: "ownerOf (extents shm1) 20 = None" by (simp add: shm1_def shm_eval)
  have "shmView shm0 \<lparr>fSize = 64, fData = (\<lambda>_. 1)\<rparr> 20 = 1" by (simp add: shmView_def shm0_def diskByte_def)
  then show ?thesis
    using released_bytes_are_durable [OF shm0_inv stagedEvent_reach [of "\<lparr>fSize = 64, fData = (\<lambda>_. 1)\<rparr>"], where p = 20 and j = 0]
      released_bytes_are_durable [OF shm0_inv stagedEvent_reach [of "\<lparr>fSize = 64, fData = (\<lambda>_. 1)\<rparr>"], where p = 11 and j = 0] n
    by (auto simp: expected_def covers_def stagedEvent_def)
qed

end
