(* ===== verification/Simulation.thy ===== *)
theory Simulation
  imports Main
begin

text \<open>
  Simulation between two transition systems, as an interface: a client that shows the start condition
  and that every concrete step is matched by no or one abstract step gets that every reachable
  concrete state is related to a reachable abstract one.
\<close>

locale simulation =
  fixes cstep :: "'c \<Rightarrow> 'c \<Rightarrow> bool" and astep :: "'a \<Rightarrow> 'a \<Rightarrow> bool"
    and related :: "'c \<Rightarrow> 'a \<Rightarrow> bool" and c0 :: 'c and a0 :: 'a
  assumes start: "related c0 a0"
    and matched: "astep\<^sup>*\<^sup>* a0 a \<Longrightarrow> related c a \<Longrightarrow> cstep c c' \<Longrightarrow> \<exists>a'. (a' = a \<or> astep a a') \<and> related c' a'"
begin

lemma reachable_related:
  assumes "cstep\<^sup>*\<^sup>* c0 c"
  shows "\<exists>a. astep\<^sup>*\<^sup>* a0 a \<and> related c a"
  using assms
proof (induction rule: rtranclp_induct)
  case base
  then show ?case using start by blast
next
  case (step c c')
  then obtain a where a: "astep\<^sup>*\<^sup>* a0 a" "related c a" by blast
  obtain a' where "a' = a \<or> astep a a'" "related c' a'"
    using matched [OF a step.hyps(2)] by blast
  then show ?case using a(1) by (metis rtranclp.rtrancl_into_rtrancl)
qed

lemma invariant_transfer:
  assumes "cstep\<^sup>*\<^sup>* c0 c" and "\<And>a. astep\<^sup>*\<^sup>* a0 a \<Longrightarrow> I a"
  shows "\<exists>a. astep\<^sup>*\<^sup>* a0 a \<and> related c a \<and> I a"
  using reachable_related [OF assms(1)] assms(2) by blast

end

end
