(* ===== verification/System.thy ===== *)
theory System
  imports PipelineRuns WriteBack Fuse Reconcile Simulation
begin

text \<open>
  The storage path as a whole: FUSE (fuse.go), the pipeline (pipeline.go), the sniffer (sniffer.go), the
  writer (writer.go), the reconciler with its NTFS tracker (reconcile.go, ntfs.go) and the punch path back
  to the writer, over one overlay (shm.go) and one image.  Host writes are serialised (the mount asks for
  direct I/O without parallel writes, fuse.go \<open>Open\<close>), so \<open>Write\<close> is one step; the writer's physical write
  and its release are two; the reconciler computes the punches of one observation in one step and
  submits them one by one.

  The system refines the write-back machine of \<open>WriteBack\<close>; the trace of a run tells which bytes were
  given up.
\<close>

section \<open>The two halves of \<open>processWrite\<close>\<close>

definition putPhase :: "WriterIo \<Rightarrow> ObservedWrite \<Rightarrow> Writer \<Rightarrow> bool \<times> Writer" where
  "putPhase io ob w =
     (let wr = oEvent ob;
          w1 = rememberWrite (eSeq wr) (eOffset wr) (eOffset wr + word_of_nat (length (eData wr))) w;
          (n, err, disk') = File_WriteAt (ioWriteAt io) (wDisk w1) (eData wr) (eOffset wr)
      in (err = None \<and> n = length (eData wr), w1\<lparr>wDisk := disk'\<rparr>))"

lemma processWrite_phases:
  "processWrite io ob w =
     (if oMPEGTS ob then releaseStaged io (eStaged (oEvent ob)) w
      else let (ok, w2) = putPhase io ob w in if ok then releaseStaged io (eStaged (oEvent ob)) w2 else w2)"
  by (auto simp: processWrite_def putPhase_def Let_def split: prod.split)

section \<open>State and steps\<close>

record System =
  syNode :: DiskNode
  syPipe :: Pipe
  syMid :: "ObservedWrite option"
  syRec :: Reconciler
  syReqs :: "PunchRequest list"

abbreviation syWriter :: "System \<Rightarrow> Writer" where
  "syWriter S \<equiv> ppWriter (syPipe S)"

definition setWriter :: "Writer \<Rightarrow> System \<Rightarrow> System" where
  "setWriter w S = S\<lparr>syPipe := (syPipe S)\<lparr>ppWriter := w\<rparr>\<rparr>"

definition setPipeline :: "WritePipeline \<Rightarrow> System \<Rightarrow> System" where
  "setPipeline p S = S\<lparr>syPipe := (syPipe S)\<lparr>ppPipe := p\<rparr>\<rparr>"

text \<open>What \<open>d.pipeline.SubmitWrite\<close> answers to FUSE, and the pipeline afterwards.\<close>

definition submitAnswer :: "WritePipeline \<Rightarrow> WriteEvent \<Rightarrow> Submitted" where
  "submitAnswer p ev =
     (case Pipeline_SubmitWrite ev p of
        Done (None, _) \<Rightarrow> Accepted
      | Done (Some e, _) \<Rightarrow> Rejected e
      | _ \<Rightarrow> SubmitPanics)"

definition afterSubmit :: "WriteEvent option \<Rightarrow> WritePipeline \<Rightarrow> WritePipeline" where
  "afterSubmit evo p =
     (case evo of
        None \<Rightarrow> p
      | Some ev \<Rightarrow> (case Pipeline_SubmitWrite ev p of Done (_, p') \<Rightarrow> p' | _ \<Rightarrow> p))"

text \<open>
  What a step did: a host write with the event it was acknowledged as (none when it was refused), a step
  inside the pipeline, the writer's physical write and whether it succeeded, a write discarded as
  MPEG-TS, a flush, a punch and whether it was executed, or something else.
\<close>

datatype SysLabel =
    SHost bytes i64 "WriteEvent option"
  | SInner PipeLabel
  | SPut ObservedWrite bool
  | SDiscard ObservedWrite
  | SFlush nat
  | SPunch PunchRequest bool
  | SQuiet

fun pipeLabel :: "SysLabel \<Rightarrow> PipeLabel" where
  "pipeLabel (SHost _ _ (Some ev)) = LSubmit ev"
| "pipeLabel (SInner l) = l"
| "pipeLabel (SPut ob _) = LWriter (writerWrite ob)"
| "pipeLabel (SDiscard ob) = LWriter (writerWrite ob)"
| "pipeLabel (SFlush b) = LWriter (writerBarrier b)"
| "pipeLabel _ = LQuiet"

abbreviation pipeTrace :: "SysLabel list \<Rightarrow> PipeLabel list" where
  "pipeTrace \<equiv> map pipeLabel"

text \<open>The actions of the pipeline that the rules below do not describe themselves.\<close>

fun ownAction :: "PipeAction \<Rightarrow> bool" where
  "ownAction (ActSubmit _) = False"
| "ownAction (ActWrite _) = False"
| "ownAction ActReconcile = False"
| "ownAction _ = True"

text \<open>Whether \<open>processPunch\<close> gets as far as the hole, the negation of its two early returns.\<close>

definition punches :: "PunchRequest \<Rightarrow> Writer \<Rightarrow> bool" where
  "punches req w \<longleftrightarrow> pStart req < pEnd req \<and> \<not> hasNewerOverlap (pCaptureSeq req) (pStart req) (pEnd req) w"

text \<open>
  The tracker reads the volume several times while other goroutines change it, so the reader \<open>rd\<close> of a
  reconciler step is arbitrary, like the order \<open>ord\<close> of its map iterations.  \<open>p.punches\<close> is closed after
  the reconciler has returned (main.go \<open>shutdown\<close>).
\<close>

inductive sysStep :: "System \<Rightarrow> SysLabel \<Rightarrow> System \<Rightarrow> bool" where
  fuse_write: "length data < 2 ^ 63 \<Longrightarrow> nextGen (wShm (syWriter S)) + 1 \<noteq> 0 \<Longrightarrow>
    DiskNode_Write oc (TouchesMFT (rcNtfs (syRec S))) (submitAnswer (ppPipe (syPipe S))) data off
      (syNode S) (wShm (syWriter S)) = ((n, errno, evo), d, s) \<Longrightarrow>
    sysStep S (SHost data off evo)
      (S\<lparr>syNode := d,
         syPipe := (syPipe S)\<lparr>ppPipe := afterSubmit evo (ppPipe (syPipe S)),
                             ppWriter := (syWriter S)\<lparr>wShm := s\<rparr>\<rparr>\<rparr>)"
| pipeline: "ownAction a \<Longrightarrow> perform a (syPipe S) = Some (l, P) \<Longrightarrow> sysStep S (SInner l) (S\<lparr>syPipe := P\<rparr>)"
| writer_put: "syMid S = None \<Longrightarrow> recv (wIn (syWriter S)) = Received (writerWrite ob) c \<Longrightarrow>
    \<not> oMPEGTS ob \<Longrightarrow> putPhase io ob ((syWriter S)\<lparr>wIn := c\<rparr>) = (ok, w) \<Longrightarrow>
    sysStep S (SPut ob ok) ((setWriter w S)\<lparr>syMid := (if ok then Some ob else None)\<rparr>)"
| writer_release: "syMid S = Some ob \<Longrightarrow>
    sysStep S SQuiet ((setWriter (releaseStaged io (eStaged (oEvent ob)) (syWriter S)) S)\<lparr>syMid := None\<rparr>)"
| writer_discard: "syMid S = None \<Longrightarrow> recv (wIn (syWriter S)) = Received (writerWrite ob) c \<Longrightarrow> oMPEGTS ob \<Longrightarrow>
    sysStep S (SDiscard ob)
      (setWriter (releaseStaged io (eStaged (oEvent ob)) ((syWriter S)\<lparr>wIn := c\<rparr>)) S)"
| writer_barrier: "syMid S = None \<Longrightarrow> recv (wIn (syWriter S)) = Received (writerBarrier b) c \<Longrightarrow>
    sysStep S (SFlush b)
      (setWriter (processCommand io (writerBarrier b) ((syWriter S)\<lparr>wIn := c\<rparr>)) S)"
| writer_punch: "syMid S = None \<Longrightarrow> recv (wPunchIn (syWriter S)) = Received req c \<Longrightarrow>
    sysStep S (SPunch req (punches req (syWriter S)))
      (setWriter (processPunch io req ((syWriter S)\<lparr>wPunchIn := c\<rparr>)) S)"
| reconcile: "syReqs S = [] \<Longrightarrow> recv (plObserved (ppPipe (syPipe S))) = Received ob c \<Longrightarrow>
    Reconciler_run_step ord rd ob (syRec S) = (reqs, rc) \<Longrightarrow>
    sysStep S SQuiet ((setPipeline ((ppPipe (syPipe S))\<lparr>plObserved := c\<rparr>) S)\<lparr>syRec := rc, syReqs := reqs\<rparr>)"
| submit_punch: "syReqs S = req # reqs \<Longrightarrow> Pipeline_SubmitPunch req (plPunches (ppPipe (syPipe S))) = Done (b, c) \<Longrightarrow>
    sysStep S SQuiet ((setPipeline ((ppPipe (syPipe S))\<lparr>plPunches := c\<rparr>) S)\<lparr>syReqs := reqs\<rparr>)"
| close_punches: "syReqs S = [] \<Longrightarrow> recv (plObserved (ppPipe (syPipe S))) = RecvClosed \<Longrightarrow>
    ClosePunches (ppPipe (syPipe S)) = Done p \<Longrightarrow> sysStep S SQuiet (setPipeline p S)"
| forward_punch: "runPunches_step (syPipe S) = Done (b, P) \<Longrightarrow> sysStep S SQuiet (S\<lparr>syPipe := P\<rparr>)"

text \<open>Configurations carry the trace.\<close>

definition sysConf :: "SysLabel list \<times> System \<Rightarrow> SysLabel list \<times> System \<Rightarrow> bool" where
  "sysConf c c' \<longleftrightarrow> (\<exists>l. sysStep (snd c) l (snd c') \<and> fst c' = fst c @ [l])"

text \<open>
  The node starts as \<open>mountDiskFS\<close> makes it for an image of the size of the volume, the reconciler with an
  empty journal and the tracker \<open>n\<close>.
\<close>

definition startSystem :: "File \<Rightarrow> SHMDisk \<Rightarrow> NTFS \<Rightarrow> System" where
  "startSystem disk s n =
     \<lparr>syNode = \<lparr>dnSize = shmSize s, dnSeq = 0\<rparr>, syPipe = startPipe disk s, syMid = None,
      syRec = \<lparr>rcCaptures = emptyJournal, rcNtfs = n\<rparr>, syReqs = []\<rparr>"

lemma startSystem_mounted: "mountDiskFS (Inr (shmSize s)) None = Inr (syNode (startSystem disk s n))"
  by (simp add: mountDiskFS_def startSystem_def)

section \<open>What a run has acknowledged and given up\<close>

text \<open>The writes acknowledged to the host, in order, and the writes the writer has taken.\<close>

definition acknowledged :: "SysLabel list \<Rightarrow> WriteEvent list" where
  "acknowledged tr = submitted (pipeTrace tr)"

definition taken :: "SysLabel list \<Rightarrow> ObservedWrite list" where
  "taken tr = writesOf (handled (pipeTrace tr))"

text \<open>
  The bytes whose value the program does not promise any more.  A refused write gives up its range; an
  acknowledged one brings its range back; discarding a write gives up the bytes of which it is the
  last; a punch gives up its bytes unless a write is still to come to them.
\<close>

definition hostRange :: "bytes \<Rightarrow> u64 \<Rightarrow> u64 set" where
  "hostRange data off = {p. off \<le> p \<and> unat p < unat off + length data}"

fun giveUp :: "SysLabel \<Rightarrow> WriteEvent list \<Rightarrow> nat \<Rightarrow> u64 set \<Rightarrow> u64 set" where
  "giveUp (SHost data off None) A k L = L \<union> hostRange data off"
| "giveUp (SHost data off (Some ev)) A k L = L - {p. covers ev p}"
| "giveUp (SDiscard ob) A k L = L \<union> {p. lastCover A k p}"
| "giveUp (SPunch req True) A k L = L \<union> ({p. pStart req \<le> p \<and> p < pEnd req} \<inter> untouchedFrom k A)"
| "giveUp _ A k L = L"

fun givenUpRev :: "SysLabel list \<Rightarrow> u64 set" where
  "givenUpRev [] = {}"
| "givenUpRev (l # ls) = giveUp l (acknowledged (rev ls)) (length (taken (rev ls))) (givenUpRev ls)"

definition givenUp :: "SysLabel list \<Rightarrow> u64 set" where
  "givenUp tr = givenUpRev (rev tr)"

lemma givenUp_Nil [simp]: "givenUp [] = {}"
  by (simp add: givenUp_def)

lemma givenUp_snoc [simp]:
  "givenUp (tr @ [l]) = giveUp l (acknowledged tr) (length (taken tr)) (givenUp tr)"
  by (simp add: givenUp_def)

lemma own_action:
  assumes "ownAction a" and "perform a P = Some (l, P')"
  shows "pipeStep P l P'" "submittedBy l = []" "handledBy l = []"
proof -
  show "pipeStep P l P'" by (rule perform_step [OF assms(2)])
  show "submittedBy l = []" "handledBy l = []"
    using assms by (cases a; auto simp: ofAttempt_def runLabel_def split: Attempt.splits option.splits if_splits RunPC.splits)+
qed

section \<open>Steps that do not touch storage\<close>

lemma Writer_submit_storage:
  "Writer_submit cmd w = Done w' \<Longrightarrow> wDisk w' = wDisk w \<and> wShm w' = wShm w"
  by (auto simp: Writer_submit_def split: Attempt.splits)

lemma Writer_CloseInput_storage:
  "Writer_CloseInput w = Done w' \<Longrightarrow> wDisk w' = wDisk w \<and> wShm w' = wShm w"
  by (auto simp: Writer_CloseInput_def split: option.splits)

lemma run_step_storage:
  assumes "run_step pick P = Done P'"
  shows "wDisk (ppWriter P') = wDisk (ppWriter P) \<and> wShm (ppWriter P') = wShm (ppWriter P)"
proof (cases "dAt (ppDisp P)")
  case AtFinish
  then have "Writer_CloseInput (ppWriter P) = Done (ppWriter P')"
    using assms run_finish_fields(1) by (simp add: run_step_def)
  then show ?thesis by (rule Writer_CloseInput_storage)
next
  case (AtSubmit ob)
  then show ?thesis
    using assms Writer_submit_storage by (auto simp: run_step_def Writer_SubmitWrite_def split: Attempt.splits)
next
  case (AtSubmitBarrier req)
  then show ?thesis
    using assms Writer_submit_storage by (auto simp: run_step_def Writer_SubmitBarrier_def split: Attempt.splits)
next
  case AtSelect
  have "ppWriter Q' = ppWriter Q" if "run_return Q = Done Q'" for Q Q'
    using that by (rule run_return_fields)
  then show ?thesis
    using assms AtSelect
    by (auto simp: run_step_def select_writes_def select_output_def select_barriers_def Let_def
        split: if_splits SelectCase.splits RecvResult.splits option.splits)
next
  case (AtBarrier req)
  then show ?thesis
    using assms by (auto simp: run_step_def handleBarrier_def Let_def split: if_splits RecvResult.splits)
qed (use assms in \<open>auto simp: run_step_def split: Attempt.splits\<close>)

lemma pipeStep_storage:
  assumes "pipeStep P l P'" and "handledBy l = []"
  shows "wDisk (ppWriter P') = wDisk (ppWriter P) \<and> wShm (ppWriter P') = wShm (ppWriter P)"
  using assms by cases (auto dest: run_step_storage)

text \<open>The closing flag is never reset, and the queue is closed only after it was set.\<close>

definition closedLater :: "WritePipeline \<Rightarrow> bool" where
  "closedLater p \<longleftrightarrow> (chClosed (plWrites p) \<longrightarrow> plClosing p)"

lemma recv_closed: "recv c = Received a c' \<Longrightarrow> chClosed c' = chClosed c"
  by (auto simp: recv_def split: list.splits if_splits)

lemma run_step_flags:
  assumes "run_step pick P = Done P'"
  shows "plClosing (ppPipe P') = plClosing (ppPipe P) \<and>
    chClosed (plWrites (ppPipe P')) = chClosed (plWrites (ppPipe P))"
proof (cases "dAt (ppDisp P)")
  case AtFinish
  then have "run_finish P = Done P'" using assms by (simp add: run_step_def)
  then show ?thesis
    by (auto simp: run_finish_def run_return_def split: option.splits Attempt.splits)
next
  case AtSelect
  then show ?thesis
    using assms
    by (auto simp: run_step_def select_writes_def select_output_def select_barriers_def run_return_def Let_def
        recv_closed split: if_splits SelectCase.splits RecvResult.splits option.splits)
next
  case (AtBarrier req)
  then show ?thesis
    using assms
    by (auto simp: run_step_def handleBarrier_def Let_def recv_closed split: if_splits RecvResult.splits)
qed (use assms in \<open>auto simp: run_step_def split: Attempt.splits\<close>)

lemma pipeStep_flags:
  assumes "pipeStep P l P'" and "closedLater (ppPipe P)"
  shows "closedLater (ppPipe P')" and "plClosing (ppPipe P) \<Longrightarrow> plClosing (ppPipe P')"
proof -
  have "closedLater (ppPipe P') \<and> (plClosing (ppPipe P) \<longrightarrow> plClosing (ppPipe P'))"
    using assms
  proof cases
    case (dispatcher pick)
    then show ?thesis using run_step_flags [OF dispatcher(2)] assms(2) by (simp add: closedLater_def)
  qed (auto simp: closedLater_def Pipeline_SubmitWrite_def fallbackSend_def Sync_wait_def Sync_send_def
      CloseWrites_mark_def CloseWrites_close_def send_def split: if_splits Attempt.splits option.splits)
  then show "closedLater (ppPipe P')" "plClosing (ppPipe P) \<Longrightarrow> plClosing (ppPipe P')" by blast+
qed

section \<open>The writes handled are the first ones acknowledged\<close>

definition numbered :: "WriteEvent list \<Rightarrow> bool" where
  "numbered S \<longleftrightarrow> map eSeq S = map word_of_nat [1..<Suc (length S)]"

lemma numbered_nth:
  assumes "numbered S" and "i < length S"
  shows "eSeq (S ! i) = word_of_nat (Suc i)"
proof -
  have "map eSeq S ! i = map word_of_nat [1..<Suc (length S)] ! i"
    using assms(1) by (simp add: numbered_def del: upt_Suc)
  then show ?thesis using assms(2) by (simp del: upt_Suc)
qed

lemma numbered_snoc: "numbered S \<Longrightarrow> eSeq ev = word_of_nat (Suc (length S)) \<Longrightarrow> numbered (S @ [ev])"
  by (simp add: numbered_def)

text \<open>Numbers that fit the width are told apart.\<close>

lemma same_number:
  assumes "(word_of_nat (Suc i) :: u64) = word_of_nat (Suc j)" and "j < n" and "i \<le> n" and "n < 2 ^ 64"
  shows "i = j"
proof -
  have "Suc i mod 2 ^ 64 = Suc j mod 2 ^ 64"
    using arg_cong [OF assms(1), of unat] unfolding unat_of_nat by simp
  moreover have "Suc j < 2 ^ 64" using assms(2,4) by simp
  moreover have "Suc i < 2 ^ 64 \<or> Suc i = 2 ^ 64" using assms(3,4) by linarith
  ultimately show ?thesis by auto
qed

lemma sent_is_prefix:
  assumes inv: "reorderInv S T p d" and num: "numbered S" and n: "length S < 2 ^ 64"
  shows "T = take (length T) S"
proof -
  have place: "i < length S \<and> T ! i = S ! i" if i: "i < length T" "i \<le> length S" for i
  proof -
    have "T ! i \<in> set S"
      using inv i unfolding reorderInv_def by (metis UnI1 nth_mem subsetD)
    then obtain j where j: "j < length S" "S ! j = T ! i" by (auto simp: in_set_conv_nth)
    then have "(word_of_nat (Suc i) :: u64) = word_of_nat (Suc j)"
      using reorderInv_seq [OF inv i(1)] numbered_nth [OF num j(1)] by simp
    then have "i = j" using same_number j(1) i(2) n by blast
    then show ?thesis using j by simp
  qed
  have le: "length T \<le> length S"
  proof (rule ccontr)
    assume "\<not> length T \<le> length S"
    then show False using place [of "length S"] by simp
  qed
  then show ?thesis
    using place by (intro nth_equalityI) (simp_all add: order_less_le_trans less_imp_le)
qed

lemma handled_is_prefix:
  assumes inv: "pipeInv tr P" and num: "numbered (submitted tr)" and n: "length (submitted tr) < 2 ^ 64"
  shows "map oEvent (writesOf (handled tr)) = take (length (writesOf (handled tr))) (submitted tr)"
    and "length (writesOf (handled tr)) \<le> length (submitted tr)"
proof -
  obtain rest where r: "fst (observeAll (sent tr) NewTSScanner) = writesOf (handled tr) @ rest"
    using handled_prefix [OF inv] by blast
  have sent: "sent tr = map oEvent (writesOf (handled tr)) @ map oEvent rest"
    using observeAll_events [of "sent tr" NewTSScanner] r by simp
  have "sent tr = take (length (sent tr)) (submitted tr)"
    using sent_is_prefix inv num n unfolding pipeInv_def by blast
  then obtain more where "submitted tr = sent tr @ more" by (metis append_take_drop_id)
  then have s: "submitted tr = map oEvent (writesOf (handled tr)) @ map oEvent rest @ more" using sent by simp
  show "map oEvent (writesOf (handled tr)) = take (length (writesOf (handled tr))) (submitted tr)"
    "length (writesOf (handled tr)) \<le> length (submitted tr)"
    unfolding s by simp_all
qed

text \<open>So the write at the head of the writer's queue is the next one acknowledged.\<close>

lemma next_write:
  assumes inv: "pipeInv tr P" and num: "numbered (submitted tr)" and n: "length (submitted tr) < 2 ^ 64"
    and r: "recv (wIn (ppWriter P)) = Received (writerWrite ob) c" and k: "k = length (writesOf (handled tr))"
  shows "k < length (submitted tr)" and "submitted tr ! k = oEvent ob"
proof -
  define tr' where "tr' = tr @ [LWriter (writerWrite ob)]"
  have w: "writesOf (handled tr') = writesOf (handled tr) @ [ob]" "submitted tr' = submitted tr"
    by (simp_all add: tr'_def)
  have i': "pipeInv tr' (P\<lparr>ppWriter := processCommand undefined (writerWrite ob) ((ppWriter P)\<lparr>wIn := c\<rparr>)\<rparr>)"
    unfolding tr'_def by (rule pipeStep_inv [OF inv pipeStep.writer [OF r]])
  note h = handled_is_prefix [OF i', unfolded w, OF num n]
  show lt: "k < length (submitted tr)" using h(2) k by simp
  have "(map oEvent (writesOf (handled tr) @ [ob])) ! k = submitted tr ! k"
    using h(1) lt k by (metis length_append_singleton lessI nth_take)
  then show "submitted tr ! k = oEvent ob" using k by (simp add: nth_append)
qed

section \<open>Refinement of the write-back machine\<close>

definition refines :: "PipeLabel list \<times> System \<Rightarrow> WriteBack \<Rightarrow> bool" where
  "refines c W \<longleftrightarrow>
     (let tr = fst c; S = snd c; w = syWriter S; p = ppPipe (syPipe S)
      in pipeInv tr (syPipe S) \<and> numbered (submitted tr) \<and>
         length (submitted tr) < unat (nextGen (wShm w)) \<and>
         closedLater p \<and> (plClosing p \<or> dnSeq (syNode S) = word_of_nat (length (submitted tr))) \<and>
         wbDisk W = wDisk w \<and> wbShm W = wShm w \<and> wbAll W = submitted tr \<and>
         wbMid W = (syMid S \<noteq> None) \<and>
         length (writesOf (handled tr)) = wbDone W + (if wbMid W then 1 else 0) \<and>
         (\<forall>ob. syMid S = Some ob \<longrightarrow> eStaged (oEvent ob) = eStaged (wbNext W)) \<and>
         dnSize (syNode S) \<le> shmSize (wShm w))"

lemma refinesD:
  assumes "refines (tr, S) W"
  shows "pipeInv tr (syPipe S)" "numbered (submitted tr)" "length (submitted tr) < 2 ^ 64"
    "length (submitted tr) < unat (nextGen (wShm (syWriter S)))" "closedLater (ppPipe (syPipe S))"
    "plClosing (ppPipe (syPipe S)) \<or> dnSeq (syNode S) = word_of_nat (length (submitted tr))"
    "wbDisk W = wDisk (syWriter S)" "wbShm W = wShm (syWriter S)" "wbAll W = submitted tr"
    "wbMid W = (syMid S \<noteq> None)" "length (writesOf (handled tr)) = wbDone W + (if wbMid W then 1 else 0)"
    "\<And>ob. syMid S = Some ob \<Longrightarrow> eStaged (oEvent ob) = eStaged (wbNext W)"
    "dnSize (syNode S) \<le> shmSize (wShm (syWriter S))"
proof -
  have "unat (nextGen (wShm (syWriter S))) < 2 ^ 64" by (rule unat_u64_less)
  then show "length (submitted tr) < 2 ^ 64" using assms by (auto simp: refines_def Let_def)
qed (use assms in \<open>auto simp: refines_def Let_def\<close>)

text \<open>The pipeline's invariant looks only at the queues.\<close>

lemma pipeInv_cong:
  assumes "pipeInv tr P" and "plWrites (ppPipe P') = plWrites (ppPipe P)" and "plFallback (ppPipe P') = plFallback (ppPipe P)"
    and "ppDisp P' = ppDisp P" and "ppSniffer P' = ppSniffer P" and "chItems (wIn (ppWriter P')) = chItems (wIn (ppWriter P))"
  shows "pipeInv tr P'"
proof -
  have "inFlight (ppPipe P') (ppDisp P) = inFlight (ppPipe P) (ppDisp P)"
    using assms(2,3) by (simp add: inFlight_def)
  then show ?thesis using assms reorderInv_same [of "ppPipe P'" "ppDisp P" "ppPipe P"] by (simp add: pipeInv_def)
qed

lemma pipeInv_quiet: "pipeInv (tr @ [LQuiet]) P = pipeInv tr P"
  by (simp add: pipeInv_def)

lemma pipeInv_taken:
  assumes "pipeInv tr P" and "recv (wIn (ppWriter P)) = Received cmd c" and "wIn w = c"
  shows "pipeInv (tr @ [LWriter cmd]) (P\<lparr>ppWriter := w\<rparr>)"
  using pipeStep_inv [OF assms(1) pipeStep.writer [OF assms(2)]] by (rule pipeInv_cong) (simp_all add: assms(3))

lemma putPhase_fields:
  assumes "putPhase io ob w = (ok, w')"
  shows "wIn w' = wIn w" "wShm w' = wShm w"
    "\<exists>n err. File_WriteAt (ioWriteAt io) (wDisk w) (eData (oEvent ob)) (eOffset (oEvent ob)) = (n, err, wDisk w') \<and>
       (ok \<longleftrightarrow> err = None \<and> n = length (eData (oEvent ob)))"
proof -
  obtain n err f where f: "File_WriteAt (ioWriteAt io) (wDisk w) (eData (oEvent ob)) (eOffset (oEvent ob)) = (n, err, f)"
    by (metis prod.exhaust)
  then show "wIn w' = wIn w" "wShm w' = wShm w"
    "\<exists>n err. File_WriteAt (ioWriteAt io) (wDisk w) (eData (oEvent ob)) (eOffset (oEvent ob)) = (n, err, wDisk w') \<and>
       (ok \<longleftrightarrow> err = None \<and> n = length (eData (oEvent ob)))"
    using assms by (auto simp: putPhase_def Let_def)
qed

lemma File_WriteAt_length:
  "File_WriteAt oc f d off = (n, None, f') \<Longrightarrow> n = length d"
  by (auto simp: File_WriteAt_def Let_def split: if_splits IoOutcome.splits)

lemma setWriter_fields [simp]:
  "ppWriter (syPipe (setWriter w S)) = w" "ppPipe (syPipe (setWriter w S)) = ppPipe (syPipe S)"
  "syNode (setWriter w S) = syNode S" "syMid (setWriter w S) = syMid S"
  "syPipe (setWriter w S) = (syPipe S)\<lparr>ppWriter := w\<rparr>"
  by (simp_all add: setWriter_def)

text \<open>Steps that change neither the storage nor what was acknowledged or handled are not seen.\<close>

lemma refines_quiet:
  assumes "refines (tr, S) W" and "pipeInv tr' (syPipe S')" and "submitted tr' = submitted tr"
    and "writesOf (handled tr') = writesOf (handled tr)" and "syMid S' = syMid S" and "syNode S' = syNode S"
    and "wDisk (syWriter S') = wDisk (syWriter S)" and "wShm (syWriter S') = wShm (syWriter S)"
    and "closedLater (ppPipe (syPipe S'))"
    and "plClosing (ppPipe (syPipe S)) \<Longrightarrow> plClosing (ppPipe (syPipe S'))"
  shows "refines (tr', S') W"
  using assms unfolding refines_def Let_def by auto

lemma pipeline_refines:
  assumes r: "refines (tr, S) W" and st: "pipeStep (syPipe S) l P" and l: "submittedBy l = []" "handledBy l = []"
  shows "refines (tr @ [l], S\<lparr>syPipe := P\<rparr>) W"
  by (rule refines_quiet [OF r])
    (use pipeStep_inv [OF refinesD(1) [OF r] st] pipeStep_storage [OF st l(2)] pipeStep_flags [OF st refinesD(5) [OF r]] l
      in simp_all)

lemma forward_punch_fields:
  assumes "runPunches_step P = Done (b, P')"
  shows "plWrites (ppPipe P') = plWrites (ppPipe P)" "plFallback (ppPipe P') = plFallback (ppPipe P)"
    "plClosing (ppPipe P') = plClosing (ppPipe P)" "ppDisp P' = ppDisp P" "ppSniffer P' = ppSniffer P"
    "wIn (ppWriter P') = wIn (ppWriter P)" "wDisk (ppWriter P') = wDisk (ppWriter P)" "wShm (ppWriter P') = wShm (ppWriter P)"
  using assms
  by (auto simp: runPunches_step_def Writer_ClosePunchInput_def Writer_SubmitPunch_def
      split: RecvResult.splits Attempt.splits option.splits)

text \<open>The writer's turn: the write it takes is the next one of the abstract machine.\<close>

lemma refines_next:
  assumes "refines (tr, S) W" and "syMid S = None" and "recv (wIn (syWriter S)) = Received (writerWrite ob) c"
  shows "\<not> wbMid W" "wbDone W < length (wbAll W)" "wbNext W = oEvent ob" "length (writesOf (handled tr)) = wbDone W"
proof -
  note d = refinesD [OF assms(1)]
  show m: "\<not> wbMid W" and k: "length (writesOf (handled tr)) = wbDone W" using d(10,11) assms(2) by simp_all
  show "wbDone W < length (wbAll W)" "wbNext W = oEvent ob"
    using next_write [OF d(1-3) assms(3) refl] k d(9) by simp_all
qed

lemma put_matched:
  assumes r: "refines (tr, S) W" and m: "syMid S = None" and q: "recv (wIn (syWriter S)) = Received (writerWrite ob) c"
    and w: "putPhase io ob ((syWriter S)\<lparr>wIn := c\<rparr>) = (ok, w)"
  shows "\<exists>W'. wbStep W W' \<and> wbLost W' = wbLost W \<and>
    refines (tr @ [LWriter (writerWrite ob)], (setWriter w S)\<lparr>syMid := (if ok then Some ob else None)\<rparr>) W'"
proof -
  note d = refinesD [OF r] and nx = refines_next [OF r m q]
  note f = putPhase_fields [OF w, simplified]
  obtain n err where wr: "File_WriteAt (ioWriteAt io) (wbDisk W) (eData (wbNext W)) (eOffset (wbNext W)) = (n, err, wDisk w)"
      and ok: "ok \<longleftrightarrow> err = None \<and> n = length (eData (oEvent ob))"
    using f(3) d(7) nx(3) by auto
  have i: "pipeInv (tr @ [LWriter (writerWrite ob)]) ((syPipe S)\<lparr>ppWriter := w\<rparr>)"
    by (rule pipeInv_taken [OF d(1) q f(1)])
  show ?thesis
  proof (cases err)
    case None
    then have "ok" using ok wr File_WriteAt_length nx(3) by simp
    moreover have "wbStep W (W\<lparr>wbDisk := wDisk w, wbMid := True\<rparr>)"
      using wbStep.put [OF nx(1,2)] wr None by simp
    ultimately show ?thesis
      using i d nx f(2) by (intro exI [of _ "W\<lparr>wbDisk := wDisk w, wbMid := True\<rparr>"]) (auto simp: refines_def Let_def)
  next
    case (Some e)
    then have "\<not> ok" using ok by simp
    moreover have "wbStep W (W\<lparr>wbDisk := wDisk w, wbDone := wbDone W + 1\<rparr>)"
      using wbStep.put_fails [OF nx(1,2)] wr Some by simp
    ultimately show ?thesis
      using i d nx f(2) by (intro exI [of _ "W\<lparr>wbDisk := wDisk w, wbDone := wbDone W + 1\<rparr>"]) (auto simp: refines_def Let_def)
  qed
qed

lemma ReleaseIfCurrent_counters:
  assumes "shmInv s"
  shows "nextGen (snd (ReleaseIfCurrent pf [x] s)) = nextGen s" "shmSize (snd (ReleaseIfCurrent pf [x] s)) = shmSize s"
  unfolding ReleaseIfCurrent_one [OF assms]
  by (simp_all add: released_def removeRangeGenerationLocked_def punchLocked_def Let_def split: option.split prod.split)

lemma releaseStaged_fields [simp]:
  "wIn (releaseStaged io x w) = wIn w" "wDisk (releaseStaged io x w) = wDisk w"
  "wShm (releaseStaged io x w) = snd (ReleaseIfCurrent (ioRelease io) [x] (wShm w))"
  by (simp_all add: releaseStaged_def)

lemma release_matched:
  assumes r: "refines (tr, S) W" and inv: "wbInv base W" and m: "syMid S = Some ob"
  shows "\<exists>W'. wbStep W W' \<and> wbLost W' = wbLost W \<and>
    refines (tr @ [LQuiet], (setWriter (releaseStaged io (eStaged (oEvent ob)) (syWriter S)) S)\<lparr>syMid := None\<rparr>) W'"
proof -
  note d = refinesD [OF r]
  let ?w = "releaseStaged io (eStaged (oEvent ob)) (syWriter S)"
  let ?W' = "W\<lparr>wbShm := wShm ?w, wbMid := False, wbDone := wbDone W + 1\<rparr>"
  have "wbStep W ?W'"
    using wbStep.release [of W "ioRelease io"] d(8,10,12) m by simp
  moreover have "pipeInv tr ((syPipe S)\<lparr>ppWriter := ?w\<rparr>)"
    by (rule pipeInv_cong [OF d(1)]) simp_all
  moreover have "nextGen (wShm ?w) = nextGen (wShm (syWriter S))" "shmSize (wShm ?w) = shmSize (wShm (syWriter S))"
    using ReleaseIfCurrent_counters wbInvD(1) [OF inv] d(8) by simp_all
  ultimately show ?thesis
    using d m by (intro exI [of _ ?W']) (auto simp: refines_def Let_def pipeInv_quiet)
qed

lemma discard_matched:
  assumes r: "refines (tr, S) W" and inv: "wbInv base W" and m: "syMid S = None"
    and q: "recv (wIn (syWriter S)) = Received (writerWrite ob) c"
  shows "\<exists>W'. wbStep W W' \<and>
    wbLost W' = wbLost W \<union> {p. lastCover (submitted tr) (length (writesOf (handled tr))) p} \<and>
    refines (tr @ [LWriter (writerWrite ob)], setWriter (releaseStaged io (eStaged (oEvent ob)) ((syWriter S)\<lparr>wIn := c\<rparr>)) S) W'"
proof -
  note d = refinesD [OF r] and nx = refines_next [OF r m q]
  let ?w = "releaseStaged io (eStaged (oEvent ob)) ((syWriter S)\<lparr>wIn := c\<rparr>)"
  let ?W' = "W\<lparr>wbShm := wShm ?w, wbDone := wbDone W + 1,
    wbLost := wbLost W \<union> {p. lastCover (wbAll W) (wbDone W) p}\<rparr>"
  have "wbStep W ?W'"
    using wbStep.discard [OF nx(1,2), of "ioRelease io"] d(8) nx(3) by simp
  moreover have "pipeInv (tr @ [LWriter (writerWrite ob)]) ((syPipe S)\<lparr>ppWriter := ?w\<rparr>)"
    by (rule pipeInv_taken [OF d(1) q]) simp
  moreover have "nextGen (wShm ?w) = nextGen (wShm (syWriter S))" "shmSize (wShm ?w) = shmSize (wShm (syWriter S))"
    using ReleaseIfCurrent_counters wbInvD(1) [OF inv] d(8) by simp_all
  ultimately show ?thesis
    using d m nx by (intro exI [of _ ?W']) (auto simp: refines_def Let_def)
qed

lemma newerLoop_queue: "newerLoop (w\<lparr>wPunchIn := c\<rparr>) q a b is = newerLoop w q a b is"
  by (induction "is") (simp_all add: Let_def)

lemma hasNewerOverlap_queue: "hasNewerOverlap q a b (w\<lparr>wPunchIn := c\<rparr>) = hasNewerOverlap q a b w"
  by (simp add: hasNewerOverlap_def newerLoop_queue)

lemma punch_matched:
  assumes r: "refines (tr, S) W" and m: "syMid S = None" and q: "recv (wPunchIn (syWriter S)) = Received req c"
  shows "\<exists>W'. (W' = W \<or> wbStep W W') \<and>
    wbLost W' = (if punches req (syWriter S)
      then wbLost W \<union> ({p. pStart req \<le> p \<and> p < pEnd req} \<inter> untouchedFrom (length (writesOf (handled tr))) (submitted tr))
      else wbLost W) \<and>
    refines (tr @ [LQuiet], setWriter (processPunch io req ((syWriter S)\<lparr>wPunchIn := c\<rparr>)) S) W'"
proof -
  note d = refinesD [OF r]
  let ?w = "processPunch io req ((syWriter S)\<lparr>wPunchIn := c\<rparr>)"
  have i: "pipeInv tr ((syPipe S)\<lparr>ppWriter := ?w\<rparr>)"
    by (rule pipeInv_cong [OF d(1)]) (simp_all add: processPunch_def)
  have s: "wShm ?w = wShm (syWriter S)" by (simp add: processPunch_def)
  show ?thesis
  proof (cases "punches req (syWriter S)")
    case False
    then have "wDisk ?w = wDisk (syWriter S)" by (auto simp: processPunch_def punches_def hasNewerOverlap_queue)
    then show ?thesis
      using i s d m False by (intro exI [of _ W]) (auto simp: refines_def Let_def pipeInv_quiet)
  next
    case True
    then have k: "wDisk ?w = snd (File_PunchHole (ioFallocate io) (wDisk (syWriter S)) (pStart req) (pEnd req - pStart req))"
      by (auto simp: processPunch_def punches_def hasNewerOverlap_queue)
    let ?W' = "W\<lparr>wbDisk := wDisk ?w, wbLost := wbLost W \<union>
      ({p. pStart req \<le> p \<and> p < pEnd req} \<inter> untouchedFrom (wbDone W) (wbAll W))\<rparr>"
    have "pStart req < pEnd req" using True by (simp add: punches_def)
    then have "wbStep W ?W'"
      using wbStep.punch [of W "pStart req" "pEnd req" "ioFallocate io"] k d(7,10) m by simp
    moreover have "length (writesOf (handled tr)) = wbDone W" using d(10,11) m by simp
    ultimately show ?thesis
      using i s d m True by (intro exI [of _ ?W']) (auto simp: refines_def Let_def pipeInv_quiet)
  qed
qed

text \<open>FUSE never makes the file longer than the volume.\<close>

lemma StageWrite_size: "StageWrite oc data off s = (r, s') \<Longrightarrow> shmSize s' = shmSize s"
  by (auto simp: StageWrite_def replaceRangeLocked_def Let_def split: if_splits option.splits prod.splits)

lemma DiskNode_Write_size:
  assumes inv: "shmInv s" and len: "length data < 2 ^ 63" and sz: "dnSize d \<le> shmSize s"
    and w: "DiskNode_Write oc touches submit data off d s = ((n, errno, evo), d', s')"
  shows "dnSize d' \<le> shmSize s'"
proof -
  have "shmSize s' = shmSize s \<and> (dnSize d' = dnSize d \<or> dnSize d' = off + word_of_nat (length data) \<and>
      data \<noteq> [] \<and> (\<exists>x. StageWrite oc data off s = (Inr x, s')))"
    using w StageWrite_size
    by (fastforce simp: DiskNode_Write_def Let_def split: if_splits sum.splits prod.splits Submitted.splits)
  moreover have "off + word_of_nat (length data) \<le> shmSize s" if "data \<noteq> []" "StageWrite oc data off s = (Inr x, s')" for x
  proof -
    have "\<not> shmSize s \<le> off" "\<not> shmSize s - off < word_of_nat (length data)"
      using that by (auto simp: StageWrite_def split: if_splits)
    from new_extent_facts(1,2) [OF this len that(1)] show ?thesis by (simp add: word_le_nat_alt)
  qed
  ultimately show ?thesis using sz by auto
qed

text \<open>A FUSE write that is acknowledged.\<close>

lemma submitAnswer_Accepted:
  assumes "submitAnswer p ev = Accepted"
  shows "Pipeline_SubmitWrite ev p = Done (None, afterSubmit (Some ev) p)" "\<not> plClosing p"
  using assms by (auto simp: submitAnswer_def afterSubmit_def Pipeline_SubmitWrite_def split: Attempt.splits option.splits if_splits)

lemma submitAnswer_refused:
  assumes "submitAnswer p ev \<noteq> Accepted" and "closedLater p"
  shows "plClosing p"
  using assms
  by (auto simp: submitAnswer_def Pipeline_SubmitWrite_def closedLater_def send_def split: if_splits Attempt.splits)

lemma accepted_matched:
  assumes r: "refines (tr, S) W" and inv: "wbInv base W" and len: "length data < 2 ^ 63"
    and g: "nextGen (wShm (syWriter S)) + 1 \<noteq> 0"
    and w: "DiskNode_Write oc touches (submitAnswer (ppPipe (syPipe S))) data off (syNode S) (wShm (syWriter S))
      = ((n, errno, Some ev), d, s)"
  shows "\<exists>W'. wbStep W W' \<and> wbLost W' = wbLost W - {p. covers ev p} \<and> refines (tr @ [LSubmit ev],
    S\<lparr>syNode := d, syPipe := (syPipe S)\<lparr>ppPipe := afterSubmit (Some ev) (ppPipe (syPipe S)),
        ppWriter := (syWriter S)\<lparr>wShm := s\<rparr>\<rparr>\<rparr>) W'"
proof -
  note rd = refinesD [OF r] and a = DiskNode_Write_accepted [OF w]
  have acc: "submitAnswer (ppPipe (syPipe S)) ev = Accepted"
    using w by (auto simp: DiskNode_Write_def Let_def split: if_splits sum.splits prod.splits Submitted.splits)
  note sub = submitAnswer_Accepted [OF acc]
  have st: "StageWrite oc (eData ev) (eOffset ev) (wbShm W) = (Inr (eStaged ev), s)"
    using a rd(8) by simp
  have ne: "eData ev \<noteq> []" "length (eData ev) < 2 ^ 63" using a len by simp_all
  have g': "nextGen (wbShm W) + 1 \<noteq> 0" using g rd(8) by simp
  let ?W' = "W\<lparr>wbShm := s, wbAll := wbAll W @ [ev], wbLost := wbLost W - {p. covers ev p}\<rparr>"
  have step: "wbStep W ?W'" by (rule wbStep.acknowledge [OF st ne g'])
  let ?P = "(syPipe S)\<lparr>ppPipe := afterSubmit (Some ev) (ppPipe (syPipe S))\<rparr>"
  have ps: "pipeStep (syPipe S) (LSubmit ev) ?P" by (rule pipeStep.submit [OF sub(1)])
  have i: "pipeInv (tr @ [LSubmit ev]) (?P\<lparr>ppWriter := (syWriter S)\<lparr>wShm := s\<rparr>\<rparr>)"
    by (rule pipeInv_cong [OF pipeStep_inv [OF rd(1) ps]]) simp_all
  have sq: "dnSeq d = word_of_nat (Suc (length (submitted tr)))" "eSeq ev = word_of_nat (Suc (length (submitted tr)))"
    using a rd(6) sub(2) by (simp_all add: add.commute)
  have "nextGen (wbShm W) < nextGen s"
    by (rule StageWrite_facts(3) [OF wbInvD(1) [OF inv] ne g' st])
  then have "Suc (length (submitted tr)) < unat (nextGen s)"
    using rd(4,8) by (simp add: word_less_nat_alt)
  moreover have "wbDone W < length (submitted tr)" if "wbMid W"
    using inv that rd(9) by (simp add: wbInv_def)
  moreover have "dnSize d \<le> shmSize s"
    using DiskNode_Write_size [OF _ len rd(13) w] wbInvD(1) [OF inv] rd(8) by simp
  ultimately show ?thesis
    using step i sq numbered_snoc [OF rd(2)] rd pipeStep_flags(1) [OF ps rd(5)]
    by (intro exI [of _ ?W']) (auto simp: refines_def Let_def nth_append)
qed

text \<open>
  A FUSE write that is answered with an error: nothing happened, or the range of the request is given
  up.  A write refused by the pipeline uses up a sequence number, which only happens during shutdown.
\<close>

lemma StageWrite_nextGen_le:
  assumes "shmInv s" and "length data < 2 ^ 63" and "nextGen s + 1 \<noteq> 0" and "StageWrite oc data off s = (r, s')"
  shows "nextGen s \<le> nextGen s'"
proof (cases "data \<noteq> [] \<and> (\<exists>x. r = Inr x)")
  case True
  then obtain x where r: "r = Inr x" by blast
  let ?ev = "\<lparr>eSeq = 0, eOffset = off, eData = data, eStaged = x, eTouchesMFT = False\<rparr>"
  show ?thesis
    using StageWrite_facts(3) [OF assms(1), of ?ev oc x s'] True assms r by (simp add: less_imp_le)
next
  case False
  then show ?thesis using assms(4) StageWrite_Inl(2) [of oc data off s _ s'] by (cases r) (auto simp: StageWrite_def)
qed

lemma DiskNode_Write_refused:
  assumes "DiskNode_Write oc touches submit data off d s = ((n, errno, None), d', s')"
  shows "d' = d \<and> s' = s \<or> (\<exists>r. StageWrite oc data off s = (r, s') \<and> (d' = d \<or> (\<exists>ev. submit ev \<noteq> Accepted)))"
proof -
  have rej: "\<exists>ev. submit ev \<noteq> Accepted" if "submit e = Rejected x \<or> submit e = SubmitPanics" for e x
    using that by (intro exI [of _ e]) auto
  show ?thesis
    using assms rej by (auto simp: DiskNode_Write_def Let_def split: if_splits sum.splits prod.splits Submitted.splits)
qed

lemma refused_matched:
  assumes r: "refines (tr, S) W" and inv: "wbInv base W" and len: "length data < 2 ^ 63"
    and g: "nextGen (wShm (syWriter S)) + 1 \<noteq> 0"
    and w: "DiskNode_Write oc touches (submitAnswer (ppPipe (syPipe S))) data off (syNode S) (wShm (syWriter S))
      = ((n, errno, None), d, s)"
  shows "\<exists>W'. (W' = W \<or> wbStep W W') \<and> wbLost W' \<subseteq> wbLost W \<union> hostRange data off \<and> refines (tr @ [LQuiet],
    S\<lparr>syNode := d, syPipe := (syPipe S)\<lparr>ppWriter := (syWriter S)\<lparr>wShm := s\<rparr>\<rparr>\<rparr>) W'"
proof -
  note rd = refinesD [OF r]
  have i: "pipeInv tr ((syPipe S)\<lparr>ppWriter := (syWriter S)\<lparr>wShm := s\<rparr>\<rparr>)"
    by (rule pipeInv_cong [OF rd(1)]) simp_all
  consider (nothing) "d = syNode S" "s = wShm (syWriter S)"
    | (tried) rs where "StageWrite oc data off (wShm (syWriter S)) = (rs, s)"
        "d = syNode S \<or> plClosing (ppPipe (syPipe S))"
    using DiskNode_Write_refused [OF w] submitAnswer_refused [OF _ rd(5)] by blast
  then show ?thesis
  proof cases
    case nothing
    then show ?thesis
      using r i by (intro exI [of _ W]) (auto simp: refines_def Let_def pipeInv_quiet)
  next
    case (tried rs)
    let ?ev = "\<lparr>eSeq = 0, eOffset = off, eData = data, eStaged = \<lparr>xStart = 0, xEnd = 0, xGen = 0\<rparr>, eTouchesMFT = False\<rparr>"
    let ?W' = "W\<lparr>wbShm := s, wbLost := wbLost W \<union> {p. covers ?ev p}\<rparr>"
    have "{p. covers ?ev p} = hostRange data off" by (simp add: covers_def hostRange_def)
    then have lost: "wbLost ?W' \<subseteq> wbLost W \<union> hostRange data off" by simp
    have step: "wbStep W ?W'"
      using tried(1) len g rd(8) by (intro wbStep.refuse [of oc ?ev W rs]) simp_all
    have "nextGen (wShm (syWriter S)) \<le> nextGen s"
      using StageWrite_nextGen_le [OF _ len g tried(1)] wbInvD(1) [OF inv] rd(8) by simp
    then have n: "length (submitted tr) < unat (nextGen s)"
      using rd(4) by (simp add: word_le_nat_alt)
    have "dnSize d \<le> shmSize s"
      using DiskNode_Write_size [OF _ len rd(13) w] wbInvD(1) [OF inv] rd(8) by simp
    then show ?thesis
      using step i n tried(2) rd lost
      by (intro exI [of _ ?W']) (auto simp: refines_def Let_def pipeInv_quiet)
  qed
qed

lemma setPipeline_fields [simp]:
  "syPipe (setPipeline p S) = (syPipe S)\<lparr>ppPipe := p\<rparr>" "syNode (setPipeline p S) = syNode S"
  "syMid (setPipeline p S) = syMid S"
  by (simp_all add: setPipeline_def)

text \<open>Steps around the reconciler do not touch the queues before the writer.\<close>

lemma sideline_refines:
  assumes r: "refines (tr, S) W" and p: "plWrites p = plWrites (ppPipe (syPipe S))"
    "plFallback p = plFallback (ppPipe (syPipe S))" "plClosing p = plClosing (ppPipe (syPipe S))"
    and S': "syPipe S' = (syPipe S)\<lparr>ppPipe := p\<rparr>" "syNode S' = syNode S" "syMid S' = syMid S"
  shows "refines (tr @ [LQuiet], S') W"
proof -
  note rd = refinesD [OF r]
  have "pipeInv (tr @ [LQuiet]) (syPipe S')"
    unfolding pipeInv_quiet S'(1) by (rule pipeInv_cong [OF rd(1)]) (simp_all add: p)
  then show ?thesis
    by (rule refines_quiet [OF r]) (use rd(5) p S' in \<open>simp_all add: closedLater_def\<close>)
qed

lemma ClosePunches_queue: "ClosePunches p = Done p' \<Longrightarrow> plWrites p' = plWrites p \<and> plFallback p' = plFallback p \<and> plClosing p' = plClosing p"
  by (auto simp: ClosePunches_def split: option.splits)

definition refinesLoss :: "SysLabel list \<times> System \<Rightarrow> WriteBack \<Rightarrow> bool" where
  "refinesLoss c W \<longleftrightarrow> refines (pipeTrace (fst c), snd c) W \<and> wbLost W \<subseteq> givenUp (fst c)"

text \<open>Steps of the system that the abstract machine does not see.\<close>

lemma hidden_matched:
  assumes r: "refines (pipeTrace tr, S) W" and lost: "wbLost W \<subseteq> givenUp tr" and st: "sysStep S l S'"
    and l: "l = SQuiet \<and> syMid S' = syMid S \<or> (\<exists>pl. l = SInner pl) \<or> (\<exists>b. l = SFlush b)"
  shows "refinesLoss (tr @ [l], S') W"
proof -
  note rd = refinesD [OF r]
  have g: "givenUp (tr @ [l]) = givenUp tr" using l by auto
  have "refines (pipeTrace (tr @ [l]), S') W"
    using st
  proof cases
    case (pipeline a pl P)
    then show ?thesis using pipeline_refines [OF r own_action] by simp
  next
    case (writer_barrier b c io)
    have "pipeInv (pipeTrace (tr @ [l])) (syPipe S')"
      unfolding writer_barrier(1,2) setWriter_fields map_append
      using pipeInv_taken [OF rd(1) writer_barrier(4)] by (simp add: processCommand_def)
    then show ?thesis
      by (rule refines_quiet [OF r]) (use writer_barrier rd(5) in \<open>simp_all add: processCommand_def\<close>)
  next
    case (reconcile ob c ord rd reqs rc)
    have "refines (pipeTrace tr @ [LQuiet], S') W"
      by (rule sideline_refines [OF r, where p = "(ppPipe (syPipe S))\<lparr>plObserved := c\<rparr>"]) (simp_all add: reconcile)
    then show ?thesis by (simp add: reconcile(1))
  next
    case (submit_punch req reqs b c)
    have "refines (pipeTrace tr @ [LQuiet], S') W"
      by (rule sideline_refines [OF r, where p = "(ppPipe (syPipe S))\<lparr>plPunches := c\<rparr>"]) (simp_all add: submit_punch)
    then show ?thesis by (simp add: submit_punch(1))
  next
    case (close_punches p)
    have "refines (pipeTrace tr @ [LQuiet], S') W"
      by (rule sideline_refines [OF r, where p = p]) (use ClosePunches_queue [OF close_punches(5)] close_punches in simp_all)
    then show ?thesis by (simp add: close_punches(1))
  next
    case (forward_punch b P)
    note f = forward_punch_fields [OF forward_punch(3)]
    have "pipeInv (pipeTrace (tr @ [l])) (syPipe S')"
      unfolding forward_punch(1) map_append pipeLabel.simps list.map pipeInv_quiet
      by (rule pipeInv_cong [OF rd(1)]) (simp_all add: forward_punch(2) f)
    then show ?thesis
      by (rule refines_quiet [OF r]) (use forward_punch rd(5) f in \<open>simp_all add: closedLater_def\<close>)
  qed (use l in auto)
  then show ?thesis using lost g by (simp add: refinesLoss_def)
qed

lemma sysStep_matched:
  assumes r: "refinesLoss (tr, S) W" and inv: "wbInv base W" and st: "sysStep S l S'"
  shows "\<exists>W'. (W' = W \<or> wbStep W W') \<and> refinesLoss (tr @ [l], S') W'"
proof -
  have r': "refines (pipeTrace tr, S) W" and lost: "wbLost W \<subseteq> givenUp tr" using r by (simp_all add: refinesLoss_def)
  note ack = acknowledged_def [of tr] taken_def [of tr]
  show ?thesis
    using st
  proof cases
    case (fuse_write data oc off n errno evo d s)
    show ?thesis
    proof (cases evo)
      case None
      then show ?thesis
        using refused_matched [OF r' inv fuse_write(3,4)] fuse_write lost
        by (fastforce simp: refinesLoss_def afterSubmit_def)
    next
      case (Some ev)
      then show ?thesis
        using accepted_matched [OF r' inv fuse_write(3,4)] fuse_write lost
        by (fastforce simp: refinesLoss_def)
    qed
  next
    case (writer_put ob c io ok w)
    then show ?thesis using put_matched [OF r'] lost by (fastforce simp: refinesLoss_def)
  next
    case (writer_release ob io)
    then show ?thesis using release_matched [OF r' inv] lost by (fastforce simp: refinesLoss_def)
  next
    case (writer_discard ob c io)
    then show ?thesis using discard_matched [OF r' inv] lost ack by (fastforce simp: refinesLoss_def)
  next
    case (writer_punch req c io)
    then show ?thesis
      using punch_matched [OF r' writer_punch(3,4), of io] lost ack
      by (cases "punches req (syWriter S)") (fastforce simp: refinesLoss_def)+
  qed (use hidden_matched [OF r' lost st] in auto)
qed

lemma refines_start:
  assumes "0 < nextGen s"
  shows "refinesLoss ([], startSystem disk s n) (startWriteBack disk s)"
proof -
  have "pipeInv [] (startPipe disk s)" by (rule pipeInv_start)
  moreover have "0 < unat (nextGen s)" using assms by (simp add: word_less_nat_alt)
  ultimately show ?thesis
    by (simp add: refinesLoss_def refines_def startSystem_def startWriteBack_def numbered_def histories closedLater_def)
      (simp add: startPipe_def NewWritePipeline_def NewWriter_def chan_simps)
qed

lemma wbReach_steps: "wbStep\<^sup>*\<^sup>* (startWriteBack disk s) W \<Longrightarrow> wbReach disk s W"
  by (induction rule: rtranclp_induct) (auto intro: wbReach.intros)

text \<open>A fresh overlay, as \<open>NewSHMDisk\<close> returns it; the system over it simulates the abstract machine.\<close>

typedef freshOverlay = "{s :: SHMDisk. shmInv s \<and> 0 < nextGen s}"
proof
  show "shm0 \<in> {s. shmInv s \<and> 0 < nextGen s}" using shm0_inv by (simp add: shm0_def)
qed

interpretation storage: simulation sysConf wbStep refinesLoss
    "([], startSystem disk (Rep_freshOverlay s) n)" "startWriteBack disk (Rep_freshOverlay s)" for disk s n
proof
  have s: "shmInv (Rep_freshOverlay s)" "0 < nextGen (Rep_freshOverlay s)"
    using Rep_freshOverlay [of s] by auto
  show "refinesLoss ([], startSystem disk (Rep_freshOverlay s) n) (startWriteBack disk (Rep_freshOverlay s))"
    by (rule refines_start [OF s(2)])
  fix W c c'
  assume W: "wbStep\<^sup>*\<^sup>* (startWriteBack disk (Rep_freshOverlay s)) W" and r: "refinesLoss c W" and st: "sysConf c c'"
  obtain l where "sysStep (snd c) l (snd c')" "fst c' = fst c @ [l]" using st by (auto simp: sysConf_def)
  moreover have "wbInv (shmView (Rep_freshOverlay s) disk) W"
    by (rule wbReach_inv [OF s(1) wbReach_steps [OF W]])
  ultimately show "\<exists>W'. (W' = W \<or> wbStep W W') \<and> refinesLoss c' W'"
    using sysStep_matched [of "fst c" "snd c" W] r by (metis prod.collapse)
qed

end
