(* ===== verification/SystemSpec.thy ===== *)
theory SystemSpec
  imports System
begin

text \<open>
  What the storage path as a whole promises: the host reads what it wrote, only recordings (and writes
  answered with an error) are given up, and the image always holds a prefix of the acknowledged writes.
\<close>

section \<open>Reachable states\<close>

abbreviation sysReach :: "File \<Rightarrow> SHMDisk \<Rightarrow> NTFS \<Rightarrow> SysLabel list \<Rightarrow> System \<Rightarrow> bool" where
  "sysReach disk s n tr S \<equiv> sysConf\<^sup>*\<^sup>* ([], startSystem disk s n) (tr, S)"

lemma sysReach_induct [consumes 1, case_names start step]:
  assumes "sysReach disk s n tr S" and "Q [] (startSystem disk s n)"
    and "\<And>tr S l S'. sysReach disk s n tr S \<Longrightarrow> Q tr S \<Longrightarrow> sysStep S l S' \<Longrightarrow> Q (tr @ [l]) S'"
  shows "Q tr S"
proof -
  have "Q (fst c) (snd c)" if "sysConf\<^sup>*\<^sup>* ([], startSystem disk s n) c" for c
    using that
  proof (induction rule: rtranclp_induct)
    case base
    then show ?case using assms(2) by simp
  next
    case (step c c')
    then show ?case using assms(3) [of "fst c" "snd c"] by (auto simp: sysConf_def)
  qed
  from this [OF assms(1)] show ?thesis by simp
qed

lemma reach_refines:
  assumes "shmInv s" and "0 < nextGen s" and "sysReach disk s n tr S"
  obtains W where "wbReach disk s W" and "refines (pipeTrace tr, S) W" and "wbLost W \<subseteq> givenUp tr"
proof -
  have rep: "Rep_freshOverlay (Abs_freshOverlay s) = s"
    using assms(1,2) by (intro Abs_freshOverlay_inverse) simp
  obtain W where "wbStep\<^sup>*\<^sup>* (startWriteBack disk s) W" "refinesLoss (tr, S) W"
    using storage.reachable_related [of disk "Abs_freshOverlay s" n "(tr, S)"] assms(3) unfolding rep by blast
  then show thesis using that [OF wbReach_steps] by (simp add: refinesLoss_def)
qed

lemma reach_pipeInv:
  assumes "shmInv s" and "0 < nextGen s" and "sysReach disk s n tr S"
  shows "pipeInv (pipeTrace tr) (syPipe S)"
  using reach_refines [OF assms] refinesD(1) by metis

section \<open>What the sniffer has made of the writes\<close>

definition observations :: "SysLabel list \<Rightarrow> ObservedWrite list" where
  "observations tr = fst (observeAll (sent (pipeTrace tr)) NewTSScanner)"

text \<open>A byte of a write that was recognised as MPEG-TS, and a byte captured under a sequence number.\<close>

definition flagged :: "SysLabel list \<Rightarrow> u64 \<Rightarrow> bool" where
  "flagged tr p \<longleftrightarrow> (\<exists>ob \<in> set (observations tr). oMPEGTS ob \<and> covers (oEvent ob) p)"

definition capturedAs :: "SysLabel list \<Rightarrow> u64 \<Rightarrow> u64 \<Rightarrow> bool" where
  "capturedAs tr sq p \<longleftrightarrow> (\<exists>ob \<in> set (observations tr). \<exists>c \<in> set (oCaptures ob). cSeq c = sq \<and> captured c p)"

definition refused :: "SysLabel list \<Rightarrow> u64 \<Rightarrow> bool" where
  "refused tr p \<longleftrightarrow> (\<exists>data off. SHost data off None \<in> set tr \<and> p \<in> hostRange data off)"

lemma observations_mono: "set (observations tr) \<subseteq> set (observations (tr @ tr'))"
  by (simp add: observations_def sent_def observeAll_take)

lemma flagged_mono: "flagged tr p \<Longrightarrow> flagged (tr @ tr') p"
  using observations_mono by (fastforce simp: flagged_def)

lemma capturedAs_mono: "capturedAs tr sq p \<Longrightarrow> capturedAs (tr @ tr') sq p"
  using observations_mono by (fastforce simp: capturedAs_def)

lemma forwarded_observed: "pipeInv (pipeTrace tr) P \<Longrightarrow> set (forwarded (pipeTrace tr)) \<subseteq> set (observations tr)"
  by (auto simp: pipeInv_def fifoInv_def observations_def observeAll_take)

lemma taken_observed: "pipeInv (pipeTrace tr) P \<Longrightarrow> set (taken tr) \<subseteq> set (observations tr)"
  using handled_prefix [of "pipeTrace tr" P] by (auto simp: observations_def taken_def)

section \<open>The punch path carries captured bytes only\<close>

definition reqOk :: "SysLabel list \<Rightarrow> PunchRequest \<Rightarrow> bool" where
  "reqOk tr r \<longleftrightarrow> (\<forall>p. pStart r \<le> p \<and> p < pEnd r \<longrightarrow> capturedAs tr (pCaptureSeq r) p)"

definition requests :: "System \<Rightarrow> PunchRequest set" where
  "requests S = set (syReqs S) \<union> set (chItems (plPunches (ppPipe (syPipe S)))) \<union> set (chItems (wPunchIn (syWriter S)))"

definition observing :: "Pipe \<Rightarrow> ObservedWrite set" where
  "observing P = {ob. dAt (ppDisp P) = AtObserve ob} \<union> set (chItems (plObserved (ppPipe P)))"

definition punchInv :: "SysLabel list \<Rightarrow> System \<Rightarrow> bool" where
  "punchInv tr S \<longleftrightarrow>
     rcInv (syRec S) \<and>
     (\<forall>c \<in> set (journalEntries (rcCaptures (syRec S))). \<exists>ob \<in> set (observations tr). c \<in> set (oCaptures ob)) \<and>
     observing (syPipe S) \<subseteq> set (forwarded (pipeTrace tr)) \<and> (\<forall>r \<in> requests S. reqOk tr r)"

lemma reqOk_mono: "reqOk tr r \<Longrightarrow> reqOk (tr @ tr') r"
  using capturedAs_mono by (auto simp: reqOk_def)

lemma punchInv_start: "ntInv n \<Longrightarrow> punchInv [] (startSystem disk s n)"
  by (simp add: punchInv_def startSystem_def rcInv_def jh.fresh_wf jh.fresh_entries observing_def requests_def startPipe_def
      NewWritePipeline_def startDispatcher_def NewWriter_def chan_simps)

lemma punchInv_quiet:
  assumes "punchInv tr S" and "syRec S' = syRec S"
    and "observing (syPipe S') \<subseteq> observing (syPipe S) \<union> set (forwardedBy (pipeLabel l))" and "requests S' \<subseteq> requests S"
  shows "punchInv (tr @ [l]) S'"
proof -
  have "observing (syPipe S') \<subseteq> set (forwarded (pipeTrace (tr @ [l])))"
    using assms(1,3) by (auto simp: punchInv_def forwarded_def)
  moreover have "\<forall>r \<in> requests S'. reqOk (tr @ [l]) r"
    using assms(1,4) reqOk_mono by (auto simp: punchInv_def)
  moreover have "\<forall>c \<in> set (journalEntries (rcCaptures (syRec S'))). \<exists>ob \<in> set (observations (tr @ [l])). c \<in> set (oCaptures ob)"
    using assms(1,2) observations_mono by (fastforce simp: punchInv_def)
  ultimately show ?thesis using assms(1,2) by (simp add: punchInv_def)
qed

lemma run_step_observing:
  assumes "run_step pick P = Done P'"
  shows "observing P' \<subseteq> observing P \<union> set (forwardedBy (runLabel P))"
    and "plPunches (ppPipe P') = plPunches (ppPipe P)" and "wPunchIn (ppWriter P') = wPunchIn (ppWriter P)"
proof -
  have sub: "wPunchIn w' = wPunchIn w" if "Writer_submit cmd w = Done w'" for cmd w w'
    using that by (auto simp: Writer_submit_def split: Attempt.splits)
  have idle: "backTo ret \<noteq> AtObserve ob" for ret ob by (simp add: backTo_def split: option.split)
  have acc: "dAt (acceptWrite ret ev d) \<noteq> AtObserve ob" "dAt (dispatched ret ev d) \<noteq> AtObserve ob" for ret ev d ob
    by (auto simp: acceptWrite_def dispatched_def idle Let_def split: option.split)
  have "observing P' \<subseteq> observing P \<union> set (forwardedBy (runLabel P)) \<and>
      plPunches (ppPipe P') = plPunches (ppPipe P) \<and> wPunchIn (ppWriter P') = wPunchIn (ppWriter P)"
    using assms
    by (cases "dAt (ppDisp P)")
      (auto simp: run_step_def observing_def runLabel_def select_writes_def select_output_def select_barriers_def
        handleBarrier_def run_finish_def run_return_def closeChan_def send_Done Writer_SubmitWrite_def
        Writer_SubmitBarrier_def Writer_CloseInput_def Let_def acc dest!: sub
        split: SelectCase.splits RecvResult.splits Attempt.splits option.splits if_splits)
  then show "observing P' \<subseteq> observing P \<union> set (forwardedBy (runLabel P))"
    "plPunches (ppPipe P') = plPunches (ppPipe P)" "wPunchIn (ppWriter P') = wPunchIn (ppWriter P)"
    by blast+
qed

lemma own_action_observing:
  assumes "ownAction a" and "perform a P = Some (l, P')"
  shows "observing P' \<subseteq> observing P \<union> set (forwardedBy l)"
    and "plPunches (ppPipe P') = plPunches (ppPipe P)" and "wPunchIn (ppWriter P') = wPunchIn (ppWriter P)"
proof -
  have "observing P' \<subseteq> observing P \<union> set (forwardedBy l) \<and>
      plPunches (ppPipe P') = plPunches (ppPipe P) \<and> wPunchIn (ppWriter P') = wPunchIn (ppWriter P)"
  proof (cases a)
    case (ActDispatch pick)
    then show ?thesis using assms(2) run_step_observing [of pick P P'] by (auto split: Attempt.splits)
  qed (use assms in \<open>auto simp: ofAttempt_def observing_def fallbackSend_def Sync_wait_def Sync_send_def
      CloseWrites_mark_def CloseWrites_close_def split: Attempt.splits option.splits if_splits\<close>)
  then show "observing P' \<subseteq> observing P \<union> set (forwardedBy l)"
    "plPunches (ppPipe P') = plPunches (ppPipe P)" "wPunchIn (ppWriter P') = wPunchIn (ppWriter P)"
    by blast+
qed

text \<open>The reconciler asks only for bytes of captures that it was given.\<close>

lemma reconcile_punchInv:
  assumes inv: "punchInv tr S" and pi: "pipeInv (pipeTrace tr) (syPipe S)"
    and q: "recv (plObserved (ppPipe (syPipe S))) = Received ob c"
    and st: "Reconciler_run_step ord rd ob (syRec S) = (reqs, rc)" and none: "syReqs S = []"
  shows "punchInv (tr @ [SQuiet]) ((setPipeline ((ppPipe (syPipe S))\<lparr>plObserved := c\<rparr>) S)\<lparr>syRec := rc, syReqs := reqs\<rparr>)"
    (is "punchInv _ ?S'")
proof -
  have items: "chItems (plObserved (ppPipe (syPipe S))) = ob # chItems c" using recv_items [OF q] .
  have ob: "ob \<in> set (observations tr)"
    using inv forwarded_observed [OF pi] items by (auto simp: punchInv_def observing_def)
  have rc: "rcInv (syRec S)" using inv by (simp add: punchInv_def)
  note asked = step_asks [OF rc st]
  have old: "\<exists>ob \<in> set (observations tr). c \<in> set (oCaptures ob)"
    if "c \<in> set (journalEntries (rcCaptures rc))" for c
  proof -
    have "c \<in> set (journalEntries (rcCaptures (syRec S))) \<or> c \<in> set (oCaptures ob)"
      using entries_grow [of "rcCaptures (syRec S)" c "oCaptures ob"] rc that asked by (simp add: rcInv_def)
    then show ?thesis using inv ob by (auto simp: punchInv_def)
  qed
  have new: "reqOk tr r" if "r \<in> set reqs" for r
    unfolding reqOk_def
  proof (intro allI impI)
    fix p assume "pStart r \<le> p \<and> p < pEnd r"
    then have "asks reqs (pCaptureSeq r) p" using that by (auto simp: asks_def)
    then obtain c where "c \<in> set (oCaptures ob) \<or> c \<in> set (journalEntries (rcCaptures rc))" "cSeq c = pCaptureSeq r" "captured c p"
      using asked [of "pCaptureSeq r" p] by metis
    then show "capturedAs tr (pCaptureSeq r) p" using ob old by (fastforce simp: capturedAs_def)
  qed
  have "requests ?S' \<subseteq> set reqs \<union> requests S" by (auto simp: requests_def setPipeline_def)
  moreover have "observing (syPipe ?S') \<subseteq> observing (syPipe S)" using items by (auto simp: observing_def)
  moreover have "observations (tr @ [SQuiet]) = observations tr" "forwarded (pipeTrace (tr @ [SQuiet])) = forwarded (pipeTrace tr)"
    by (simp_all add: observations_def sent_def forwarded_def)
  ultimately show ?thesis
    using inv old new reqOk_mono asked unfolding punchInv_def by (fastforce simp: reqOk_def)
qed

lemma runPunches_requests:
  assumes "runPunches_step P = Done (b, P')"
  shows "set (chItems (plPunches (ppPipe P'))) \<union> set (chItems (wPunchIn (ppWriter P'))) \<subseteq>
      set (chItems (plPunches (ppPipe P))) \<union> set (chItems (wPunchIn (ppWriter P)))"
    and "observing P' = observing P"
  using assms
  by (auto simp: runPunches_step_def Writer_ClosePunchInput_def Writer_SubmitPunch_def closeChan_def send_def observing_def
      dest!: recv_items split: RecvResult.splits Attempt.splits option.splits if_splits)

lemma afterSubmit_sideline:
  "plPunches (afterSubmit evo p) = plPunches p" "plObserved (afterSubmit evo p) = plObserved p"
  by (auto simp: afterSubmit_def Pipeline_SubmitWrite_def split: option.split Attempt.split)

lemma releaseStaged_punchIn [simp]: "wPunchIn (releaseStaged io x w) = wPunchIn w"
  by (simp add: releaseStaged_def)

lemma putPhase_punchIn: "putPhase io ob w = (ok, w') \<Longrightarrow> wPunchIn w' = wPunchIn w"
  by (auto simp: putPhase_def rememberWrite_def Let_def split: prod.splits)

lemma sysStep_punchInv:
  assumes inv: "punchInv tr S" and pi: "pipeInv (pipeTrace tr) (syPipe S)" and st: "sysStep S l S'"
  shows "punchInv (tr @ [l]) S'"
  using st
proof cases
  case (reconcile ob c ord rd reqs rc)
  then show ?thesis using reconcile_punchInv [OF inv pi] by blast
next
  case (pipeline a pl P)
  then show ?thesis
    using own_action_observing [OF pipeline(3,4)] by (intro punchInv_quiet [OF inv]) (auto simp: requests_def)
next
  case (forward_punch b P)
  then show ?thesis
    using runPunches_requests [OF forward_punch(3)] by (intro punchInv_quiet [OF inv]) (auto simp: requests_def)
next
  case (fuse_write data oc off n errno evo d s)
  then show ?thesis
    by (intro punchInv_quiet [OF inv]) (auto simp: requests_def observing_def afterSubmit_sideline)
next
  case (writer_put ob c io ok w)
  then show ?thesis
    using putPhase_punchIn [OF writer_put(6)]
    by (intro punchInv_quiet [OF inv]) (auto simp: requests_def observing_def setWriter_def)
next
  case (writer_punch req c io)
  then show ?thesis
    using recv_items [OF writer_punch(4)]
    by (intro punchInv_quiet [OF inv]) (auto simp: requests_def observing_def setWriter_def processPunch_def)
next
  case (submit_punch req reqs b c)
  then show ?thesis
    by (intro punchInv_quiet [OF inv])
      (auto simp: requests_def observing_def setPipeline_def Pipeline_SubmitPunch_def send_def split: if_splits)
next
  case (close_punches p)
  then show ?thesis
    by (intro punchInv_quiet [OF inv])
      (auto simp: requests_def observing_def setPipeline_def ClosePunches_def closeChan_def split: if_splits)
qed (intro punchInv_quiet [OF inv]; auto simp: requests_def observing_def setWriter_def processCommand_def)+

lemma reach_punchInv:
  assumes "shmInv s" and "0 < nextGen s" and "ntInv n" and "sysReach disk s n tr S"
  shows "punchInv tr S"
  using assms(4)
proof (induction rule: sysReach_induct)
  case start
  then show ?case by (rule punchInv_start [OF assms(3)])
next
  case (step tr S l S')
  then show ?case using sysStep_punchInv reach_pipeInv [OF assms(1,2)] by blast
qed

section \<open>What is given up\<close>

lemma refused_mono: "refused tr p \<Longrightarrow> refused (tr @ tr') p"
  by (auto simp: refused_def)

lemma discard_flagged:
  assumes r: "refines (pipeTrace tr, S) W" and m: "syMid S = None" and ts: "oMPEGTS ob"
    and q: "recv (wIn (syWriter S)) = Received (writerWrite ob) c"
    and p: "lastCover (acknowledged tr) (length (taken tr)) p"
    and pi: "pipeInv (pipeTrace (tr @ [SDiscard ob])) P"
  shows "flagged (tr @ [SDiscard ob]) p"
proof -
  note nx = refines_next [OF r m q] and rd = refinesD [OF r]
  have "covers (oEvent ob) p"
    using p nx rd(9) by (simp add: lastCover_def acknowledged_def taken_def)
  moreover have "ob \<in> set (taken (tr @ [SDiscard ob]))" by (simp add: taken_def handled_def)
  ultimately show ?thesis using ts taken_observed [OF pi] by (auto simp: flagged_def)
qed

lemma sysStep_given_up:
  assumes r: "refines (pipeTrace tr, S) W" and pinv: "punchInv tr S" and st: "sysStep S l S'"
    and pi: "pipeInv (pipeTrace (tr @ [l])) P"
    and p: "p \<in> givenUp (tr @ [l])" and new: "p \<notin> givenUp tr"
  shows "refused (tr @ [l]) p \<or> flagged (tr @ [l]) p \<or> (\<exists>sq. capturedAs (tr @ [l]) sq p)"
  using st
proof cases
  case (fuse_write data oc off n errno evo d s)
  then show ?thesis using p new by (cases evo) (auto simp: refused_def)
next
  case (writer_discard ob c io)
  then have "lastCover (acknowledged tr) (length (taken tr)) p" using p new by simp
  then show ?thesis
    using discard_flagged [OF r writer_discard(3,5,4)] pi writer_discard(1) by blast
next
  case (writer_punch req c io)
  then have "punches req (syWriter S)" "pStart req \<le> p \<and> p < pEnd req"
    using p new by (cases "punches req (syWriter S)"; simp)+
  moreover have "req \<in> requests S" using recv_items [OF writer_punch(4)] by (simp add: requests_def)
  ultimately show ?thesis
    using pinv capturedAs_mono unfolding punchInv_def reqOk_def by blast
qed (use p new in auto)

lemma given_up_cases:
  assumes "shmInv s" and "0 < nextGen s" and "ntInv n" and "sysReach disk s n tr S" and "p \<in> givenUp tr"
  shows "refused tr p \<or> flagged tr p \<or> (\<exists>sq. capturedAs tr sq p)"
  using assms(4,5)
proof (induction rule: sysReach_induct)
  case start
  then show ?case by simp
next
  case (step tr S l S')
  have next': "sysReach disk s n (tr @ [l]) S'"
    using step.hyps(1,2) by (auto intro: rtranclp.rtrancl_into_rtrancl simp: sysConf_def)
  obtain W where r: "refines (pipeTrace tr, S) W" using reach_refines [OF assms(1,2) step.hyps(1)] by metis
  show ?case
  proof (cases "p \<in> givenUp tr")
    case True
    then show ?thesis using step.IH refused_mono flagged_mono capturedAs_mono by blast
  next
    case False
    show ?thesis
      by (rule sysStep_given_up [OF r reach_punchInv [OF assms(1-3) step.hyps(1)] step.hyps(2)
            reach_pipeInv [OF assms(1,2) next'] step.prems False])
  qed
qed

section \<open>The image\<close>

text \<open>Bytes the image may hold something else for: a failed physical write, a discarded write, a punch.\<close>

fun imageLostBy :: "SysLabel \<Rightarrow> u64 set" where
  "imageLostBy (SPut ob False) = {p. covers (oEvent ob) p}"
| "imageLostBy (SDiscard ob) = {p. covers (oEvent ob) p}"
| "imageLostBy (SPunch req True) = {p. pStart req \<le> p \<and> p < pEnd req}"
| "imageLostBy _ = {}"

definition imageLost :: "SysLabel list \<Rightarrow> u64 set" where
  "imageLost tr = (\<Union>l \<in> set tr. imageLostBy l)"

lemma putPhase_byte:
  assumes "putPhase io ob w = (ok, w')"
  shows "diskByte (wDisk w') p = (if ok \<and> covers (oEvent ob) p then byteOf (oEvent ob) p
    else if covers (oEvent ob) p then diskByte (wDisk w') p else diskByte (wDisk w) p)"
proof -
  obtain n err where wr: "File_WriteAt (ioWriteAt io) (wDisk w) (eData (oEvent ob)) (eOffset (oEvent ob)) = (n, err, wDisk w')"
      and ok: "ok \<longleftrightarrow> err = None \<and> n = length (eData (oEvent ob))"
    using putPhase_fields(3) [OF assms] by blast
  show ?thesis
  proof (cases "sint (eOffset (oEvent ob)) < 0")
    case True
    then have "err \<noteq> None" "wDisk w' = wDisk w" using wr by (auto simp: File_WriteAt_def)
    then show ?thesis using ok by auto
  next
    case False
    then show ?thesis
      using diskByte_WriteAt(1) [OF _ wr, of p] diskByte_WriteAt(2) [OF _ wr] ok
      by (auto simp: covers_def byteOf_def word_le_nat_alt)
  qed
qed

lemma sysStep_disk:
  assumes "sysStep S l S'" and "\<And>ob ok. l \<noteq> SPut ob ok" and "p \<notin> imageLostBy l"
  shows "diskByte (wDisk (syWriter S')) p = diskByte (wDisk (syWriter S)) p"
  using assms(1)
proof cases
  case (pipeline a pl P)
  then show ?thesis using pipeStep_storage [OF own_action(1,3) [OF pipeline(3,4)]] by simp
next
  case (forward_punch b P)
  then show ?thesis using forward_punch_fields [OF forward_punch(3)] by simp
next
  case (writer_punch req c io)
  show ?thesis
  proof (cases "punches req (syWriter S)")
    case True
    then have "\<not> (pStart req \<le> p \<and> p < pEnd req)" "pStart req < pEnd req"
      using assms(3) writer_punch(1) by (auto simp: punches_def)
    then show ?thesis
      using writer_punch(2) True diskByte_outside_hole [of "pStart req" "pEnd req" p]
      by (auto simp: processPunch_def punches_def hasNewerOverlap_queue)
  next
    case False
    then show ?thesis using writer_punch(2) by (auto simp: processPunch_def punches_def hasNewerOverlap_queue)
  qed
qed (use assms(2) in \<open>auto simp: processCommand_def\<close>)

lemma image_taken:
  assumes "sysReach disk s n tr S" and "p \<notin> imageLost tr"
  shows "diskByte (wDisk (syWriter S)) p = expected (diskByte disk) (map oEvent (taken tr)) p"
  using assms
proof (induction rule: sysReach_induct)
  case start
  then show ?case by (simp add: startSystem_def startPipe_def NewWriter_def taken_def handled_def)
next
  case (step tr S l S')
  have p: "p \<notin> imageLostBy l" "p \<notin> imageLost tr" using step.prems by (auto simp: imageLost_def)
  note IH = step.IH [OF p(2)]
  show ?case
  proof (cases "\<exists>ob ok. l = SPut ob ok")
    case True
    then obtain ob ok where l: "l = SPut ob ok" by blast
    have t: "taken (tr @ [l]) = taken tr @ [ob]" by (simp add: l taken_def)
    from step.hyps(2) show ?thesis
    proof cases
      case (writer_put ob' c io ok' w)
      then have "diskByte (wDisk (syWriter S')) p =
          (if covers (oEvent ob) p then byteOf (oEvent ob) p else diskByte (wDisk (syWriter S)) p)"
        using putPhase_byte [OF writer_put(6), of p] p(1) l by (cases ok) auto
      then show ?thesis using IH t by simp
    qed (use l in auto)
  next
    case False
    have "diskByte (wDisk (syWriter S')) p = diskByte (wDisk (syWriter S)) p"
      using sysStep_disk [OF step.hyps(2) _ p(1)] False by blast
    moreover have "expected (diskByte disk) (map oEvent (taken (tr @ [l]))) p = expected (diskByte disk) (map oEvent (taken tr)) p"
    proof -
      have "handledBy (pipeLabel l) = [] \<or> (\<exists>b. handledBy (pipeLabel l) = [writerBarrier b]) \<or> (\<exists>ob. l = SDiscard ob)"
        using step.hyps(2)
      proof cases
        case (fuse_write data oc off n errno evo d s)
        then show ?thesis by (cases evo) simp_all
      qed (use False own_action(3) in auto)
      then show ?thesis using p(1) by (auto simp: taken_def handled_def)
    qed
    ultimately show ?thesis using IH by simp
  qed
qed

text \<open>What FUSE \<open>Read\<close> answers, over an image that may be an earlier one than the overlay.\<close>

lemma mount_reads:
  assumes "shmInv s" and "0 < nextGen s" and "sysReach disk s n tr S" and "0 \<le> sint off" and "m < 2 ^ 63"
  shows "\<exists>data. DiskNode_Read (shmReadAt (wShm (syWriter S), disk0)) m off (syNode S) = (data, 0) \<and>
    length data = min m (unat (dnSize (syNode S)) - unat off) \<and>
    (\<forall>i < length data. off + word_of_nat i \<notin> givenUp tr \<and>
         diskByte disk0 (off + word_of_nat i) = diskByte (wDisk (syWriter S)) (off + word_of_nat i) \<longrightarrow>
       data ! i = expected (shmView s disk) (acknowledged tr) (off + word_of_nat i))"
proof -
  obtain W where W: "wbReach disk s W" and r: "refines (pipeTrace tr, S) W" and l: "wbLost W \<subseteq> givenUp tr"
    using reach_refines [OF assms(1-3)] .
  note d = refinesD [OF r] and inv = wbReach_inv [OF assms(1) W]
  let ?len = "min m (unat (dnSize (syNode S)) - unat off)"
  have "DiskNode_Read (shmReadAt (wShm (syWriter S), disk0)) m off (syNode S) =
      (map (\<lambda>i. shmView (wShm (syWriter S)) disk0 (off + word_of_nat i)) [0..<?len], 0)"
    by (rule DiskNode_Read_view [OF _ assms(4,5) d(13)]) (use wbInvD(1) [OF inv] d(8) in simp)
  moreover have "shmView (wShm (syWriter S)) disk0 p = expected (shmView s disk) (acknowledged tr) p"
    if "p \<notin> givenUp tr" "diskByte disk0 p = diskByte (wDisk (syWriter S)) p" for p
    using wbInvD(5) [OF inv, of p] that(1) l d(7-9) view_disk [OF that(2)] by (auto simp: acknowledged_def)
  ultimately show ?thesis by simp
qed

section \<open>Properties\<close>

text \<open>
  C6. The storage path refines the write-back machine: every state that FUSE, pipeline, sniffer, writer,
  reconciler and punch path can reach together, under every interleaving and every outcome of the
  system calls, is a state of the abstract machine with the same overlay and image, whose
  acknowledged writes are exactly those that FUSE answered with success, whose lost bytes are among
  those the trace gives up, and of which the writer has handled a prefix.
\<close>

theorem system_refines_write_back:
  assumes "shmInv s" and "0 < nextGen s" and "sysReach disk s n tr S"
  shows "\<exists>W. wbReach disk s W \<and> wbAll W = acknowledged tr \<and> wbShm W = wShm (syWriter S) \<and> wbDisk W = wDisk (syWriter S) \<and>
    wbLost W \<subseteq> givenUp tr \<and> map oEvent (taken tr) = take (length (taken tr)) (acknowledged tr) \<and>
    wbDone W \<le> length (taken tr) \<and> length (taken tr) \<le> wbDone W + 1"
proof -
  obtain W where W: "wbReach disk s W" and r: "refines (pipeTrace tr, S) W" and l: "wbLost W \<subseteq> givenUp tr"
    using reach_refines [OF assms] .
  note d = refinesD [OF r]
  show ?thesis
    using W l d handled_is_prefix(1) [OF d(1-3)]
    by (intro exI [of _ W]) (auto simp: acknowledged_def taken_def)
qed


text \<open>
  C5. Only recordings are given up: in every run, a byte whose value the program does not promise any
  more lies in a write that was answered with an error, in a write that the sniffer recognised as
  MPEG-TS, or in a range that it captured as MPEG-TS packets.  In particular the reconciler and the
  tracker, whatever they read from the disk, never cause other data to be punched.
\<close>

theorem only_recordings_are_given_up:
  assumes "shmInv s" and "0 < nextGen s" and "ntInv n" and "sysReach disk s n tr S" and "p \<in> givenUp tr"
  shows "refused tr p \<or> flagged tr p \<or> (\<exists>sq. capturedAs tr sq p)"
  by (rule given_up_cases [OF assms])

text \<open>
  C7. The image is always a prefix of the history: at every moment, also in the middle of the writer's
  work, each byte of the image is what the first acknowledged writes (those the writer has taken)
  leave there, in order and without gap, except for bytes of failed physical writes, of writes
  discarded as MPEG-TS and of punches.
\<close>

theorem image_is_a_prefix:
  assumes "shmInv s" and "0 < nextGen s" and "sysReach disk s n tr S" and "p \<notin> imageLost tr"
  shows "diskByte (wDisk (syWriter S)) p =
    expected (diskByte disk) (take (length (taken tr)) (acknowledged tr)) p"
proof -
  obtain W where r: "refines (pipeTrace tr, S) W" using reach_refines [OF assms(1-3)] by metis
  note d = refinesD [OF r]
  have "map oEvent (taken tr) = take (length (taken tr)) (acknowledged tr)"
    using handled_is_prefix(1) [OF d(1-3)] by (simp add: acknowledged_def taken_def)
  then show ?thesis using image_taken [OF assms(3,4)] by simp
qed

section \<open>Witnesses\<close>

text \<open>One host write, then the whole path up to its physical write.\<close>

definition sampleImage :: File where
  "sampleImage = \<lparr>fSize = 64, fData = (\<lambda>_. 1)\<rparr>"

abbreviation sampleStart :: System where
  "sampleStart \<equiv> startSystem sampleImage shm0 fileTracker"

definition oneWrite :: System where
  "oneWrite =
     sampleStart\<lparr>syNode := \<lparr>dnSize = 64, dnSeq = 1\<rparr>,
      syPipe := (startPipe sampleImage shm0)\<lparr>
        ppPipe := NewWritePipeline\<lparr>plWrites := (makeChan pipelineWriteDepth)\<lparr>chItems := [stagedEvent]\<rparr>\<rparr>,
        ppWriter := (NewWriter sampleImage shm0)\<lparr>wShm := shm1\<rparr>\<rparr>\<rparr>"

lemma shm0_gen: "0 < nextGen shm0"
  by (simp add: shm0_def)

lemma sample_touches: "\<not> TouchesMFT fileTracker a b"
  by (simp add: TouchesMFT_def fileTracker_def rangesOverlapSnapshot_def)

lemma sampleStart_fields:
  "syNode sampleStart = \<lparr>dnSize = 64, dnSeq = 0\<rparr>" "wShm (syWriter sampleStart) = shm0"
  "ppPipe (syPipe sampleStart) = NewWritePipeline" "rcNtfs (syRec sampleStart) = fileTracker"
  by (simp_all add: startSystem_def startPipe_def NewWriter_def) (simp add: shm0_def)

lemma oneWrite_reach: "sysReach sampleImage shm0 fileTracker [SHost [7, 8, 9] 10 (Some stagedEvent)] oneWrite"
proof -
  have sub: "Pipeline_SubmitWrite stagedEvent NewWritePipeline =
      Done (None, NewWritePipeline\<lparr>plWrites := (makeChan pipelineWriteDepth)\<lparr>chItems := [stagedEvent]\<rparr>\<rparr>)"
    by (simp add: Pipeline_SubmitWrite_def NewWritePipeline_def send_def makeChan_def pipelineWriteDepth_def)
  have w: "DiskNode_Write IoOk (TouchesMFT fileTracker) (submitAnswer NewWritePipeline) [7, 8, 9] 10 \<lparr>dnSize = 64, dnSeq = 0\<rparr> shm0
      = ((3, 0, Some stagedEvent), \<lparr>dnSize = 64, dnSeq = 1\<rparr>, shm1)"
    using sub by (simp add: DiskNode_Write_def shm1_stage submitAnswer_def stagedEvent_def sample_touches)
  have "sysStep sampleStart (SHost [7, 8, 9] 10 (Some stagedEvent))
      (sampleStart\<lparr>syNode := \<lparr>dnSize = 64, dnSeq = 1\<rparr>,
         syPipe := (syPipe sampleStart)\<lparr>
           ppPipe := afterSubmit (Some stagedEvent) (ppPipe (syPipe sampleStart)),
           ppWriter := (syWriter sampleStart)\<lparr>wShm := shm1\<rparr>\<rparr>\<rparr>)"
    by (rule sysStep.fuse_write [where n = 3 and errno = 0 and oc = IoOk])
      (simp_all add: sampleStart_fields w, simp add: shm0_def)
  then have "sysStep sampleStart (SHost [7, 8, 9] 10 (Some stagedEvent)) oneWrite"
    by (simp add: oneWrite_def startSystem_def startPipe_def afterSubmit_def sub)
  then show ?thesis by (intro r_into_rtranclp) (simp add: sysConf_def)
qed

text \<open>Runs inside the pipeline are runs of the system.\<close>

lemma own_actions_run:
  assumes "sysConf\<^sup>*\<^sup>* c (tr, S)" and "performAll as (syPipe S) = Some (ls, P)" and "list_all ownAction as"
  shows "sysConf\<^sup>*\<^sup>* c (tr @ map SInner ls, S\<lparr>syPipe := P\<rparr>)"
  using assms
proof (induction "as" arbitrary: tr S ls)
  case (Cons a as)
  then obtain l P1 ls' where a: "perform a (syPipe S) = Some (l, P1)" and r: "performAll as P1 = Some (ls', P)" "ls = l # ls'"
    by (auto split: option.splits)
  have "sysConf (tr, S) (tr @ [SInner l], S\<lparr>syPipe := P1\<rparr>)"
    using sysStep.pipeline [OF _ a] Cons.prems(3) by (auto simp: sysConf_def)
  then have "sysConf\<^sup>*\<^sup>* c (tr @ [SInner l], S\<lparr>syPipe := P1\<rparr>)"
    using Cons.prems(1) by (rule rtranclp.rtrancl_into_rtrancl [rotated])
  from Cons.IH [OF this] r Cons.prems(3) show ?case by simp
next
  case Nil
  then have "P = syPipe S" "ls = []" by simp_all
  moreover have "S\<lparr>syPipe := syPipe S\<rparr> = S" by simp
  ultimately show ?case using Nil.prems(1) by (simp only: list.map append_Nil2)
qed

lemma observe_staged:
  obtains sc where "observe stagedEvent NewTSScanner = ([], \<lparr>oEvent = stagedEvent, oMPEGTS = False, oCaptures = []\<rparr>, sc)"
  by (simp add: observe_def stagedEvent_def Feed_def NewTSScanner_def resetScanner_def keepTail_def findMPEGTS_def)

abbreviation stagedObserved :: ObservedWrite where
  "stagedObserved \<equiv> \<lparr>oEvent = stagedEvent, oMPEGTS = False, oCaptures = []\<rparr>"

lemma stored_reach:
  obtains tr S where "sysReach sampleImage shm0 fileTracker tr S" and "acknowledged tr = [stagedEvent]"
    and "taken tr = [stagedObserved]" and "imageLost tr = {}" and "givenUp tr = {}" and "syMid S = Some stagedObserved"
    and "wShm (syWriter S) = shm1" and "syNode S = \<lparr>dnSize = 64, dnSeq = 1\<rparr>" and "sysConf\<^sup>*\<^sup>* ([SHost [7, 8, 9] 10 (Some stagedEvent)], oneWrite) (tr, S)"
proof -
  let ?as = "[ActDispatch PickWrites, ActDispatch PickWrites, ActSniff, ActSniff, ActDispatch PickOutput, ActDispatch PickOutput]"
  let ?ls = "[LQuiet, LSent stagedEvent, LQuiet, LQuiet, LQuiet, LForward stagedObserved]"
  obtain sc where "observe stagedEvent NewTSScanner = ([], stagedObserved, sc)" by (rule observe_staged)
  moreover have "eSeq stagedEvent = 1" by (simp add: stagedEvent_def)
  ultimately have "\<exists>P. performAll ?as (syPipe oneWrite) = Some (?ls, P) \<and> wIn (ppWriter P) = (makeChan writerQueueDepth)\<lparr>chItems := [writerWrite stagedObserved]\<rparr> \<and>
      wShm (ppWriter P) = shm1"
    by (simp add: oneWrite_def run_eval)
  then obtain P where P: "performAll ?as (syPipe oneWrite) = Some (?ls, P)"
      "wIn (ppWriter P) = (makeChan writerQueueDepth)\<lparr>chItems := [writerWrite stagedObserved]\<rparr>" "wShm (ppWriter P) = shm1"
    by blast
  let ?S = "oneWrite\<lparr>syPipe := P\<rparr>" and ?tr = "[SHost [7, 8, 9] 10 (Some stagedEvent)] @ map SInner ?ls"
  have r: "sysConf\<^sup>*\<^sup>* ([SHost [7, 8, 9] 10 (Some stagedEvent)], oneWrite) (?tr, ?S)"
    by (rule own_actions_run [OF _ P(1)]) simp_all
  have q: "recv (wIn (syWriter ?S)) = Received (writerWrite stagedObserved) (makeChan writerQueueDepth)"
    by (simp add: P(2) recv_def makeChan_def)
  obtain ok w where w: "putPhase quietIo stagedObserved ((syWriter ?S)\<lparr>wIn := makeChan writerQueueDepth\<rparr>) = (ok, w)"
    by (metis prod.exhaust)
  have ok: "ok"
    using w by (auto simp: putPhase_def Let_def File_WriteAt_def quietIo_def stagedEvent_def sint_u64_neg split: prod.splits)
  let ?T = "(setWriter w ?S)\<lparr>syMid := Some stagedObserved\<rparr>"
  have "sysStep ?S (SPut stagedObserved ok) ?T"
    using sysStep.writer_put [OF _ q _ w] ok by (simp add: oneWrite_def startSystem_def)
  then have run: "sysConf\<^sup>*\<^sup>* ([SHost [7, 8, 9] 10 (Some stagedEvent)], oneWrite) (?tr @ [SPut stagedObserved ok], ?T)"
    using r by (auto intro: rtranclp.rtrancl_into_rtrancl simp: sysConf_def)
  have "sysReach sampleImage shm0 fileTracker (?tr @ [SPut stagedObserved ok]) ?T"
    using oneWrite_reach run by (rule rtranclp_trans)
  then show thesis
    by (rule that)
      (use ok putPhase_fields(2) [OF w] run P(3) in \<open>simp_all add: acknowledged_def taken_def histories imageLost_def
        givenUp_def oneWrite_def\<close>)
qed

theorem system_refines_write_back_witness:
  "\<exists>W. wbReach sampleImage shm0 W \<and> wbAll W = [stagedEvent] \<and> wbShm W = shm1 \<and> wbDisk W = sampleImage \<and> wbLost W = {}"
  using system_refines_write_back [OF shm0_inv shm0_gen oneWrite_reach]
  by (auto simp: acknowledged_def submitted_def oneWrite_def NewWriter_def givenUp_def)


text \<open>A write beyond the end of the volume is refused.\<close>

lemma refused_reach: "\<exists>S. sysReach sampleImage shm0 fileTracker [SHost [1] 100 None] S"
proof -
  have w: "DiskNode_Write IoOk (TouchesMFT fileTracker) (submitAnswer NewWritePipeline) [1] 100 \<lparr>dnSize = 64, dnSeq = 0\<rparr> shm0
      = ((0, EIO, None), \<lparr>dnSize = 64, dnSeq = 0\<rparr>, shm0)"
    by (simp add: DiskNode_Write_def StageWrite_def sint_u64_neg) (simp add: shm0_def)
  have "\<exists>S. sysStep sampleStart (SHost [1] 100 None) S"
    by (intro exI, rule sysStep.fuse_write [where n = 0 and errno = EIO and oc = IoOk])
      (simp_all add: sampleStart_fields w, simp add: shm0_def)
  then obtain S where "sysStep sampleStart (SHost [1] 100 None) S" by blast
  then have "sysConf ([], sampleStart) ([SHost [1] 100 None], S)" by (simp add: sysConf_def)
  then show ?thesis by blast
qed

theorem only_recordings_are_given_up_witness:
  "refused [SHost [1] 100 None] 100 \<or> flagged [SHost [1] 100 None] 100 \<or> (\<exists>sq. capturedAs [SHost [1] 100 None] sq 100)"
proof -
  obtain S where S: "sysReach sampleImage shm0 fileTracker [SHost [1] 100 None] S" using refused_reach by blast
  have "100 \<in> givenUp [SHost [1] 100 None]" by (simp add: givenUp_def hostRange_def)
  then show ?thesis by (rule only_recordings_are_given_up [OF shm0_inv shm0_gen fileTracker_inv S])
qed

theorem image_is_a_prefix_witness:
  "\<exists>tr S. sysReach sampleImage shm0 fileTracker tr S \<and> acknowledged tr = [stagedEvent] \<and>
     diskByte (wDisk (syWriter S)) 11 = 8 \<and> diskByte (wDisk (syWriter S)) 20 = 1"
proof -
  obtain tr S where r: "sysReach sampleImage shm0 fileTracker tr S" and a: "acknowledged tr = [stagedEvent]"
      and t: "taken tr = [stagedObserved]" and l: "imageLost tr = {}"
    by (rule stored_reach)
  have "diskByte (wDisk (syWriter S)) p = expected (diskByte sampleImage) [stagedEvent] p" for p
    using image_is_a_prefix [OF shm0_inv shm0_gen r, of p] a t l by simp
  note byte = this
  have "diskByte (wDisk (syWriter S)) 11 = 8" "diskByte (wDisk (syWriter S)) 20 = 1"
    unfolding byte by (simp_all add: expected_def covers_def byteOf_def stagedEvent_def diskByte_def sampleImage_def)
  then show ?thesis using r a by (intro exI conjI)
qed

section \<open>A read that overlaps a release\<close>

lemma sample_released:
  "current (eStaged stagedEvent) shm1"
  "shmInv (released (eStaged stagedEvent) shm1)" "shmSize (released (eStaged stagedEvent) shm1) = 64"
  "ownerOf (extents (released (eStaged stagedEvent) shm1)) p = None"
proof -
  have e: "extents shm1 = [\<lparr>xStart = 10, xEnd = 13, xGen = 1\<rparr>]" by (simp add: shm1_def shm_eval)
  have "\<not> closed shm1" by (simp add: shm1_def shm_eval)
  then show c: "current (eStaged stagedEvent) shm1" using e by (simp add: current_def stagedEvent_def)
  show "shmInv (released (eStaged stagedEvent) shm1)" by (rule released_inv [OF shm1_inv c])
  show "ownerOf (extents (released (eStaged stagedEvent) shm1)) p = None"
    using released_owner [OF shm1_inv c] e by (simp add: stagedEvent_def)
  show "shmSize (released (eStaged stagedEvent) shm1) = 64"
    by (simp add: released_def removeRangeGenerationLocked_def punchLocked_def Let_def shm1_def shm_eval split: option.split prod.split)
qed

text \<open>
  C13. A read can return bytes from before an acknowledged write: \<open>ReadAt\<close> reads the image without the
  overlay's lock.  There is a run in which the host has written three bytes and got its answer, and a
  read of them starts: at its start and at its end the mount point shows the new bytes, nothing was
  given up, but when the writer stores the write and releases the overlay between the read of the image
  and the lock, the read returns the old bytes.
\<close>

theorem read_can_miss_acknowledged_write:
  "\<exists>tr S tr' S'. sysReach sampleImage shm0 fileTracker tr S \<and> sysConf\<^sup>*\<^sup>* (tr, S) (tr', S') \<and>
     acknowledged tr = [stagedEvent] \<and> acknowledged tr' = [stagedEvent] \<and> givenUp tr' = {} \<and>
     DiskNode_Read (shmReadAt (wShm (syWriter S), wDisk (syWriter S))) 3 10 (syNode S) = ([7, 8, 9], 0) \<and>
     DiskNode_Read (shmReadAt (wShm (syWriter S'), wDisk (syWriter S'))) 3 10 (syNode S') = ([7, 8, 9], 0) \<and>
     DiskNode_Read (shmReadAt (wShm (syWriter S'), wDisk (syWriter S))) 3 10 (syNode S') = ([1, 1, 1], 0)"
proof -
  let ?tr = "[SHost [7, 8, 9] 10 (Some stagedEvent)]" and ?x = "eStaged stagedEvent"
  obtain tr T where t: "acknowledged tr = [stagedEvent]" "taken tr = [stagedObserved]" "imageLost tr = {}" "givenUp tr = {}"
      "syMid T = Some stagedObserved" "wShm (syWriter T) = shm1" "syNode T = \<lparr>dnSize = 64, dnSeq = 1\<rparr>"
      and reach: "sysReach sampleImage shm0 fileTracker tr T" and run: "sysConf\<^sup>*\<^sup>* (?tr, oneWrite) (tr, T)"
    by (rule stored_reach)
  let ?w = "releaseStaged quietIo ?x (syWriter T)"
  let ?S' = "(setWriter ?w T)\<lparr>syMid := None\<rparr>"
  have "sysStep T SQuiet ?S'" using sysStep.writer_release [OF t(5), of quietIo] by simp
  then have run': "sysConf\<^sup>*\<^sup>* (?tr, oneWrite) (tr @ [SQuiet], ?S')"
    using run by (auto intro: rtranclp.rtrancl_into_rtrancl simp: sysConf_def)
  have shm: "wShm (syWriter ?S') = released ?x shm1"
    using ReleaseIfCurrent_one [OF shm1_inv, of "ioRelease quietIo" ?x] sample_released(1) by (simp add: t(6) quietIo_def)
  have view: "shmView (released ?x shm1) f p = diskByte f p" for f p
    by (simp add: shmView_def sample_released(4))
  have disk: "diskByte (wDisk (syWriter T)) p = expected (diskByte sampleImage) [stagedEvent] p" for p
    using image_taken [OF reach, of p] t(2,3) by simp
  have read: "DiskNode_Read (shmReadAt (released ?x shm1, f)) 3 10 \<lparr>dnSize = 64, dnSeq = 1\<rparr> =
      ([diskByte f 10, diskByte f 11, diskByte f 12], 0)" for f
    using DiskNode_Read_view [OF sample_released(2), of 10 3 "\<lparr>dnSize = 64, dnSeq = 1\<rparr>" f] sample_released(3)
    by (simp add: view upt_rec)
  have first: "DiskNode_Read (shmReadAt (shm1, sampleImage)) 3 10 \<lparr>dnSize = 64, dnSeq = 1\<rparr> = ([7, 8, 9], 0)"
    using DiskNode_Read_view [OF shm1_inv, of 10 3 "\<lparr>dnSize = 64, dnSeq = 1\<rparr>" sampleImage]
    by (simp add: shm1_def shm_eval shmView_def upt_rec pokeBytes_def)
  have new: "expected (diskByte sampleImage) [stagedEvent] 10 = 7" "expected (diskByte sampleImage) [stagedEvent] 11 = 8"
    "expected (diskByte sampleImage) [stagedEvent] 12 = 9"
    by (simp_all add: expected_def covers_def byteOf_def stagedEvent_def)
  have ack: "acknowledged ?tr = [stagedEvent]" "acknowledged (tr @ [SQuiet]) = [stagedEvent]" "givenUp (tr @ [SQuiet]) = {}"
    using t(1,4) by (simp_all add: acknowledged_def submitted_def)
  have old: "wShm (syWriter oneWrite) = shm1" "wDisk (syWriter oneWrite) = sampleImage" "syNode oneWrite = \<lparr>dnSize = 64, dnSeq = 1\<rparr>"
    by (simp_all add: oneWrite_def NewWriter_def)
  have was: "diskByte sampleImage 10 = 1" "diskByte sampleImage 11 = 1" "diskByte sampleImage 12 = 1"
    by (simp_all add: diskByte_def sampleImage_def)
  have "wDisk (syWriter ?S') = wDisk (syWriter T)" "syNode ?S' = \<lparr>dnSize = 64, dnSeq = 1\<rparr>"
    using t(7) by simp_all
  then have "DiskNode_Read (shmReadAt (wShm (syWriter ?S'), wDisk (syWriter ?S'))) 3 10 (syNode ?S') = ([7, 8, 9], 0)"
      "DiskNode_Read (shmReadAt (wShm (syWriter ?S'), wDisk (syWriter oneWrite))) 3 10 (syNode ?S') = ([1, 1, 1], 0)"
    unfolding shm using read [of "wDisk (syWriter T)"] read [of sampleImage]
    by (simp_all only: disk new was old(2))
  then show ?thesis
    using oneWrite_reach run' ack first unfolding old [symmetric] by (intro exI conjI)
qed

end
