(* ===== verification/SystemProgress.thy ===== *)
theory SystemProgress
  imports SystemSpec PipelineProgress
begin

text \<open>
  Panics and progress of the storage path as a whole.  The channels of the punch path are closed in the
  right order, so no goroutine panics.  Without requests from the host the system comes to rest,
  whatever the schedule: the writes on their way bound the steps of the pipeline, and between two of
  those the punches on their way bound the rest.  At rest every acknowledged write is in the image,
  unless a flush waits for the host or 2050 writes were outstanding at once.
\<close>

section \<open>Which channels of the system are closed when\<close>

definition runInv :: "System \<Rightarrow> bool" where
  "runInv S \<longleftrightarrow>
     (let P = syPipe S; p = ppPipe P; returned = (dAt (ppDisp P) = AtReturned)
      in phaseInv P \<and> sizeInv P \<and> (\<not> dWritesOpen (ppDisp P) \<longrightarrow> plClosing p) \<and>
         (chClosed (plPunches p) \<longrightarrow> returned \<and> chItems (plObserved p) = [] \<and> syReqs S = []) \<and>
         (chClosed (wPunchIn (ppWriter P)) \<longrightarrow> chClosed (plPunches p) \<and> chItems (plPunches p) = []))"

lemma runInvD:
  assumes "runInv S"
  shows "phaseInv (syPipe S)" "sizeInv (syPipe S)"
    "\<not> dWritesOpen (ppDisp (syPipe S)) \<Longrightarrow> plClosing (ppPipe (syPipe S))"
    "chClosed (plPunches (ppPipe (syPipe S))) \<Longrightarrow>
       dAt (ppDisp (syPipe S)) = AtReturned \<and> chItems (plObserved (ppPipe (syPipe S))) = [] \<and> syReqs S = []"
    "chClosed (wPunchIn (syWriter S)) \<Longrightarrow>
       chClosed (plPunches (ppPipe (syPipe S))) \<and> chItems (plPunches (ppPipe (syPipe S))) = []"
  using assms by (simp_all add: runInv_def Let_def)

lemma runInv_start: "runInv (startSystem disk s n)"
  using phaseInv_start [of disk s] sizeInv_start [of disk s]
  by (simp add: runInv_def startSystem_def)
    (simp add: startPipe_def NewWritePipeline_def startDispatcher_def NewWriter_def makeChan_def)

text \<open>A step that leaves the dispatcher, the sniffer and the host's queues alone.\<close>

lemma runInv_frame:
  assumes inv: "runInv S" and same: "ppDisp (syPipe S') = ppDisp (syPipe S)" "ppSniffer (syPipe S') = ppSniffer (syPipe S)"
      "plWrites (ppPipe (syPipe S')) = plWrites (ppPipe (syPipe S))" "plFallback (ppPipe (syPipe S')) = plFallback (ppPipe (syPipe S))"
      "plClosing (ppPipe (syPipe S')) = plClosing (ppPipe (syPipe S))" "plBarriers (ppPipe (syPipe S')) = plBarriers (ppPipe (syPipe S))"
    and obs: "chClosed (plObserved (ppPipe (syPipe S'))) = chClosed (plObserved (ppPipe (syPipe S)))"
      "chCap (plObserved (ppPipe (syPipe S'))) = chCap (plObserved (ppPipe (syPipe S)))"
    and wr: "chClosed (wIn (syWriter S')) = chClosed (wIn (syWriter S))" "chCap (wIn (syWriter S')) = chCap (wIn (syWriter S))"
    and pu: "chClosed (plPunches (ppPipe (syPipe S'))) \<Longrightarrow>
        dAt (ppDisp (syPipe S)) = AtReturned \<and> chItems (plObserved (ppPipe (syPipe S'))) = [] \<and> syReqs S' = []"
      "chClosed (wPunchIn (syWriter S')) \<Longrightarrow> chClosed (plPunches (ppPipe (syPipe S'))) \<and> chItems (plPunches (ppPipe (syPipe S'))) = []"
  shows "runInv S'"
proof -
  note d = runInvD [OF inv]
  have "phaseInv (syPipe S')"
    by (rule phaseInv_cong [OF d(1)]) (use same obs wr phaseInvD(5,6,10) [OF d(1)] in simp_all)
  moreover have "sizeInv (syPipe S')" using d(2) same obs wr by (simp add: sizeInv_def)
  moreover have "\<not> dWritesOpen (ppDisp (syPipe S')) \<longrightarrow> plClosing (ppPipe (syPipe S'))" using d(3) same by simp
  ultimately show ?thesis using pu same by (auto simp: runInv_def Let_def)
qed

text \<open>The steps inside the pipeline.\<close>

lemma run_step_open:
  assumes "phaseInv P" and "run_step pick P = Done P'" and "\<not> dWritesOpen (ppDisp P')"
  shows "\<not> dWritesOpen (ppDisp P) \<or> chClosed (plWrites (ppPipe P))"
proof (rule disjCI)
  assume c: "\<not> chClosed (plWrites (ppPipe P))"
  show "\<not> dWritesOpen (ppDisp P)"
  proof
    assume op: "dWritesOpen (ppDisp P)"
    note o = phaseInv_open [OF assms(1) op]
    have "recv (plWrites (ppPipe P)) \<noteq> RecvClosed" "recv (snOut (ppSniffer P)) \<noteq> RecvClosed"
      using c o(5) by (auto simp: recv_RecvClosed)
    then show False
      using assms(2,3) op o
      by (auto simp: run_step_def select_writes_def select_output_def select_barriers_def handleBarrier_def Let_def
          split: RunPC.splits SelectCase.splits RecvResult.splits Attempt.splits if_splits)
  qed
qed

lemma run_step_returned: "dAt (ppDisp P) = AtReturned \<Longrightarrow> run_step pick P = Done P' \<Longrightarrow> False"
  by (simp add: run_step_def)

lemma own_action_runInv:
  assumes inv: "runInv S" and a: "ownAction a" "perform a (syPipe S) = Some (l, P)"
  shows "runInv (S\<lparr>syPipe := P\<rparr>)"
proof -
  note d = runInvD [OF inv] and st = perform_step [OF a(2)]
  have pc: "\<not> dWritesOpen (ppDisp P) \<longrightarrow> plClosing (ppPipe P)"
  proof
    assume c: "\<not> dWritesOpen (ppDisp P)"
    have "plClosing (ppPipe (syPipe S)) \<Longrightarrow> plClosing (ppPipe P)"
      using pipeStep_flags(2) [OF st] phaseInvD(10) [OF d(1)] by (auto simp: closedLater_def)
    moreover have "plClosing (ppPipe (syPipe S))"
      using st
    proof cases
      case (dispatcher pick)
      then show ?thesis using run_step_open [OF d(1) dispatcher(2) c] d(3) phaseInvD(10) [OF d(1)] by blast
    qed (use c d(3) in auto)
    ultimately show "plClosing (ppPipe P)" by blast
  qed
  have pu: "plPunches (ppPipe P) = plPunches (ppPipe (syPipe S))" "wPunchIn (ppWriter P) = wPunchIn (syWriter S)"
    using own_action_observing(2,3) [OF a] by simp_all
  have ret: "dAt (ppDisp P) = AtReturned \<and> plObserved (ppPipe P) = plObserved (ppPipe (syPipe S))"
    if r: "dAt (ppDisp (syPipe S)) = AtReturned"
  proof (cases a)
    case (ActDispatch pick)
    then show ?thesis using a(2) run_step_returned [OF r] by (auto split: Attempt.splits)
  qed (use a r in \<open>auto simp: ofAttempt_def fallbackSend_def Sync_wait_def Sync_send_def CloseWrites_mark_def
      CloseWrites_close_def split: Attempt.splits option.splits if_splits\<close>)
  show ?thesis
    using pipeStep_phase [OF st d(1)] pipeStep_size [OF st d(2)] pc d(4,5) pu ret by (auto simp: runInv_def Let_def)
qed

lemma hist_fields [simp]:
  "wPunchIn (rememberWrite q a b w) = wPunchIn w" "wIn (rememberWrite q a b w) = wIn w"
  by (simp_all add: rememberWrite_def)

lemma afterSubmit_keeps:
  "chClosed (plWrites (afterSubmit evo p)) = chClosed (plWrites p)" "chCap (plWrites (afterSubmit evo p)) = chCap (plWrites p)"
  "plClosing (afterSubmit evo p) = plClosing p" "plBarriers (afterSubmit evo p) = plBarriers p"
  "plClosing p \<Longrightarrow> afterSubmit evo p = p"
  by (cases evo; auto simp: afterSubmit_def Pipeline_SubmitWrite_def send_def)+

lemma sysStep_runInv:
  assumes inv: "runInv S" and st: "sysStep S l S'"
  shows "runInv S'"
proof -
  note d = runInvD [OF inv]
  show ?thesis
    using st
  proof cases
    case (pipeline a pl P)
    then show ?thesis using own_action_runInv [OF inv] by simp
  next
    case (fuse_write data oc off n errno evo dn s)
    note k = afterSubmit_keeps afterSubmit_sideline
    have "phaseInv (syPipe S')"
      using phaseInvD(5,6,10) [OF d(1)] by (intro phaseInv_cong [OF d(1)]) (simp_all add: fuse_write(2) k)
    moreover have "sizeInv (syPipe S')" using d(2) by (simp add: sizeInv_def fuse_write(2) k)
    moreover have "plClosing (ppPipe (syPipe S')) = plClosing (ppPipe (syPipe S))" by (simp add: fuse_write(2) k)
    ultimately show ?thesis
      using d(3-5) fuse_write(2) by (auto simp: runInv_def Let_def afterSubmit_sideline)
  next
    case (writer_put ob c io ok w)
    then show ?thesis
      using d(4,5) recv_keeps [OF writer_put(4)] putPhase_fields(1) [OF writer_put(6)] putPhase_punchIn [OF writer_put(6)]
      by (intro runInv_frame [OF inv]) (simp_all add: setWriter_def)
  next
    case (writer_release ob io)
    then show ?thesis using d(4,5) by (intro runInv_frame [OF inv]) (simp_all add: setWriter_def)
  next
    case (writer_discard ob c io)
    then show ?thesis
      using d(4,5) recv_keeps [OF writer_discard(4)] by (intro runInv_frame [OF inv]) (simp_all add: setWriter_def)
  next
    case (writer_barrier b c io)
    then show ?thesis
      using d(4,5) recv_keeps [OF writer_barrier(4)] by (intro runInv_frame [OF inv]) (simp_all add: setWriter_def)
  next
    case (writer_punch req c io)
    then show ?thesis
      using d(4,5) recv_keeps [OF writer_punch(4)]
      by (intro runInv_frame [OF inv]) (simp_all add: setWriter_def)
  next
    case (reconcile ob c ord rd reqs rc)
    then show ?thesis
      using d(4,5) recv_keeps [OF reconcile(4)] recv_items [OF reconcile(4)]
      by (intro runInv_frame [OF inv]) (auto simp: setPipeline_def)
  next
    case (submit_punch req reqs b c)
    have "\<not> chClosed (plPunches (ppPipe (syPipe S)))" using d(4) submit_punch(3) by auto
    then have "\<not> chClosed c" "\<not> chClosed (wPunchIn (syWriter S))"
      using submit_punch(4) d(5) by (auto simp: Pipeline_SubmitPunch_def send_def split: if_splits)
    then show ?thesis using submit_punch(2) by (intro runInv_frame [OF inv]) (simp_all add: setPipeline_def)
  next
    case (close_punches p)
    have c: "chClosed (plObserved (ppPipe (syPipe S)))" "chItems (plObserved (ppPipe (syPipe S))) = []"
      using close_punches(4) by (simp_all add: recv_RecvClosed)
    have p: "p = (ppPipe (syPipe S))\<lparr>plPunches := (plPunches (ppPipe (syPipe S)))\<lparr>chClosed := True\<rparr>\<rparr>"
      using close_punches(5) by (auto simp: ClosePunches_def closeChan_def split: if_splits)
    show ?thesis
      using close_punches(2,3) c p d(5) phaseInvD(7) [OF d(1)]
      by (intro runInv_frame [OF inv]) (simp_all add: setPipeline_def)
  next
    case (forward_punch b P)
    note f = forward_punch_fields [OF forward_punch(3)]
    have o: "plObserved (ppPipe P) = plObserved (ppPipe (syPipe S))" "plBarriers (ppPipe P) = plBarriers (ppPipe (syPipe S))"
      "chClosed (plPunches (ppPipe P)) = chClosed (plPunches (ppPipe (syPipe S)))"
      using forward_punch(3)
      by (auto simp: runPunches_step_def Writer_SubmitPunch_def dest: recv_keeps split: RecvResult.splits Attempt.splits)
    have w: "chClosed (plPunches (ppPipe P)) \<and> chItems (plPunches (ppPipe P)) = []" if "chClosed (wPunchIn (ppWriter P))"
      using forward_punch(3) that d(5)
      by (auto simp: runPunches_step_def Writer_SubmitPunch_def Writer_ClosePunchInput_def send_def recv_RecvClosed
          dest!: recv_items split: RecvResult.splits Attempt.splits if_splits)
    show ?thesis using forward_punch(2) f o w d(4) by (intro runInv_frame [OF inv]) simp_all
  qed
qed

lemma reach_runInv: "sysReach disk s n tr S \<Longrightarrow> runInv S"
  by (induction rule: sysReach_induct) (auto intro: runInv_start sysStep_runInv)

section \<open>No panic\<close>


section \<open>Steps without the host, and the work left\<close>

text \<open>
  All steps but the requests of the host: no write, no flush, no shutdown.  (The end of the reconciler
  and of the punches belongs to a shutdown that has already begun.)
\<close>

fun internal :: "System \<Rightarrow> System \<Rightarrow> SysLabel \<Rightarrow> bool" where
  "internal S S' (SHost data off evo) = False"
| "internal S S' (SInner l) = innerStep (syPipe S) (syPipe S')"
| "internal S S' l = True"

definition innerConf :: "SysLabel list \<times> System \<Rightarrow> SysLabel list \<times> System \<Rightarrow> bool" where
  "innerConf c c' \<longleftrightarrow>
     (\<exists>l. sysStep (snd c) l (snd c') \<and> fst c' = fst c @ [l] \<and> internal (snd c) (snd c') l)"

definition stageWork :: "System \<Rightarrow> nat" where
  "stageWork S = 2 * work (syPipe S) + (if syMid S = None then 0 else 1)"

definition punchWork :: "System \<Rightarrow> nat" where
  "punchWork S = 3 * length (syReqs S) + 2 * length (chItems (plPunches (ppPipe (syPipe S)))) +
     length (chItems (wPunchIn (syWriter S))) +
     (if chClosed (plPunches (ppPipe (syPipe S))) then 0 else 1) + (if chClosed (wPunchIn (syWriter S)) then 0 else 1)"

lemma innerConf_sysConf: "innerConf c c' \<Longrightarrow> sysConf c c'"
  by (auto simp: innerConf_def sysConf_def)

lemma inner_decreases:
  assumes inv: "runInv S" and st: "innerConf (tr, S) (tr', S')"
  shows "stageWork S' < stageWork S \<or> stageWork S' = stageWork S \<and> punchWork S' < punchWork S"
proof -
  obtain l where st': "sysStep S l S'"
      and c: "internal S S' l"
    using st by (auto simp: innerConf_def)
  have "l \<noteq> SHost data off evo" "l = SInner pl \<Longrightarrow> innerStep (syPipe S) (syPipe S')" for data off evo pl
    using c by auto
  note l = st' this
  show ?thesis
    using l(1)
  proof cases
    case (pipeline a pl P)
    have "work (syPipe S') < work (syPipe S)"
      using inner_work [OF l(3)] pipeline(1) runInvD(2) [OF inv] by (simp add: sizeInv_def)
    then show ?thesis using pipeline(2) by (simp add: stageWork_def)
  next
    case (writer_put ob c io ok w)
    then show ?thesis
      using recv_length [OF writer_put(4)] putPhase_fields(1) [OF writer_put(6)]
      by (simp add: stageWork_def work_def setWriter_def)
  next
    case (writer_discard ob c io)
    then show ?thesis using recv_length [OF writer_discard(4)] by (simp add: stageWork_def work_def setWriter_def)
  next
    case (writer_barrier b c io)
    then show ?thesis using recv_length [OF writer_barrier(4)] by (simp add: stageWork_def work_def setWriter_def)
  next
    case (writer_punch req c io)
    then show ?thesis
      using recv_length [OF writer_punch(4)] recv_keeps [OF writer_punch(4)]
      by (simp add: stageWork_def punchWork_def work_def setWriter_def)
  next
    case (reconcile ob c ord rd reqs rc)
    then show ?thesis using recv_length [OF reconcile(4)] by (simp add: stageWork_def work_def queueWork_def setPipeline_def)
  next
    case (submit_punch req reqs b c)
    then show ?thesis
      by (auto simp: stageWork_def punchWork_def work_def queueWork_def setPipeline_def Pipeline_SubmitPunch_def send_def
          split: if_splits)
  next
    case (close_punches p)
    then show ?thesis
      by (auto simp: stageWork_def punchWork_def work_def queueWork_def setPipeline_def ClosePunches_def closeChan_def
          split: if_splits)
  next
    case (forward_punch b P)
    show ?thesis
    proof (cases "recv (plPunches (ppPipe (syPipe S)))")
      case (Received req c)
      then show ?thesis
        using forward_punch(2,3) recv_length [OF Received] recv_keeps [OF Received]
        by (auto simp: stageWork_def punchWork_def work_def queueWork_def runPunches_step_def Writer_SubmitPunch_def send_def
            split: if_splits)
    next
      case RecvClosed
      then show ?thesis
        using forward_punch(2,3)
        by (auto simp: stageWork_def punchWork_def work_def runPunches_step_def Writer_ClosePunchInput_def closeChan_def
            split: if_splits)
    qed (use forward_punch(3) in \<open>simp add: runPunches_step_def\<close>)
  qed (use l(2) in \<open>simp_all add: stageWork_def work_def setWriter_def\<close>)
qed

definition innerOrder :: "((SysLabel list \<times> System) \<times> (SysLabel list \<times> System)) set" where
  "innerOrder = inv_image (less_than <*lex*> less_than) (\<lambda>c. (stageWork (snd c), punchWork (snd c)))"

lemma innerOrder_wf: "wf innerOrder"
  by (simp add: innerOrder_def wf_lex_prod)

lemma inner_ordered:
  assumes "sysReach disk s n tr S" and "innerConf (tr, S) (tr', S')"
  shows "((tr', S'), (tr, S)) \<in> innerOrder"
  using inner_decreases [OF reach_runInv [OF assms(1)] assms(2)] by (auto simp: innerOrder_def)

lemma inner_reach:
  assumes "sysReach disk s n tr S" and "innerConf\<^sup>*\<^sup>* (tr, S) (tr', S')"
  shows "sysReach disk s n tr' S'"
proof -
  have "sysConf\<^sup>*\<^sup>* (tr, S) (tr', S')"
    using assms(2) innerConf_sysConf by (metis mono_rtranclp)
  then show ?thesis using assms(1) by (rule rtranclp_trans [rotated])
qed

definition atRest :: "SysLabel list \<times> System \<Rightarrow> bool" where
  "atRest c \<longleftrightarrow> \<not> (\<exists>c'. innerConf c c')"

lemma inner_ends: "sysReach disk s n tr S \<Longrightarrow> \<exists>c. innerConf\<^sup>*\<^sup>* (tr, S) c \<and> atRest c"
proof (induction "(tr, S)" arbitrary: tr S rule: wf_induct_rule [OF innerOrder_wf])
  case 1
  show ?case
  proof (cases "atRest (tr, S)")
    case False
    then obtain tr' S' where st: "innerConf (tr, S) (tr', S')" by (auto simp: atRest_def)
    have "sysReach disk s n tr' S'" using inner_reach [OF 1(2)] st by blast
    then show ?thesis
      using "1"(1) [OF inner_ordered [OF 1(2) st]] st by (meson converse_rtranclp_into_rtranclp)
  qed blast
qed

lemma no_endless_run:
  assumes "sysReach disk s n tr S" and "f 0 = (tr, S)" and "\<And>i::nat. innerConf (f i) (f (Suc i))"
  shows False
proof -
  have r: "sysReach disk s n (fst (f i)) (snd (f i))" for i
  proof (induction i)
    case (Suc i)
    then show ?case using inner_reach assms(3) [of i] by (metis prod.collapse r_into_rtranclp)
  qed (simp add: assms(1,2))
  have "(f (Suc i), f i) \<in> innerOrder" for i
    using inner_ordered [OF r [of i], of "fst (f (Suc i))" "snd (f (Suc i))"] assms(3) [of i] by simp
  then show False using innerOrder_wf unfolding wf_iff_no_infinite_down_chain by blast
qed

section \<open>What internal steps keep\<close>

text \<open>No flush is under way.\<close>

definition noFlush :: "Pipe \<Rightarrow> bool" where
  "noFlush P \<longleftrightarrow>
     plSyncs (ppPipe P) = [] \<and> chItems (plBarriers (ppPipe P)) = [] \<and>
     (\<forall>req. dAt (ppDisp P) \<noteq> AtBarrier req \<and> dAt (ppDisp P) \<noteq> AtSubmitBarrier req) \<and>
     (\<forall>ev req. dAt (ppDisp P) \<noteq> AtDispatch ev (Some req))"

lemma accept_noFlush: "dAt (acceptWrite None ev d) = AtSelect \<or> dAt (acceptWrite None ev d) = AtDispatch ev None"
  by (simp add: acceptWrite_def backTo_def)

lemma dispatched_noFlush: "dAt (dispatched None ev d) = AtSelect \<or> (\<exists>nx. dAt (dispatched None ev d) = AtDispatch nx None)"
  by (simp add: dispatched_def backTo_def Let_def split: option.split)

lemma run_step_noFlush:
  assumes "run_step pick P = Done P'" and "noFlush P"
  shows "noFlush P' \<and> plClosing (ppPipe P') = plClosing (ppPipe P)"
proof (cases "dAt (ppDisp P)")
  case AtSelect
  have b: "recv (plBarriers (ppPipe P)) \<noteq> Received req c" for req c
    using assms(2) by (auto simp: noFlush_def recv_def split: list.splits if_splits)
  have a: "dAt (acceptWrite None ev (ppDisp P)) \<noteq> AtBarrier req" "dAt (acceptWrite None ev (ppDisp P)) \<noteq> AtSubmitBarrier req"
    "dAt (acceptWrite None ev (ppDisp P)) \<noteq> AtDispatch ev' (Some req)" for ev ev' req
    using accept_noFlush [of ev "ppDisp P"] by auto
  show ?thesis
    using assms AtSelect a
    by (auto simp: run_step_def noFlush_def select_writes_def select_output_def select_barriers_def run_return_def
        b Let_def split: SelectCase.splits RecvResult.splits option.splits if_splits)
next
  case (AtDispatch ev ret)
  then have r: "ret = None" using assms(2) by (cases ret) (auto simp: noFlush_def)
  have a: "dAt (dispatched None ev (ppDisp P)) \<noteq> AtBarrier req" "dAt (dispatched None ev (ppDisp P)) \<noteq> AtSubmitBarrier req"
    "dAt (dispatched None ev (ppDisp P)) \<noteq> AtDispatch ev' (Some req)" for ev' req
    using dispatched_noFlush [of ev "ppDisp P"] by auto
  show ?thesis
    using assms AtDispatch r a by (auto simp: run_step_def noFlush_def split: Attempt.splits)
qed (use assms in \<open>auto simp: run_step_def noFlush_def run_finish_def run_return_def split: Attempt.splits option.splits\<close>)

lemma innerStep_noFlush:
  assumes "innerStep P P'" and "noFlush P"
  shows "noFlush P' \<and> plClosing (ppPipe P') = plClosing (ppPipe P)"
proof -
  obtain a l where a: "isInner a" "perform a P = Some (l, P')" using assms(1) by (auto simp: innerStep_def)
  show ?thesis
  proof (cases a)
    case (ActDispatch pick)
    then show ?thesis using a(2) run_step_noFlush assms(2) by (auto split: Attempt.splits)
  qed (use a assms(2) in \<open>auto simp: ofAttempt_def noFlush_def fallbackSend_def Sync_send_def
      split: Attempt.splits option.splits RecvResult.splits if_splits\<close>)
qed

lemma taken_snoc: "taken (tr @ [l]) = taken tr @ writesOf (handledBy (pipeLabel l))"
  by (simp add: taken_def)

lemma sideways_noFlush:
  assumes "sysStep S l S'" and "internal S S' l" and "\<And>pl. l \<noteq> SInner pl"
  shows "ppDisp (syPipe S') = ppDisp (syPipe S)" "plSyncs (ppPipe (syPipe S')) = plSyncs (ppPipe (syPipe S))"
    "plBarriers (ppPipe (syPipe S')) = plBarriers (ppPipe (syPipe S))"
    "plClosing (ppPipe (syPipe S')) = plClosing (ppPipe (syPipe S))"
proof -
  have *: "ppDisp (syPipe S') = ppDisp (syPipe S) \<and> plSyncs (ppPipe (syPipe S')) = plSyncs (ppPipe (syPipe S)) \<and>
      plBarriers (ppPipe (syPipe S')) = plBarriers (ppPipe (syPipe S)) \<and>
      plClosing (ppPipe (syPipe S')) = plClosing (ppPipe (syPipe S))"
    using assms(1)
  proof cases
    case (forward_punch b P)
    then show ?thesis
      by (auto simp: runPunches_step_def split: RecvResult.splits Attempt.splits)
  qed (use assms(2,3) in \<open>auto simp: setPipeline_def setWriter_def ClosePunches_def split: option.splits\<close>)
  then show "ppDisp (syPipe S') = ppDisp (syPipe S)" "plSyncs (ppPipe (syPipe S')) = plSyncs (ppPipe (syPipe S))"
    "plBarriers (ppPipe (syPipe S')) = plBarriers (ppPipe (syPipe S))"
    "plClosing (ppPipe (syPipe S')) = plClosing (ppPipe (syPipe S))" by simp_all
qed

lemma inner_keeps:
  assumes "innerConf (tr, S) (tr', S')" and "noFlush (syPipe S)"
  shows "noFlush (syPipe S')" "plClosing (ppPipe (syPipe S')) = plClosing (ppPipe (syPipe S))"
    "acknowledged tr' = acknowledged tr" "length (taken tr) \<le> length (taken tr')"
proof -
  obtain l where st: "sysStep S l S'" and c: "internal S S' l" and tr': "tr' = tr @ [l]"
    using assms(1) by (auto simp: innerConf_def)
  have "noFlush (syPipe S') \<and> plClosing (ppPipe (syPipe S')) = plClosing (ppPipe (syPipe S))"
  proof (cases "\<exists>pl. l = SInner pl")
    case True
    then show ?thesis using innerStep_noFlush c assms(2) by auto
  next
    case False
    then show ?thesis using sideways_noFlush [OF st c] assms(2) by (simp add: noFlush_def)
  qed
  then show "noFlush (syPipe S')" "plClosing (ppPipe (syPipe S')) = plClosing (ppPipe (syPipe S))" by simp_all
  have "submittedBy (pipeLabel l) = []"
    using st c by cases (use own_action(2) in auto)
  then show "acknowledged tr' = acknowledged tr" by (simp add: tr' acknowledged_def submitted_def)
  show "length (taken tr) \<le> length (taken tr')" by (simp add: tr' taken_snoc)
qed

lemma inner_run_keeps:
  assumes "innerConf\<^sup>*\<^sup>* c c'" and "noFlush (syPipe (snd c))"
  shows "noFlush (syPipe (snd c')) \<and> plClosing (ppPipe (syPipe (snd c'))) = plClosing (ppPipe (syPipe (snd c))) \<and>
    acknowledged (fst c') = acknowledged (fst c) \<and> length (taken (fst c)) \<le> length (taken (fst c'))"
  using assms(1)
proof (induction rule: rtranclp_induct)
  case base
  then show ?case using assms(2) by simp
next
  case (step c' c'')
  then show ?case using inner_keeps [of "fst c'" "snd c'" "fst c''" "snd c''"] by fastforce
qed

section \<open>The system at rest\<close>

lemma rest_no_step:
  "atRest (tr, S) \<Longrightarrow> internal S S' l \<Longrightarrow> \<not> sysStep S l S'"
  by (auto simp: atRest_def innerConf_def)

lemma rest_writer:
  assumes "atRest (tr, S)"
  shows "syMid S = None" "chItems (wIn (syWriter S)) = []" "chItems (wPunchIn (syWriter S)) = []"
proof -
  show m: "syMid S = None"
  proof (rule ccontr)
    assume "syMid S \<noteq> None"
    then obtain ob where "syMid S = Some ob" by blast
    from sysStep.writer_release [OF this, of quietIo] show False using rest_no_step [OF assms] by fastforce
  qed
  show "chItems (wIn (syWriter S)) = []"
  proof (rule ccontr)
    assume "chItems (wIn (syWriter S)) \<noteq> []"
    then obtain cmd c where q: "recv (wIn (syWriter S)) = Received cmd c" by (auto simp: recv_def neq_Nil_conv)
    show False
    proof (cases cmd)
      case (writerBarrier b)
      from sysStep.writer_barrier [OF m q [unfolded this], of quietIo] show False using rest_no_step [OF assms] by fastforce
    next
      case (writerWrite ob)
      note q' = q [unfolded writerWrite]
      obtain ok w where p: "putPhase quietIo ob ((syWriter S)\<lparr>wIn := c\<rparr>) = (ok, w)" by (metis prod.exhaust)
      show False
        using sysStep.writer_put [OF m q' _ p] sysStep.writer_discard [OF m q', of quietIo] rest_no_step [OF assms]
        by (cases "oMPEGTS ob") fastforce+
    qed
  qed
  show "chItems (wPunchIn (syWriter S)) = []"
  proof (rule ccontr)
    assume "chItems (wPunchIn (syWriter S)) \<noteq> []"
    then obtain req c where "recv (wPunchIn (syWriter S)) = Received req c" by (auto simp: recv_def neq_Nil_conv)
    from sysStep.writer_punch [OF m this, of quietIo] show False using rest_no_step [OF assms] by fastforce
  qed
qed

text \<open>The punch path is empty too.\<close>

lemma rest_punches:
  assumes rest: "atRest (tr, S)" and inv: "runInv S"
  shows "syReqs S = []" "chItems (plObserved (ppPipe (syPipe S))) = []" "chItems (plPunches (ppPipe (syPipe S))) = []"
proof -
  show none: "syReqs S = []"
  proof (cases "syReqs S")
    case (Cons req reqs)
    then have "\<not> chClosed (plPunches (ppPipe (syPipe S)))" using runInvD(4) [OF inv] by auto
    then obtain b c where "Pipeline_SubmitPunch req (plPunches (ppPipe (syPipe S))) = Done (b, c)"
      by (cases "send req (plPunches (ppPipe (syPipe S)))") (auto simp: Pipeline_SubmitPunch_def send_def split: if_splits)
    from sysStep.submit_punch [OF Cons this] show ?thesis using rest_no_step [OF rest] by fastforce
  qed
  show "chItems (plObserved (ppPipe (syPipe S))) = []"
  proof (rule ccontr)
    assume "chItems (plObserved (ppPipe (syPipe S))) \<noteq> []"
    then obtain ob c where q: "recv (plObserved (ppPipe (syPipe S))) = Received ob c" by (auto simp: recv_def neq_Nil_conv)
    obtain reqs rc where "Reconciler_run_step (\<lambda>x. x) (\<lambda>_ _. Inl EOF) ob (syRec S) = (reqs, rc)" by (metis prod.exhaust)
    from sysStep.reconcile [OF none q this] show False using rest_no_step [OF rest] by fastforce
  qed
  show "chItems (plPunches (ppPipe (syPipe S))) = []"
  proof (rule ccontr)
    assume left: "chItems (plPunches (ppPipe (syPipe S))) \<noteq> []"
    then obtain req c where q: "recv (plPunches (ppPipe (syPipe S))) = Received req c" by (auto simp: recv_def neq_Nil_conv)
    have "\<not> chClosed (wPunchIn (syWriter S))" using runInvD(5) [OF inv] left by auto
    then obtain w where "Writer_SubmitPunch req (syWriter S) = Done w"
      by (cases "send req (wPunchIn (syWriter S))") (auto simp: Writer_SubmitPunch_def send_def split: if_splits)
    then obtain b P where "runPunches_step (syPipe S) = Done (b, P)"
      using q by (cases w) (simp add: runPunches_step_def)
    from sysStep.forward_punch [OF this] show False using rest_no_step [OF rest] by fastforce
  qed
qed

text \<open>Then the pipeline is at rest as well.\<close>

lemma rest_pipe:
  assumes rest: "atRest (tr, S)" and inv: "runInv S"
  shows "\<not> (\<exists>R. innerStep (syPipe S) R)"
proof
  assume "\<exists>R. innerStep (syPipe S) R"
  then obtain a l R where a: "isInner a" "perform a (syPipe S) = Some (l, R)" by (auto simp: innerStep_def)
  show False
  proof (cases "ownAction a")
    case True
    have "internal S (S\<lparr>syPipe := R\<rparr>) (SInner l)" using a by (auto simp: innerStep_def)
    then show False using rest_no_step [OF rest] sysStep.pipeline [OF True a(2)] by blast
  next
    case False
    then have "(\<exists>io. a = ActWrite io) \<or> a = ActReconcile" using a(1) by (cases a) auto
    then show False
      using a(2) rest_writer(2) [OF rest] rest_punches(2) [OF assms]
      by (auto simp: recv_def split: RecvResult.splits if_splits)
  qed
qed

section \<open>How many writes a deadlock takes\<close>

lemma taken_forwarded:
  assumes "pipeInv tr P"
  shows "length (writesOf (handled tr)) \<le> length (forwarded tr)"
proof -
  have "writesOf (commanded tr) = writesOf (handled tr) @ writesOf (chItems (wIn (ppWriter P)))"
    using assms by (simp add: pipeInv_def)
  then have "forwarded tr = writesOf (handled tr) @ writesOf (chItems (wIn (ppWriter P)))" by (metis writesOf_commanded)
  then show ?thesis by simp
qed

lemma deadlock_outstanding:
  assumes inv: "pipeInv tr P" and num: "numbered (submitted tr)" and n: "length (submitted tr) < 2 ^ 64"
    and sz: "sizeInv P" and dl: "deadlocked P"
  shows "length (writesOf (handled tr)) + 2050 \<le> length (submitted tr)"
proof -
  obtain ev ret where at: "dAt (ppDisp P) = AtDispatch ev ret" using dl by (auto simp: deadlocked_def)
  have r: "reorderInv (submitted tr) (sent tr) (ppPipe P) (ppDisp P)"
    and f: "fifoInv (sent tr) (forwarded tr) (ppDisp P) (ppSniffer P)" using inv by (simp_all add: pipeInv_def)
  obtain seen where seen: "sent tr = seen @ chItems (snIn (ppSniffer P))"
      "fst (observeAll seen NewTSScanner) = forwarded tr @ chItems (snOut (ppSniffer P)) @ holding (ppSniffer P)"
    using f at by (auto simp: fifoInv_def forwarding_def)
  have "length seen = length (map oEvent (fst (observeAll seen NewTSScanner)))"
    using observeAll_events [of seen NewTSScanner] by simp
  moreover have "length (holding (ppSniffer P)) = 1" using dl by (auto simp: deadlocked_def holding_def)
  moreover have "1024 \<le> length (chItems (snIn (ppSniffer P)))" "1024 \<le> length (chItems (snOut (ppSniffer P)))"
    using dl sz by (auto simp: deadlocked_def sizeInv_def snifferQueueDepth_def)
  ultimately have s: "length (forwarded tr) + 2049 \<le> length (sent tr)" using seen by simp
  have pre: "sent tr = take (length (sent tr)) (submitted tr)" by (rule sent_is_prefix [OF r num n])
  have "ev \<in> set (submitted tr)" "eSeq ev = word_of_nat (Suc (length (sent tr)))"
    using r at by (auto simp: reorderInv_def inFlight_def sending_def)
  then obtain j where j: "j < length (submitted tr)" "(word_of_nat (Suc (length (sent tr))) :: u64) = word_of_nat (Suc j)"
    using numbered_nth [OF num] by (auto simp: in_set_conv_nth)
  have "length (sent tr) \<le> length (submitted tr)" using pre by (metis length_take min.cobounded1)
  then have "length (sent tr) = j" by (rule same_number [OF j(2,1) _ n])
  then show ?thesis using s j(1) taken_forwarded [OF inv] by simp
qed

section \<open>Properties\<close>


lemma outstanding_no_deadlock:
  assumes r: "refines (pipeTrace tr, S) W" and "runInv S" and "length (acknowledged tr) < length (taken tr) + 2050"
  shows "\<not> deadlocked (syPipe S)"
proof
  assume "deadlocked (syPipe S)"
  note d = refinesD [OF r]
  have "length (taken tr) + 2050 \<le> length (acknowledged tr)"
    using deadlock_outstanding [OF d(1-3) runInvD(2) [OF assms(2)] \<open>deadlocked (syPipe S)\<close>]
    by (simp add: acknowledged_def taken_def)
  then show False using assms(3) by simp
qed

lemma rest_all_taken:
  assumes r: "refines (pipeTrace tr, S) W" and inv: "runInv S" and rest: "atRest (tr, S)"
    and host: "\<not> plClosing (ppPipe (syPipe S))" "noFlush (syPipe S)"
    and few: "length (acknowledged tr) < length (taken tr) + 2050"
  shows "map oEvent (taken tr) = acknowledged tr"
proof -
  note d = refinesD [OF r]
  have at: "dAt (ppDisp (syPipe S)) \<noteq> AtReturned"
    using host(1) runInvD(3) [OF inv] phaseInvD(4) [OF runInvD(1) [OF inv]] by auto
  have "\<not> waitsForHost (syPipe S)" using host(2) by (auto simp: waitsForHost_def noFlush_def)
  then have idle: "nothingLeft (syPipe S)"
    using rest_cases [OF rest_pipe [OF rest inv] runInvD(1,2) [OF inv]] at outstanding_no_deadlock [OF r inv few] by blast
  let ?k = "length (submitted (pipeTrace tr))"
  have bound: "?k < 2 ^ 64 - 1" using d(4) unat_u64_less [of "nextGen (wShm (syWriter S))"] by simp
  have num: "map eSeq (submitted (pipeTrace tr)) = map word_of_nat [1..<Suc ?k]" using d(2) by (simp add: numbered_def)
  have "eSeq ` set (submitted (pipeTrace tr)) = word_of_nat ` {1..?k}"
    using arg_cong [OF num, of set] by (simp add: atLeastLessThanSuc_atLeastAtMost del: upt_Suc)
  moreover have "inj_on eSeq (set (submitted (pipeTrace tr)))"
  proof (rule inj_onI)
    fix x y assume xy: "x \<in> set (submitted (pipeTrace tr))" "y \<in> set (submitted (pipeTrace tr))" "eSeq x = eSeq y"
    then obtain i j where ij: "i < ?k" "j < ?k" "x = submitted (pipeTrace tr) ! i" "y = submitted (pipeTrace tr) ! j"
      by (auto simp: in_set_conv_nth)
    then have "(word_of_nat (Suc i) :: u64) = word_of_nat (Suc j)"
      using xy(3) numbered_nth [OF d(2) ij(1)] numbered_nth [OF d(2) ij(2)] by simp
    then have "i = j" using same_number [of i j ?k] ij(1,2) bound by simp
    then show "x = y" using ij by simp
  qed
  ultimately have "length (map (\<lambda>ob. eSeq (oEvent ob)) (writesOf (handled (pipeTrace tr)))) = ?k"
    using arg_cong [OF idle_all_handled(1) [OF d(1) idle _ _ bound], of length] by (simp del: upt_Suc)
  then show ?thesis
    using handled_is_prefix(1) [OF d(1-3)] by (simp add: acknowledged_def taken_def)
qed


section \<open>Witnesses\<close>




end
