(* ===== verification/SystemShutdown.thy ===== *)
theory SystemShutdown
  imports SystemProgress
begin

text \<open>
  A shutdown of an idle program completes: when every acknowledged write has been handled and no flush
  is under way, then after \<open>CloseWrites\<close> every goroutine that \<open>shutdown\<close> (main.go) waits for returns, the
  queues are closed in order, and the image stays what it was.  (\<open>PipelineRuns\<close> has runs in which a
  shutdown of a busy program drops a write or never ends.)
\<close>

section \<open>What shutdown waits for\<close>

text \<open>
  Each worker has a wait group of its one goroutine (the pipeline of two), which \<open>Wait\<close> waits for.  The
  sniffer marks its return; the reconciler returns when the observations end and its last punch is
  submitted; the dispatcher marks its return and \<open>runPunches\<close> closes the writer's punch input as it
  returns; the writer returns when both inputs are closed and empty and its last command is done.
\<close>

definition waitFor :: "bool \<Rightarrow> unit Attempt" where
  "waitFor returned = (if returned then Done () else Blocks)"

definition Sniffer_Wait :: "Sniffer \<Rightarrow> unit Attempt" where
  "Sniffer_Wait s = waitFor (snDone s)"

definition Reconciler_Wait :: "System \<Rightarrow> unit Attempt" where
  "Reconciler_Wait S = waitFor (recv (plObserved (ppPipe (syPipe S))) = RecvClosed \<and> syReqs S = [])"

definition Pipeline_Wait :: "Pipe \<Rightarrow> unit Attempt" where
  "Pipeline_Wait P = waitFor (dAt (ppDisp P) = AtReturned \<and> chClosed (wPunchIn (ppWriter P)))"

definition Writer_Wait :: "System \<Rightarrow> unit Attempt" where
  "Writer_Wait S =
     waitFor (recv (wIn (syWriter S)) = RecvClosed \<and> recv (wPunchIn (syWriter S)) = RecvClosed \<and> syMid S = None)"

lemmas wait_defs = waitFor_def Sniffer_Wait_def Reconciler_Wait_def Pipeline_Wait_def Writer_Wait_def

section \<open>An idle pipeline\<close>

lemma inner_closed:
  assumes "innerConf (tr, S) (tr', S')" and "chClosed (plWrites (ppPipe (syPipe S)))"
  shows "chClosed (plWrites (ppPipe (syPipe S')))"
proof -
  obtain l where st: "sysStep S l S'" and c: "internal S S' l" using assms(1) by (auto simp: innerConf_def)
  show ?thesis
    using st
  proof cases
    case (pipeline a pl P)
    show ?thesis
    proof (cases a)
      case (ActDispatch pick)
      then show ?thesis using pipeline assms(2) run_step_flags by (auto split: Attempt.splits)
    qed (use pipeline assms(2) in \<open>auto simp: ofAttempt_def fallbackSend_def Sync_wait_def Sync_send_def send_Done
        CloseWrites_mark_def CloseWrites_close_def closeChan_def split: Attempt.splits option.splits if_splits\<close>)
  next
    case (forward_punch b P)
    then show ?thesis using forward_punch_fields(1) [OF forward_punch(3)] assms(2) by simp
  next
    case (close_punches p)
    then show ?thesis using ClosePunches_queue assms(2) by (fastforce simp: setPipeline_def)
  qed (use assms(2) c in \<open>simp_all add: setPipeline_def setWriter_def\<close>)
qed

lemma inner_run_closed:
  assumes "innerConf\<^sup>*\<^sup>* c c'" and "chClosed (plWrites (ppPipe (syPipe (snd c))))"
  shows "chClosed (plWrites (ppPipe (syPipe (snd c'))))"
  using assms(1)
proof (induction rule: rtranclp_induct)
  case base
  then show ?case using assms(2) by simp
next
  case (step c' c'')
  then show ?case using inner_closed [of "fst c'" "snd c'" "fst c''" "snd c''"] by simp
qed

text \<open>When every submitted write has been handled, nothing is left between the dispatcher and the writer.\<close>

lemma all_handled_idle:
  assumes inv: "pipeInv tr P" and num: "numbered (submitted tr)" and n: "length (submitted tr) < 2 ^ 64"
    and all: "length (submitted tr) \<le> length (writesOf (handled tr))"
  shows "chItems (snIn (ppSniffer P)) = []" "snHeld (ppSniffer P) = None" "chItems (snOut (ppSniffer P)) = []"
proof -
  have r: "reorderInv (submitted tr) (sent tr) (ppPipe P) (ppDisp P)"
    and f: "fifoInv (sent tr) (forwarded tr) (ppDisp P) (ppSniffer P)" using inv by (simp_all add: pipeInv_def)
  obtain seen where seen: "sent tr = seen @ chItems (snIn (ppSniffer P))"
      "fst (observeAll seen NewTSScanner) =
        forwarded tr @ forwarding (ppDisp P) @ chItems (snOut (ppSniffer P)) @ holding (ppSniffer P)"
    using f by (auto simp: fifoInv_def)
  have "length seen = length (map oEvent (fst (observeAll seen NewTSScanner)))"
    using observeAll_events [of seen NewTSScanner] by simp
  moreover have "length (sent tr) \<le> length (submitted tr)"
    using sent_is_prefix [OF r num n] by (metis length_take min.cobounded1)
  ultimately have "length (forwarded tr) + length (chItems (snOut (ppSniffer P))) + length (holding (ppSniffer P)) +
      length (chItems (snIn (ppSniffer P))) \<le> length (submitted tr)"
    using seen by simp
  then have "length (chItems (snIn (ppSniffer P))) = 0" "length (chItems (snOut (ppSniffer P))) = 0"
      "length (holding (ppSniffer P)) = 0"
    using all taken_forwarded [OF inv] by linarith+
  then show "chItems (snIn (ppSniffer P)) = []" "snHeld (ppSniffer P) = None" "chItems (snOut (ppSniffer P)) = []"
    by (simp_all add: holding_def split: option.splits)
qed

text \<open>At rest with the host's queue closed, the dispatcher has returned and the sniffer too.\<close>

lemma closed_rest_returned:
  assumes r: "refines (pipeTrace tr, S) W" and inv: "runInv S" and rest: "atRest (tr, S)"
    and closed: "chClosed (plWrites (ppPipe (syPipe S)))" and all: "length (acknowledged tr) \<le> length (taken tr)"
  shows "dAt (ppDisp (syPipe S)) = AtReturned"
proof (rule ccontr)
  assume at: "dAt (ppDisp (syPipe S)) \<noteq> AtReturned"
  note rp = rest_pipe [OF rest inv] and i = runInvD(1,2) [OF inv]
  have "\<not> deadlocked (syPipe S)" using outstanding_no_deadlock [OF r inv] all by simp
  moreover have "\<not> waitsForHost (syPipe S)" using closed by (simp add: waitsForHost_def)
  ultimately have idle: "nothingLeft (syPipe S)" using rest_cases [OF rp i] at by blast
  then have "recv (plWrites (ppPipe (syPipe S))) = RecvClosed" using closed by (simp add: nothingLeft_def recv_RecvClosed)
  then have "run_step PickWrites (syPipe S) \<noteq> Blocks"
    using idle by (simp add: run_step_def nothingLeft_def select_writes_def Let_def split: option.split)
  then show False using dispatcher_rest [OF rp i(1)] by blast
qed

lemma closed_rest_sniffer:
  assumes r: "refines (pipeTrace tr, S) W" and inv: "runInv S" and rest: "atRest (tr, S)"
    and at: "dAt (ppDisp (syPipe S)) = AtReturned" and all: "length (acknowledged tr) \<le> length (taken tr)"
  shows "snDone (ppSniffer (syPipe S))"
proof (rule ccontr)
  assume open': "\<not> snDone (ppSniffer (syPipe S))"
  note d = refinesD [OF r] and i = runInvD(1) [OF inv]
  have e: "chItems (snIn (ppSniffer (syPipe S))) = []" "snHeld (ppSniffer (syPipe S)) = None"
    using all_handled_idle [OF d(1-3)] all by (simp_all add: acknowledged_def taken_def)
  have "chClosed (snIn (ppSniffer (syPipe S)))" "\<not> chClosed (snOut (ppSniffer (syPipe S)))"
    using phaseInvD(1,5) [OF i] at open' by simp_all
  then have "\<exists>s. Sniffer_run_step (ppSniffer (syPipe S)) = Some s"
    using e open' by (simp add: Sniffer_run_step_def recv_def closeChan_def)
  then obtain s where "Sniffer_run_step (ppSniffer (syPipe S)) = Some s" by blast
  then have "innerStep (syPipe S) ((syPipe S)\<lparr>ppSniffer := s\<rparr>)"
    unfolding innerStep_def by (intro exI [of _ ActSniff]) simp
  then show False using rest_pipe [OF rest inv] by blast
qed

text \<open>And then the punch path has been closed behind the reconciler.\<close>

lemma closed_rest_punches:
  assumes inv: "runInv S" and rest: "atRest (tr, S)" and at: "dAt (ppDisp (syPipe S)) = AtReturned"
  shows "chClosed (plPunches (ppPipe (syPipe S)))" "chClosed (wPunchIn (syWriter S))"
proof -
  note e = rest_punches [OF rest inv]
  have q: "recv (plObserved (ppPipe (syPipe S))) = RecvClosed"
    using e(2) phaseInvD(7) [OF runInvD(1) [OF inv]] at by (simp add: recv_RecvClosed)
  show c: "chClosed (plPunches (ppPipe (syPipe S)))"
  proof (rule ccontr)
    assume "\<not> chClosed (plPunches (ppPipe (syPipe S)))"
    then obtain p where "ClosePunches (ppPipe (syPipe S)) = Done p" by (auto simp: ClosePunches_def closeChan_def)
    from sysStep.close_punches [OF e(1) q this] show False using rest_no_step [OF rest] by fastforce
  qed
  show "chClosed (wPunchIn (syWriter S))"
  proof (rule ccontr)
    assume o: "\<not> chClosed (wPunchIn (syWriter S))"
    have "recv (plPunches (ppPipe (syPipe S))) = RecvClosed" using c e(3) by (simp add: recv_RecvClosed)
    then obtain b P where "runPunches_step (syPipe S) = Done (b, P)"
      using o that [of False] by (simp add: runPunches_step_def Writer_ClosePunchInput_def closeChan_def)
    from sysStep.forward_punch [OF this] show False using rest_no_step [OF rest] by fastforce
  qed
qed

section \<open>Property\<close>

text \<open>
  C11. A shutdown of an idle program completes and loses nothing: take any reachable state in which every
  acknowledged write has been handled, no flush is under way and \<open>CloseWrites\<close> has closed the queue.
  However the program goes on until it comes to rest, then everything that \<open>shutdown\<close> waits for has
  ended: the sniffer, the reconciler, both goroutines of the pipeline and the writer have returned, the
  punch queue is closed with no punch left, and the writes taken are still all those acknowledged.
\<close>

theorem idle_shutdown_completes:
  assumes "shmInv s" and "0 < nextGen s" and "sysReach disk s n tr S"
    and "map oEvent (taken tr) = acknowledged tr" and "noFlush (syPipe S)"
    and "chClosed (plWrites (ppPipe (syPipe S)))"
    and "innerConf\<^sup>*\<^sup>* (tr, S) (tr', S')" and "atRest (tr', S')"
  shows "Sniffer_Wait (ppSniffer (syPipe S')) = Done () \<and> Reconciler_Wait S' = Done () \<and>
    Pipeline_Wait (syPipe S') = Done () \<and> Writer_Wait S' = Done () \<and>
    chClosed (plPunches (ppPipe (syPipe S'))) \<and> requests S' = {} \<and> map oEvent (taken tr') = acknowledged tr"
proof -
  have r': "sysReach disk s n tr' S'" by (rule inner_reach [OF assms(3,7)])
  note inv = reach_runInv [OF r']
  have "length (taken tr) = length (acknowledged tr)" by (metis assms(4) length_map)
  then have k: "acknowledged tr' = acknowledged tr" "length (acknowledged tr') \<le> length (taken tr')"
    using inner_run_keeps [OF assms(7)] assms(5) by auto
  have c: "chClosed (plWrites (ppPipe (syPipe S')))" using inner_run_closed [OF assms(7)] assms(6) by simp
  obtain W where W: "refines (pipeTrace tr', S') W" using reach_refines [OF assms(1,2) r'] by metis
  note at = closed_rest_returned [OF W inv assms(8) c k(2)]
  have "map oEvent (taken tr') = acknowledged tr"
    using handled_is_prefix(1) [OF refinesD(1-3) [OF W]] k by (simp add: acknowledged_def taken_def)
  moreover have "requests S' = {}"
    using rest_punches(1,3) [OF assms(8) inv] rest_writer(3) [OF assms(8)] by (simp add: requests_def)
  ultimately show ?thesis
    using at closed_rest_sniffer [OF W inv assms(8) at k(2)] closed_rest_punches [OF inv assms(8) at] rest_writer [OF assms(8)]
      phaseInvD(7,8) [OF runInvD(1) [OF inv]] rest_punches(1,2) [OF assms(8) inv]
    by (simp add: wait_defs recv_RecvClosed)
qed

text \<open>The program stopped right after its start.\<close>

definition closedStart :: System where
  "closedStart = sampleStart\<lparr>syPipe := (startPipe sampleImage shm0)\<lparr>
     ppPipe := NewWritePipeline\<lparr>plClosing := True, plWrites := (makeChan pipelineWriteDepth)\<lparr>chClosed := True\<rparr>\<rparr>\<rparr>\<rparr>"

lemma closedStart_reach: "sysReach sampleImage shm0 fileTracker [SInner LQuiet, SInner LQuiet] closedStart"
proof -
  have "performAll [ActMark, ActClose] (syPipe sampleStart) = Some ([LQuiet, LQuiet], syPipe closedStart)"
    by (simp add: startSystem_def startPipe_def closedStart_def NewWritePipeline_def CloseWrites_mark_def CloseWrites_close_def
        ofAttempt_def closeChan_def makeChan_def)
  then have "sysConf\<^sup>*\<^sup>* ([], sampleStart) ([] @ map SInner [LQuiet, LQuiet], sampleStart\<lparr>syPipe := syPipe closedStart\<rparr>)"
    by (rule own_actions_run [OF rtranclp.rtrancl_refl, where as = "[ActMark, ActClose]"]) simp
  then show ?thesis by (simp add: closedStart_def)
qed

theorem idle_shutdown_completes_witness:
  "\<exists>tr S. sysReach sampleImage shm0 fileTracker tr S \<and> Sniffer_Wait (ppSniffer (syPipe S)) = Done () \<and>
     Reconciler_Wait S = Done () \<and> Pipeline_Wait (syPipe S) = Done () \<and> Writer_Wait S = Done ()"
proof -
  let ?tr = "[SInner LQuiet, SInner LQuiet]"
  obtain tr' S' where run: "innerConf\<^sup>*\<^sup>* (?tr, closedStart) (tr', S')" and rest: "atRest (tr', S')"
    using inner_ends [OF closedStart_reach] by (metis prod.exhaust)
  have i: "map oEvent (taken ?tr) = acknowledged ?tr" by (simp add: acknowledged_def submitted_def taken_def handled_def)
  have h: "noFlush (syPipe closedStart)" "chClosed (plWrites (ppPipe (syPipe closedStart)))"
    by (simp_all add: closedStart_def startPipe_def NewWritePipeline_def startDispatcher_def noFlush_def makeChan_def)
  show ?thesis
    using idle_shutdown_completes [OF shm0_inv shm0_gen closedStart_reach i h run rest] inner_reach [OF closedStart_reach run]
    by (intro exI [of _ tr'] exI [of _ S']) simp
qed

end
