(* ===== verification/UsbGadget.thy ===== *)
theory UsbGadget
  imports Prelude
begin

text \<open>
  The USB gadget (usb_gadget.go): the sequence of file operations that describes the mass-storage
  gadget to the kernel through configfs, and the one that takes it down.

  The kernel is a parameter: \<open>os\<close> gives the result of an operation from the operations done before it,
  \<open>entries\<close> the names in the directory of controllers.  The state is the list of the operations done, in
  order, so a function of the model is a sequence of calls with the code's branches on their results.
\<close>

section \<open>Operations\<close>

type_synonym path = string

datatype OsCall =
    Stat path
  | MkdirAll path
  | WriteFile path string
  | Symlink path path
  | Remove path
  | RemoveAll path
  | ReadDir path

type_synonym Kernel = "OsCall list \<Rightarrow> OsCall \<Rightarrow> GoError option"

definition ErrNotExist :: GoError where "ErrNotExist = Errno 2"

definition gadgetName :: string where "gadgetName = ''tsdisk''"
definition gadgetPath :: path where "gadgetPath = ''/sys/kernel/config/usb_gadget/'' @ gadgetName"
definition udcPath :: path where "udcPath = ''/sys/class/udc''"

text \<open>\<open>filepath.Join\<close> of two clean, non-empty paths.\<close>

definition join :: "path \<Rightarrow> path \<Rightarrow> path" where
  "join a b = a @ ''/'' @ b"

record USBGadget =
  backingDev :: string

definition NewUSBGadget :: "string \<Rightarrow> USBGadget" where
  "NewUSBGadget dev = \<lparr>backingDev = dev\<rparr>"

section \<open>The functions\<close>

text \<open>\<open>writeFile\<close> logs a failure and goes on.\<close>

definition writeFile :: "path \<Rightarrow> string \<Rightarrow> OsCall list \<Rightarrow> OsCall list" where
  "writeFile p v h = h @ [WriteFile p v]"

definition Teardown :: "Kernel \<Rightarrow> OsCall list \<Rightarrow> OsCall list" where
  "Teardown os h =
     (let h1 = h @ [Stat gadgetPath]
      in if os h (Stat gadgetPath) = Some ErrNotExist then h1
         else h1 @ [Remove (join gadgetPath ''configs/c.1/mass_storage.0''),
                    RemoveAll (join gadgetPath ''functions/mass_storage.0''),
                    RemoveAll (join gadgetPath ''configs/c.1''),
                    RemoveAll (join gadgetPath ''strings/0x409''),
                    RemoveAll gadgetPath])"

definition findUDC :: "(OsCall list \<Rightarrow> GoError + string list) \<Rightarrow> OsCall list \<Rightarrow> (GoError + string) \<times> OsCall list" where
  "findUDC entries h =
     (case entries h of
        Inl e \<Rightarrow> Inl e
      | Inr (name # _) \<Rightarrow> Inr name
      | Inr [] \<Rightarrow> Inl (Errorf ''no UDC found''),
      h @ [ReadDir udcPath])"

text \<open>
  A statement of \<open>Setup\<close>: an operation whose error ends the function, wrapped in a message, or a
  \<open>writeFile\<close>.
\<close>

datatype SetupStmt =
    Must string OsCall
  | Put path string

fun runSetup :: "Kernel \<Rightarrow> SetupStmt list \<Rightarrow> OsCall list \<Rightarrow> GoError option \<times> OsCall list" where
  "runSetup os [] h = (None, h)"
| "runSetup os (Must msg call # ss) h =
     (case os h call of
        Some e \<Rightarrow> (Some (Wrapf msg e), h @ [call])
      | None \<Rightarrow> runSetup os ss (h @ [call]))"
| "runSetup os (Put p v # ss) h = runSetup os ss (writeFile p v h)"

definition cfgDir :: path where "cfgDir = join gadgetPath ''configs/c.1''"
definition funcDir :: path where "funcDir = join gadgetPath ''functions/mass_storage.0''"

definition deviceStmts :: "SetupStmt list" where
  "deviceStmts =
     (let stringsDir = join gadgetPath ''strings/0x409'';
          cfgStrings = join cfgDir ''strings/0x409''
      in [Must ''create gadget dir'' (MkdirAll gadgetPath),
          Put (join gadgetPath ''idVendor'') ''0x1d6b'',
          Put (join gadgetPath ''idProduct'') ''0x0104'',
          Put (join gadgetPath ''bcdDevice'') ''0x0100'',
          Put (join gadgetPath ''bcdUSB'') ''0x0200'',
          Must ''create gadget strings'' (MkdirAll stringsDir),
          Put (join stringsDir ''serialnumber'') ''9911010101'',
          Put (join stringsDir ''manufacturer'') ''yonleLABORATORY'',
          Put (join stringsDir ''product'') ''TSSniff'',
          Must ''create config strings'' (MkdirAll cfgStrings),
          Put (join cfgStrings ''configuration'') ''Mass Storage'',
          Put (join cfgDir ''MaxPower'') ''250''])"

definition functionStmts :: "USBGadget \<Rightarrow> SetupStmt list" where
  "functionStmts g =
     (let lunDir = join funcDir ''lun.0''
      in [Must ''create mass storage function'' (MkdirAll funcDir),
          Put (join funcDir ''stall'') ''0'',
          Must ''create LUN'' (MkdirAll lunDir),
          Put (join lunDir ''nofua'') ''0'',
          Put (join lunDir ''cdrom'') ''0'',
          Put (join lunDir ''ro'') ''0'',
          Put (join lunDir ''removable'') ''1'',
          Put (join lunDir ''file'') (backingDev g),
          Put (join lunDir ''inquiry_string'') ''TSSniff Disk'',
          Must ''link mass storage function'' (Symlink funcDir (join cfgDir ''mass_storage.0''))])"

definition setupStmts :: "USBGadget \<Rightarrow> SetupStmt list" where
  "setupStmts g = deviceStmts @ functionStmts g"

definition Setup ::
  "Kernel \<Rightarrow> (OsCall list \<Rightarrow> GoError + string list) \<Rightarrow> USBGadget \<Rightarrow> OsCall list \<Rightarrow> GoError option \<times> OsCall list" where
  "Setup os entries g h =
     (case runSetup os (setupStmts g) (Teardown os h) of
        (Some e, h1) \<Rightarrow> (Some e, h1)
      | (None, h1) \<Rightarrow>
          (case findUDC entries h1 of
             (Inl e, h2) \<Rightarrow> (Some (Wrapf ''find UDC'' e), h2)
           | (Inr udc, h2) \<Rightarrow> (None, writeFile (join gadgetPath ''UDC'') udc h2)))"

section \<open>Properties\<close>

fun callOf :: "SetupStmt \<Rightarrow> OsCall" where
  "callOf (Must msg c) = c"
| "callOf (Put p v) = WriteFile p v"

text \<open>
  The statements run in order; the function goes through all of them, or stops at the first required
  operation that fails.
\<close>

lemma runSetup_done:
  "fst (runSetup os ss h) = None \<Longrightarrow> snd (runSetup os ss h) = h @ map callOf ss"
  by (induction os ss h rule: runSetup.induct) (auto simp: writeFile_def split: option.splits)

lemma runSetup_stopped:
  "fst (runSetup os ss h) = Some e \<Longrightarrow>
     \<exists>pre msg c post e'. ss = pre @ Must msg c # post \<and> snd (runSetup os ss h) = h @ map callOf pre @ [c] \<and>
       e = Wrapf msg e' \<and> os (h @ map callOf pre) c = Some e'"
proof (induction os ss h rule: runSetup.induct)
  case (2 os msg call ss h)
  show ?case
  proof (cases "os h call")
    case (Some e')
    then show ?thesis
      using 2(2) by (intro exI [of _ "[]"] exI [of _ msg] exI [of _ call] exI [of _ ss] exI [of _ e']) auto
  next
    case None
    then obtain pre m c post e' where *: "ss = pre @ Must m c # post"
        "snd (runSetup os ss (h @ [call])) = (h @ [call]) @ map callOf pre @ [c]" "e = Wrapf m e'"
        "os ((h @ [call]) @ map callOf pre) c = Some e'"
      using 2 by auto
    show ?thesis
      by (intro exI [of _ "Must msg call # pre"] exI [of _ m] exI [of _ c] exI [of _ post] exI [of _ e'])
        (use * None in auto)
  qed
next
  case (3 os p v ss h)
  then obtain pre m c post e' where *: "ss = pre @ Must m c # post"
      "snd (runSetup os ss (writeFile p v h)) = writeFile p v h @ map callOf pre @ [c]" "e = Wrapf m e'"
      "os (writeFile p v h @ map callOf pre) c = Some e'"
    by auto
  show ?case
    by (intro exI [of _ "Put p v # pre"] exI [of _ m] exI [of _ c] exI [of _ post] exI [of _ e'])
      (use * in \<open>auto simp: writeFile_def\<close>)
qed simp

text \<open>No statement before the last one touches the attribute that binds the gadget.\<close>

abbreviation bindPath :: path where
  "bindPath \<equiv> join gadgetPath ''UDC''"

lemma setupStmts_do_not_bind: "WriteFile bindPath v \<notin> callOf ` set (setupStmts g)"
  by (simp add: setupStmts_def deviceStmts_def functionStmts_def Let_def join_def cfgDir_def funcDir_def
      gadgetPath_def gadgetName_def)

text \<open>
  C36. \<open>Setup\<close> binds the gadget last or not at all: whatever the kernel answers, it first takes down what
  is there; if it reports success it has then done every statement in order (the backing file and
  the function link included), looked up a controller and, as its very last operation, written that
  controller to \<open>UDC\<close>; if it reports an error, that is a wrapped one and \<open>UDC\<close> was not written.
\<close>

theorem gadget_bound_last:
  "\<exists>calls. snd (Setup os entries g h) = Teardown os h @ calls \<and>
     (case fst (Setup os entries g h) of
        None \<Rightarrow> \<exists>udc. calls = map callOf (setupStmts g) @ [ReadDir udcPath, WriteFile bindPath udc]
      | Some e \<Rightarrow> (\<exists>msg e'. e = Wrapf msg e') \<and> (\<forall>v. WriteFile bindPath v \<notin> set calls))"
proof (cases "fst (runSetup os (setupStmts g) (Teardown os h))")
  case (Some e)
  then obtain pre msg c post e' where *: "setupStmts g = pre @ Must msg c # post"
      "snd (runSetup os (setupStmts g) (Teardown os h)) = Teardown os h @ map callOf pre @ [c]" "e = Wrapf msg e'"
    using runSetup_stopped by blast
  have r: "runSetup os (setupStmts g) (Teardown os h) = (Some e, Teardown os h @ map callOf pre @ [c])"
    by (rule prod_eqI) (simp_all add: Some *(2))
  have "callOf ` set (setupStmts g) = callOf ` set pre \<union> {c} \<union> callOf ` set post"
    by (auto simp: *(1))
  then have "WriteFile bindPath v \<notin> set (map callOf pre @ [c])" for v
    using setupStmts_do_not_bind [of v g] by auto
  then show ?thesis
    using r *(3) by (intro exI [of _ "map callOf pre @ [c]"]) (auto simp: Setup_def)
next
  case None
  let ?h1 = "Teardown os h @ map callOf (setupStmts g)"
  have r: "runSetup os (setupStmts g) (Teardown os h) = (None, ?h1)"
    by (rule prod_eqI) (simp_all add: None runSetup_done)
  show ?thesis
  proof (cases "fst (findUDC entries ?h1)")
    case (Inl e)
    then have "findUDC entries ?h1 = (Inl e, ?h1 @ [ReadDir udcPath])"
      by (auto simp: findUDC_def)
    then show ?thesis
      using r setupStmts_do_not_bind
      by (intro exI [of _ "map callOf (setupStmts g) @ [ReadDir udcPath]"]) (auto simp: Setup_def)
  next
    case (Inr udc)
    then have "findUDC entries ?h1 = (Inr udc, ?h1 @ [ReadDir udcPath])"
      by (auto simp: findUDC_def)
    then show ?thesis
      using r by (intro exI [of _ "map callOf (setupStmts g) @ [ReadDir udcPath, WriteFile bindPath udc]"])
        (auto simp: Setup_def writeFile_def)
  qed
qed

text \<open>The results of \<open>writeFile\<close> do not matter.\<close>

definition sameButWrites :: "Kernel \<Rightarrow> Kernel \<Rightarrow> bool" where
  "sameButWrites os os' \<longleftrightarrow> (\<forall>h c. (\<nexists>p v. c = WriteFile p v) \<longrightarrow> os h c = os' h c)"

lemma runSetup_cong:
  "sameButWrites os os' \<Longrightarrow> \<forall>s \<in> set ss. \<forall>msg p v. s \<noteq> Must msg (WriteFile p v) \<Longrightarrow>
     runSetup os ss h = runSetup os' ss h"
proof (induction os ss h rule: runSetup.induct)
  case (2 os msg call ss h)
  have "os h call = os' h call"
    using 2(2,3) by (auto simp: sameButWrites_def)
  then show ?case using 2 by (auto split: option.splits)
qed auto

text \<open>
  \<open>Setup\<close> cannot tell whether the kernel accepted any attribute: on two kernels that differ only in
  the answers to file writes (the backing file and the binding to the controller among them) it does
  the same operations and reports the same result, so a gadget that was refused by \<open>UDC\<close> is reported
  as active.
\<close>

theorem setup_ignores_failed_writes:
  assumes "sameButWrites os os'"
  shows "Setup os entries g h = Setup os' entries g h"
proof -
  have t: "Teardown os h = Teardown os' h"
    using assms by (simp add: Teardown_def sameButWrites_def)
  have "runSetup os (setupStmts g) k = runSetup os' (setupStmts g) k" for k
    by (rule runSetup_cong [OF assms]) (auto simp: setupStmts_def deviceStmts_def functionStmts_def Let_def)
  then show ?thesis by (simp add: Setup_def t)
qed

theorem setup_ignores_failed_writes_witness:
  "Setup (\<lambda>h c. case c of WriteFile p v \<Rightarrow> Some (Errno 16) | _ \<Rightarrow> None) (\<lambda>_. Inr [''dummy_udc.0'']) (NewUSBGadget ''disk.img'') [] =
   Setup (\<lambda>h c. None) (\<lambda>_. Inr [''dummy_udc.0'']) (NewUSBGadget ''disk.img'') [] \<and>
   fst (Setup (\<lambda>h c. None) (\<lambda>_. Inr [''dummy_udc.0'']) (NewUSBGadget ''disk.img'') []) = None"
proof -
  have "sameButWrites (\<lambda>h c. case c of WriteFile p v \<Rightarrow> Some (Errno 16) | _ \<Rightarrow> None) (\<lambda>h c. None)"
    by (auto simp: sameButWrites_def split: OsCall.splits)
  moreover have "fst (Setup (\<lambda>h c. None) (\<lambda>_. Inr [''dummy_udc.0'']) (NewUSBGadget ''disk.img'') []) = None"
    by (simp add: Setup_def setupStmts_def deviceStmts_def functionStmts_def Let_def findUDC_def)
  ultimately show ?thesis by (simp add: setup_ignores_failed_writes)
qed

end
