(* ===== verification/Lifecycle.thy ===== *)
theory Lifecycle
  imports UsbGadget
begin

text \<open>
  Start-up and shutdown (main.go) and the HTTP handler (httpserver.go).

  \<open>main\<close> is a ladder of calls that may fail, each failure with its own clean-up.  The model is the
  sequence of the calls: \<open>ok\<close> says which of the fallible ones succeed.  What the calls do is the matter
  of the other theories.
\<close>

section \<open>The calls\<close>

datatype Call =
    OpenImage | StatImage | FindPartition | CreateOverlay | CreateTracker | MakeMountDir | MountFS
  | StartWriter | StartSniffer | StartReconciler | StartPipeline
  | ListenHTTP | ServeHTTP | SetupGadget | AwaitSignal
  | TeardownGadget | UnmountFS | DoCloseWrites | WaitSniffer | WaitReconciler | DoClosePunches | WaitPipeline
  | WaitWriter | SyncBacking | ShutdownHTTP | CloseHub | CloseOverlay
  | CloseImage | Fatal | ReturnMain

text \<open>The function \<open>shutdown\<close>; \<open>gadget\<close> says whether its argument is not nil.\<close>

definition shutdown :: "bool \<Rightarrow> Call list" where
  "shutdown gadget =
     (if gadget then [TeardownGadget] else []) @
     [UnmountFS, DoCloseWrites, WaitSniffer, WaitReconciler, DoClosePunches, WaitPipeline, WaitWriter, SyncBacking,
      ShutdownHTTP, CloseHub, CloseOverlay]"

text \<open>
  A statement of \<open>main\<close>: a call that cannot fail, or one whose failure leads to the given clean-up and
  \<open>log.Fatalf\<close>.  \<open>StatImage\<close> stands for the two checks that follow the opening.  The deferred
  \<open>imgFile.Close()\<close> runs when \<open>main\<close> returns; \<open>log.Fatalf\<close> exits without it.
\<close>

datatype MainStmt = Do Call | Try Call "Call list"

fun runMain :: "(Call \<Rightarrow> bool) \<Rightarrow> MainStmt list \<Rightarrow> Call list" where
  "runMain ok [] = [CloseImage, ReturnMain]"
| "runMain ok (Do c # ss) = c # runMain ok ss"
| "runMain ok (Try c cleanup # ss) = (if ok c then c # runMain ok ss else c # cleanup @ [Fatal])"

text \<open>The clean-up when the HTTP listener cannot be opened, written out in the code.\<close>

definition abortHTTP :: "Call list" where
  "abortHTTP = [UnmountFS, DoCloseWrites, WaitSniffer, WaitReconciler, DoClosePunches, WaitPipeline, WaitWriter, CloseOverlay]"

text \<open>Up to the start of the workers, and from the HTTP server on.\<close>

definition bootStmts :: "MainStmt list" where
  "bootStmts =
     [Try OpenImage [], Try StatImage [], Try FindPartition [], Try CreateOverlay [],
      Try CreateTracker [CloseOverlay], Try MakeMountDir [CloseOverlay], Try MountFS [CloseOverlay],
      Do StartWriter, Do StartSniffer, Do StartReconciler, Do StartPipeline]"

definition serveStmts :: "bool \<Rightarrow> MainStmt list" where
  "serveStmts noGadget =
     [Try ListenHTTP abortHTTP, Do ServeHTTP] @
     (if noGadget then [] else [Try SetupGadget (shutdown True)]) @
     Do AwaitSignal # map Do (shutdown (\<not> noGadget))"

definition mainStmts :: "bool \<Rightarrow> MainStmt list" where
  "mainStmts noGadget = bootStmts @ serveStmts noGadget"

definition main :: "(Call \<Rightarrow> bool) \<Rightarrow> bool \<Rightarrow> Call list" where
  "main ok noGadget = runMain ok (mainStmts noGadget)"

section \<open>The HTTP handler\<close>

text \<open>
  The handler of \<open>/stream\<close>: headers, a flush when the connection supports it, the registration with the
  hub; then for each chunk received from the client's channel one write and a flush; the first failed
  write ends it, and so does the end of the channel.  The client is unregistered by the deferred call.
  \<open>accepts k\<close> says whether the \<open>k\<close>-th write succeeds.
\<close>

datatype HttpAction = SetHeader string string | FlushBody | WriteBody bytes | RegisterClient | UnregisterClient

fun streamLoop :: "(nat \<Rightarrow> bool) \<Rightarrow> bool \<Rightarrow> nat \<Rightarrow> bytes list \<Rightarrow> HttpAction list" where
  "streamLoop accepts flusher k [] = [UnregisterClient]"
| "streamLoop accepts flusher k (d # ds) =
     WriteBody d # (if accepts k
                    then (if flusher then [FlushBody] else []) @ streamLoop accepts flusher (Suc k) ds
                    else [UnregisterClient])"

definition streamHandler :: "(nat \<Rightarrow> bool) \<Rightarrow> bool \<Rightarrow> bytes list \<Rightarrow> HttpAction list" where
  "streamHandler accepts flusher received =
     [SetHeader ''Content-Type'' ''video/mp2t'', SetHeader ''Cache-Control'' ''no-cache''] @
     (if flusher then [FlushBody] else []) @ RegisterClient # streamLoop accepts flusher 0 received"

text \<open>
  The server: \<open>listen\<close> is the result of \<open>net.Listen\<close>; the mux knows one path.  \<open>serveStreamServer\<close> returns when
  \<open>Serve\<close> does, and says whether it logs that the server stopped.
\<close>

datatype ServeError = ErrServerClosed | OtherServeError GoError

definition newStreamServer :: "GoError + 'listener \<Rightarrow> GoError + string list \<times> 'listener" where
  "newStreamServer listen = (case listen of Inl e \<Rightarrow> Inl e | Inr l \<Rightarrow> Inr ([''/stream''], l))"

definition serveStreamServer :: "ServeError option \<Rightarrow> bool" where
  "serveStreamServer err = (case err of None \<Rightarrow> False | Some e \<Rightarrow> e \<noteq> ErrServerClosed)"

section \<open>Properties\<close>

definition stopOrder :: "Call list" where
  "stopOrder = [UnmountFS, DoCloseWrites, WaitSniffer, WaitReconciler, DoClosePunches, WaitPipeline, WaitWriter, CloseOverlay]"

text \<open>
  C35. The overlay is destroyed exactly when it was created, once, and after everything that may still
  use it: whichever calls of \<open>main\<close> fail, a run that created the overlay file closes it exactly once; if
  the workers were started, the mount was removed, the queues were closed and every worker was waited
  for before that, in the order the pipeline needs; and a run in which the overlay could not be
  created closes nothing.
\<close>

theorem overlay_closed_last:
  "count_list (main ok noGadget) CloseOverlay = (if CreateOverlay \<in> set (main ok noGadget) \<and> ok CreateOverlay then 1 else 0) \<and>
   filter (\<lambda>c. c \<in> set stopOrder) (main ok noGadget) =
     (if StartPipeline \<in> set (main ok noGadget) then stopOrder
      else if CreateOverlay \<in> set (main ok noGadget) \<and> ok CreateOverlay then [CloseOverlay] else [])"
proof -
  note defs = main_def mainStmts_def bootStmts_def serveStmts_def shutdown_def abortHTTP_def stopOrder_def
  consider "\<not> ok OpenImage" | "ok OpenImage" "\<not> ok StatImage" | "ok OpenImage" "ok StatImage" "\<not> ok FindPartition"
    | (created) "ok OpenImage" "ok StatImage" "ok FindPartition"
    by blast
  then show ?thesis
  proof cases
    case created
    note reach = created
    show ?thesis
    proof (cases "ok CreateOverlay \<and> ok CreateTracker \<and> ok MakeMountDir \<and> ok MountFS")
      case True
      then show ?thesis
        using reach by (cases "ok ListenHTTP"; cases noGadget; cases "ok SetupGadget") (simp_all add: defs)
    next
      case False
      then consider "\<not> ok CreateOverlay" | "ok CreateOverlay" "\<not> ok CreateTracker"
        | "ok CreateOverlay" "ok CreateTracker" "\<not> ok MakeMountDir"
        | "ok CreateOverlay" "ok CreateTracker" "ok MakeMountDir" "\<not> ok MountFS"
        by blast
      then show ?thesis using reach by cases (simp_all add: defs)
    qed
  qed (simp_all add: defs)
qed

text \<open>The bytes a client receives, for every outcome of the writes.\<close>

fun bodyOf :: "HttpAction list \<Rightarrow> bytes list" where
  "bodyOf [] = []"
| "bodyOf (WriteBody d # as) = d # bodyOf as"
| "bodyOf (_ # as) = bodyOf as"

lemma streamLoop_body:
  "\<exists>n. bodyOf (streamLoop accepts flusher k ds) = take n ds \<and>
     (\<forall>i. i + 1 < n \<longrightarrow> accepts (k + i)) \<and> ((\<forall>i. accepts i) \<longrightarrow> n = length ds)"
proof (induction ds arbitrary: k)
  case Nil
  then show ?case by (intro exI [of _ 0]) simp
next
  case (Cons d ds)
  obtain n where n: "bodyOf (streamLoop accepts flusher (Suc k) ds) = take n ds"
      "\<forall>i. i + 1 < n \<longrightarrow> accepts (Suc k + i)" "(\<forall>i. accepts i) \<longrightarrow> n = length ds"
    using Cons.IH by blast
  show ?case
  proof (cases "accepts k")
    case True
    have "accepts (k + i)" if "i + 1 < Suc n" for i
      using True n(2) that by (cases i) auto
    then show ?thesis using True n by (intro exI [of _ "Suc n"]) auto
  next
    case False
    then show ?thesis by (intro exI [of _ 1]) auto
  qed
qed

lemma streamLoop_nonempty [simp]: "streamLoop accepts flusher k ds \<noteq> []"
  by (cases ds) simp_all

lemma streamLoop_registers:
  "filter (\<lambda>a. a = RegisterClient \<or> a = UnregisterClient) (streamLoop accepts flusher k ds) = [UnregisterClient] \<and>
     last (streamLoop accepts flusher k ds) = UnregisterClient"
  by (induction ds arbitrary: k) auto

text \<open>
  The handler registers one client and unregisters it once, as its last action, on every path; what it
  writes is an initial part of what the hub delivered, and all of it when no write fails.
\<close>

theorem stream_handler_complete:
  "filter (\<lambda>a. a = RegisterClient \<or> a = UnregisterClient) (streamHandler accepts flusher ds) = [RegisterClient, UnregisterClient] \<and>
   last (streamHandler accepts flusher ds) = UnregisterClient \<and>
   (\<exists>n. bodyOf (streamHandler accepts flusher ds) = take n ds \<and> ((\<forall>i. accepts i) \<longrightarrow> n = length ds))"
proof -
  have "bodyOf (streamHandler accepts flusher ds) = bodyOf (streamLoop accepts flusher 0 ds)"
    by (simp add: streamHandler_def)
  then have "\<exists>n. bodyOf (streamHandler accepts flusher ds) = take n ds \<and> ((\<forall>i. accepts i) \<longrightarrow> n = length ds)"
    using streamLoop_body [of accepts flusher 0 ds] by metis
  then show ?thesis
    using streamLoop_registers [of accepts flusher 0 ds] by (simp add: streamHandler_def)
qed

end
