(* ===== verification/Startup.thy ===== *)
theory Startup
  imports SystemSpec Lifecycle
begin

text \<open>
  What \<open>main\<close> (main.go) sets up: its command line, the storage it opens and the state in which the
  workers start.  \<open>Lifecycle\<close> has the order of the calls and the clean-up; here the calls are the
  models of the other theories, composed as \<open>main\<close> composes them, so every property of a run of
  \<open>System\<close> becomes one of a run of the program.
\<close>

section \<open>The command line\<close>

record Options =
  optMount :: string
  optImage :: string
  optListen :: string
  optDebug :: bool
  optNoGadget :: bool
  optVerbose :: bool

definition defaultOptions :: Options where
  "defaultOptions =
     \<lparr>optMount = ''/mnt/tsdisk'', optImage = ''/srv/guoxin.img'', optListen = '':6969'',
      optDebug = False, optNoGadget = False, optVerbose = False\<rparr>"

text \<open>The flags that \<open>main\<close> declares; \<open>None\<close> for a name it does not.\<close>

definition setString :: "string \<Rightarrow> string \<Rightarrow> Options \<Rightarrow> Options option" where
  "setString name v opts =
     (if name = ''mount'' then Some (opts\<lparr>optMount := v\<rparr>)
      else if name = ''image'' then Some (opts\<lparr>optImage := v\<rparr>)
      else if name = ''listen'' then Some (opts\<lparr>optListen := v\<rparr>)
      else None)"

definition setBool :: "string \<Rightarrow> bool \<Rightarrow> Options \<Rightarrow> Options option" where
  "setBool name b opts =
     (if name = ''debug'' then Some (opts\<lparr>optDebug := b\<rparr>)
      else if name = ''no-gadget'' then Some (opts\<lparr>optNoGadget := b\<rparr>)
      else if name = ''verbose'' then Some (opts\<lparr>optVerbose := b\<rparr>)
      else None)"

text \<open>
  \<open>flag.Parse\<close> of the standard library: a flag is \<open>-name\<close>, \<open>--name\<close>, \<open>-name=value\<close> or, unless it is boolean,
  \<open>-name value\<close>; the first other argument or \<open>--\<close> ends the flags.  The process ends with the usage
  message after an error or a request for help.
\<close>

datatype FlagResult = FlagsOk Options "string list" | FlagHelp | FlagUsage

definition parseBool :: "string \<Rightarrow> bool option" where
  "parseBool v =
     (if v \<in> {''1'', ''t'', ''T'', ''TRUE'', ''true'', ''True''} then Some True
      else if v \<in> {''0'', ''f'', ''F'', ''FALSE'', ''false'', ''False''} then Some False
      else None)"

fun parseFlags :: "string list \<Rightarrow> Options \<Rightarrow> FlagResult" where
  "parseFlags [] opts = FlagsOk opts []"
| "parseFlags (s # args) opts =
     (if length s < 2 \<or> s ! 0 \<noteq> CHR ''-'' then FlagsOk opts (s # args)
      else if s = ''--'' then FlagsOk opts args
      else
        let name0 = (if s ! 1 = CHR ''-'' then drop 2 s else drop 1 s)
        in if name0 = [] \<or> name0 ! 0 = CHR ''-'' \<or> name0 ! 0 = CHR ''='' then FlagUsage
           else
             let name = takeWhile (\<lambda>c. c \<noteq> CHR ''='') name0;
                 rest = drop (length name) name0
             in (case setBool name True opts of
                   Some on \<Rightarrow>
                     if rest = [] then parseFlags args on
                     else (case parseBool (tl rest) of
                             None \<Rightarrow> FlagUsage
                           | Some b \<Rightarrow> parseFlags args (the (setBool name b opts)))
                 | None \<Rightarrow>
                     if setString name [] opts = None
                     then (if name = ''help'' \<or> name = ''h'' then FlagHelp else FlagUsage)
                     else if rest \<noteq> [] then parseFlags args (the (setString name (tl rest) opts))
                     else (case args of
                             [] \<Rightarrow> FlagUsage
                           | v # args' \<Rightarrow> parseFlags args' (the (setString name v opts)))))"

section \<open>The storage\<close>

text \<open>
  What the system answers during start-up: the opened image, the error of \<open>Stat\<close> and whether it is a
  regular file, the outcome of each read and of the calls that make the overlay file, the directory
  of the mount, and the mount (which asks for the size again).
\<close>

record MainEnv =
  meOpen :: "GoError + File"
  meStat :: "GoError option"
  meRegular :: bool
  meMbrRead :: IoOutcome
  meCreate :: IoOutcome
  meTruncate :: IoOutcome
  meOverlayPath :: string
  meBaseRead :: "nat \<Rightarrow> i64 \<Rightarrow> IoOutcome"
  meOverlayRead :: "u64 \<Rightarrow> nat \<Rightarrow> IoOutcome"
  meMkdir :: "GoError option"
  meStatAgain :: "GoError option"
  meMount :: "GoError option"

definition imageSize :: "File \<Rightarrow> u64" where
  "imageSize f = word_of_nat (fSize f)"

text \<open>A left result is the error of the \<open>log.Fatalf\<close> that ends the process.\<close>

definition openImage :: "MainEnv \<Rightarrow> GoError + File \<times> u64" where
  "openImage env =
     (case meOpen env of
        Inl e \<Rightarrow> Inl (Wrapf ''open sparse image'' e)
      | Inr imgFile \<Rightarrow>
          (case meStat env of
             Some e \<Rightarrow> Inl (Wrapf ''stat sparse image'' e)
           | None \<Rightarrow>
               if \<not> meRegular env then Inl (Errorf ''not a regular file'')
               else Inr (imgFile, imageSize imgFile)))"

text \<open>The reader that the tracker is given: the overlay over the image.\<close>

definition trackerReader :: "MainEnv \<Rightarrow> File \<Rightarrow> SHMDisk \<Rightarrow> VolumeReader" where
  "trackerReader env imgFile shm =
     (\<lambda>n off. SHMDisk_ReadAt (meOverlayRead env) (\<lambda>m p. File_ReadAt (meBaseRead env m p) imgFile m p) shm n off)"

definition initStorage :: "MainEnv \<Rightarrow> File \<Rightarrow> u64 \<Rightarrow> GoError + SHMDisk \<times> NTFS" where
  "initStorage env imgFile volSize =
     (case findMBRPartition (meMbrRead env) imgFile of
        Inl e \<Rightarrow> Inl (Wrapf ''find NTFS partition'' e)
      | Inr part \<Rightarrow>
          (case NewSHMDisk (meCreate env) (meTruncate env) (meOverlayPath env) (Some imgFile) volSize of
             Inl e \<Rightarrow> Inl (Wrapf ''initialize SHM'' e)
           | Inr shm \<Rightarrow>
               (case NewNTFS part (trackerReader env imgFile shm) of
                  Inl e \<Rightarrow> Inl (Wrapf ''initialize NTFS tracker'' e)
                | Inr ntfs \<Rightarrow> Inr (shm, ntfs))))"

definition NewReconciler :: "NTFS \<Rightarrow> Reconciler" where
  "NewReconciler ntfs = \<lparr>rcCaptures = emptyJournal, rcNtfs = ntfs\<rparr>"

text \<open>The workers, the directory and the mount; the state when the workers start.\<close>

definition mountAndStart :: "MainEnv \<Rightarrow> File \<Rightarrow> SHMDisk \<Rightarrow> NTFS \<Rightarrow> GoError + System" where
  "mountAndStart env imgFile shm ntfs =
     (let writer = NewWriter imgFile shm;
          sniffer = NewSniffer;
          pipeline = NewWritePipeline;
          reconciler = NewReconciler ntfs
      in case meMkdir env of
           Some e \<Rightarrow> Inl (Wrapf ''mkdir'' e)
         | None \<Rightarrow>
             (case mountDiskFS (case meStatAgain env of Some e \<Rightarrow> Inl e | None \<Rightarrow> Inr (imageSize imgFile)) (meMount env) of
                Inl e \<Rightarrow> Inl (Wrapf ''mount FUSE'' e)
              | Inr node \<Rightarrow>
                  Inr \<lparr>syNode = node,
                       syPipe = \<lparr>ppPipe = pipeline, ppDisp = startDispatcher, ppSniffer = sniffer, ppWriter = writer\<rparr>,
                       syMid = None, syRec = reconciler, syReqs = []\<rparr>))"

definition startMain :: "MainEnv \<Rightarrow> GoError + System" where
  "startMain env =
     (case openImage env of
        Inl e \<Rightarrow> Inl e
      | Inr (imgFile, volSize) \<Rightarrow>
          (case initStorage env imgFile volSize of
             Inl e \<Rightarrow> Inl e
           | Inr (shm, ntfs) \<Rightarrow> mountAndStart env imgFile shm ntfs))"

text \<open>The last flush of the image in \<open>shutdown\<close>; a nil writer is \<open>None\<close>.\<close>

definition osSyncBacking :: "GoError option \<Rightarrow> Writer option \<Rightarrow> GoError option" where
  "osSyncBacking sync writer = (case writer of None \<Rightarrow> None | Some w \<Rightarrow> sync)"

section \<open>Lemmas\<close>

text \<open>A successful start is the start of \<open>System\<close>, over a fresh overlay of the image's size.\<close>

lemma startMain_start:
  assumes "startMain env = Inr S"
  obtains disk s n where "meOpen env = Inr disk" and "S = startSystem disk s n"
    and "shmInv s" and "nextGen s = 1" and "ntInv n" and "shmView s disk = diskByte disk" and "shmSize s = imageSize disk"
proof -
  obtain disk v where o: "openImage env = Inr (disk, v)"
    using assms by (auto simp: startMain_def split: sum.splits)
  then have open': "meOpen env = Inr disk" "v = imageSize disk"
    by (auto simp: openImage_def split: sum.splits option.splits if_splits)
  obtain s n where i: "initStorage env disk v = Inr (s, n)" and m: "mountAndStart env disk s n = Inr S"
    using assms o by (auto simp: startMain_def split: sum.splits)
  obtain part where n: "NewSHMDisk (meCreate env) (meTruncate env) (meOverlayPath env) (Some disk) v = Inr s"
      "NewNTFS part (trackerReader env disk s) = Inr n"
    using i by (auto simp: initStorage_def split: sum.splits)
  note f = NewSHMDisk_inv [OF n(1)]
  have "shmView s disk = diskByte disk" using f(2) by (auto simp: shmView_def)
  moreover have "S = startSystem disk s n"
    using m f(3) open'(2)
    by (auto simp: mountAndStart_def startSystem_def startPipe_def mountDiskFS_def NewReconciler_def Let_def
        split: option.splits sum.splits)
  ultimately show thesis using that open' f NewNTFS_inv [OF n(2)] by blast
qed

text \<open>Rendering the options, and reading them back.\<close>

definition showBool :: "bool \<Rightarrow> string" where
  "showBool b = (if b then ''true'' else ''false'')"

definition renderOptions :: "Options \<Rightarrow> string list" where
  "renderOptions opts =
     [''-mount='' @ optMount opts, ''-image='' @ optImage opts, ''-listen='' @ optListen opts,
      ''-debug='' @ showBool (optDebug opts), ''-no-gadget='' @ showBool (optNoGadget opts),
      ''-verbose='' @ showBool (optVerbose opts)]"

lemma parse_string_flag:
  assumes "name \<in> {''mount'', ''image'', ''listen''}"
  shows "parseFlags ((''-'' @ name @ ''='' @ v) # args) opts = parseFlags args (the (setString name v opts))"
  using assms by (elim insertE emptyE) (simp_all add: setBool_def setString_def Let_def)

lemma parse_bool_flag:
  assumes "name \<in> {''debug'', ''no-gadget'', ''verbose''}"
  shows "parseFlags ((''-'' @ name @ ''='' @ showBool b) # args) opts = parseFlags args (the (setBool name b opts))"
  using assms by (elim insertE emptyE; cases b) (simp_all add: setBool_def parseBool_def showBool_def Let_def)

section \<open>Properties\<close>


text \<open>
  The two views of start-up agree: given the answers of the system, the sequence of calls of \<open>main\<close>
  (\<open>Lifecycle\<close>) gets as far as starting the workers exactly when the composed start-up succeeds.
\<close>

definition callOk :: "MainEnv \<Rightarrow> (Call \<Rightarrow> bool) \<Rightarrow> Call \<Rightarrow> bool" where
  "callOk env later c =
     (case meOpen env of
        Inl _ \<Rightarrow> c \<noteq> OpenImage
      | Inr f \<Rightarrow>
          (case findMBRPartition (meMbrRead env) f of
             Inl _ \<Rightarrow> c \<noteq> FindPartition \<and> (c = StatImage \<longrightarrow> meStat env = None \<and> meRegular env)
           | Inr part \<Rightarrow>
               (let shm = NewSHMDisk (meCreate env) (meTruncate env) (meOverlayPath env) (Some f) (imageSize f)
                in case c of
                     StatImage \<Rightarrow> meStat env = None \<and> meRegular env
                   | CreateOverlay \<Rightarrow> \<not> isl shm
                   | CreateTracker \<Rightarrow> \<not> isl shm \<and> \<not> isl (NewNTFS part (trackerReader env f (projr shm)))
                   | MakeMountDir \<Rightarrow> meMkdir env = None
                   | MountFS \<Rightarrow> meStatAgain env = None \<and> meMount env = None
                   | ListenHTTP \<Rightarrow> later ListenHTTP
                   | SetupGadget \<Rightarrow> later SetupGadget
                   | _ \<Rightarrow> True)))"

lemma workers_started:
  "StartPipeline \<in> set (main ok noGadget) \<longleftrightarrow>
     ok OpenImage \<and> ok StatImage \<and> ok FindPartition \<and> ok CreateOverlay \<and> ok CreateTracker \<and> ok MakeMountDir \<and> ok MountFS"
  by (auto simp: main_def mainStmts_def bootStmts_def serveStmts_def shutdown_def)

theorem startup_views_agree:
  "StartPipeline \<in> set (main (callOk env later) noGadget) \<longleftrightarrow> \<not> isl (startMain env)"
proof (cases "meOpen env")
  case (Inl e)
  then show ?thesis by (simp add: workers_started callOk_def startMain_def openImage_def)
next
  case (Inr f)
  show ?thesis
  proof (cases "findMBRPartition (meMbrRead env) f")
    case (Inl e)
    then show ?thesis using Inr
      by (auto simp: workers_started callOk_def startMain_def openImage_def initStorage_def split: option.split)
  next
    case (Inr part)
    then show ?thesis
      using \<open>meOpen env = Inr f\<close>
      by (cases "NewSHMDisk (meCreate env) (meTruncate env) (meOverlayPath env) (Some f) (imageSize f)")
        (auto simp: workers_started callOk_def startMain_def openImage_def initStorage_def mountAndStart_def mountDiskFS_def
          Let_def isl_def split: option.split sum.split)
  qed
qed

text \<open>
  The command line says what the program runs with: options written out as flags are read back
  unchanged, whatever the values are and whatever follows them, and replace all earlier settings.
\<close>

theorem options_roundtrip:
  "parseFlags (renderOptions opts @ args) earlier = parseFlags args opts"
proof -
  note str = parse_string_flag [of "''mount''"] parse_string_flag [of "''image''"] parse_string_flag [of "''listen''"]
  note bool' = parse_bool_flag [of "''debug''"] parse_bool_flag [of "''no-gadget''"] parse_bool_flag [of "''verbose''"]
  have all: "earlier\<lparr>optMount := optMount opts, optImage := optImage opts, optListen := optListen opts, optDebug := optDebug opts,
      optNoGadget := optNoGadget opts, optVerbose := optVerbose opts\<rparr> = opts"
    by simp
  show ?thesis
    using str bool' by (simp add: renderOptions_def setString_def setBool_def all del: parseFlags.simps)
qed

section \<open>Witnesses\<close>

text \<open>An image with a partition table, a boot sector and a master file table of one record.\<close>

definition sampleVolume :: File where
  "sampleVolume =
     \<lparr>fSize = 12288, fData = pokeBytes 0 sampleMbr (pokeBytes 4096 sampleBoot (pokeBytes 6144 sampleMft (\<lambda>_. 0)))\<rparr>"

definition sampleEnv :: MainEnv where
  "sampleEnv =
     \<lparr>meOpen = Inr sampleVolume, meStat = None, meRegular = True, meMbrRead = IoOk, meCreate = IoOk, meTruncate = IoOk,
      meOverlayPath = ''x'', meBaseRead = (\<lambda>_ _. IoOk), meOverlayRead = (\<lambda>_ _. IoOk), meMkdir = None, meStatAgain = None,
      meMount = None\<rparr>"

lemma sample_lengths: "length sampleMbr = 512" "length sampleBoot = 512" "length sampleMft = 512"
  by (simp_all add: sampleMbr_def sampleBoot_def sampleMft_def sampleHeader_def sampleAttr_def ntfsMagic_def ntfsFileMagic_def)

lemma sampleVolume_bytes:
  "i < 512 \<Longrightarrow> fData sampleVolume i = sampleMbr ! i"
  "i < 512 \<Longrightarrow> fData sampleVolume (4096 + i) = sampleBoot ! i"
  "i < 512 \<Longrightarrow> fData sampleVolume (6144 + i) = sampleMft ! i"
  "6656 \<le> i \<Longrightarrow> fData sampleVolume i = 0"
  by (simp_all add: sampleVolume_def pokeBytes_def sample_lengths)

lemma sampleVolume_mbr: "findMBRPartition IoOk sampleVolume = Inr (samplePartAt 4096)"
proof -
  have "peekBytes 0 512 (fData sampleVolume) = sampleMbr"
    by (rule nth_equalityI) (simp_all add: sample_lengths nth_peekBytes sampleVolume_bytes(1))
  then have r: "File_ReadAt IoOk sampleVolume mbrSectorSize 0 = (sampleMbr, None)"
    by (simp add: File_ReadAt_inside mbrSectorSize_def sampleVolume_def)
  have v: "le16 sampleMbr 510 = 0xAA55" "sampleMbr ! 450 = 7" "le32 sampleMbr 454 = 8" "le32 sampleMbr 458 = 16"
    by (simp_all add: sampleMbr_def le16_def le32_def sub_def nth_append)
  show ?thesis
    by (simp add: findMBRPartition_def r v mbrEntry_def upt_rec samplePartAt_def samplePart_def)
qed

definition sampleOverlay :: SHMDisk where
  "sampleOverlay = projr (NewSHMDisk IoOk IoOk ''x'' (Some sampleVolume) 12288)"

lemma sampleOverlay_new: "NewSHMDisk IoOk IoOk ''x'' (Some sampleVolume) 12288 = Inr sampleOverlay"
  by (simp add: sampleOverlay_def NewSHMDisk_def)

lemma sampleOverlay_reads: "sampleReads (trackerReader sampleEnv sampleVolume sampleOverlay) 4096"
proof -
  note f = NewSHMDisk_inv [OF sampleOverlay_new]
  have view: "shmView sampleOverlay sampleVolume p = diskByte sampleVolume p" for p using f(2) by (simp add: shmView_def)
  have off: "unat (0x1000 + word_of_nat i :: u64) = 4096 + i" "unat (0x1800 + word_of_nat i :: u64) = 6144 + i"
    if "i < 512" for i
    using that unat_add_of_nat [of "0x1000 :: u64" i] unat_add_of_nat [of "0x1800 :: u64" i] by simp_all
  have "trackerReader sampleEnv sampleVolume sampleOverlay 512 4096 =
      Inr (map (\<lambda>i. shmView sampleOverlay sampleVolume (4096 + word_of_nat i)) [0..<512])"
    using SHMDisk_ReadAt_view [OF f(1), of 4096 512 sampleVolume] f(3) by (simp add: trackerReader_def sampleEnv_def)
  moreover have "map (\<lambda>i. shmView sampleOverlay sampleVolume (4096 + word_of_nat i)) [0..<512] = sampleBoot"
    by (rule nth_equalityI)
      (simp_all add: sample_lengths view diskByte_def off sampleVolume_bytes, simp add: sampleVolume_def)
  moreover have "trackerReader sampleEnv sampleVolume sampleOverlay 512 6144 =
      Inr (map (\<lambda>i. shmView sampleOverlay sampleVolume (6144 + word_of_nat i)) [0..<512])"
    using SHMDisk_ReadAt_view [OF f(1), of 6144 512 sampleVolume] f(3) by (simp add: trackerReader_def sampleEnv_def)
  moreover have "map (\<lambda>i. shmView sampleOverlay sampleVolume (6144 + word_of_nat i)) [0..<512] = sampleMft"
    by (rule nth_equalityI)
      (simp_all add: sample_lengths view diskByte_def off sampleVolume_bytes, simp add: sampleVolume_def)
  ultimately show ?thesis by (simp add: sampleReads_def)
qed

definition sampleSystem :: System where
  "sampleSystem = startSystem sampleVolume sampleOverlay (sampleTrackerAt 4096)"

lemma sample_start: "startMain sampleEnv = Inr sampleSystem"
proof -
  have size: "imageSize sampleVolume = 12288" by (simp add: imageSize_def sampleVolume_def)
  have n: "NewNTFS (samplePartAt 4096) (trackerReader sampleEnv sampleVolume sampleOverlay) = Inr (sampleTrackerAt 4096)"
    by (rule sample_new_at [OF sampleOverlay_reads]) simp
  have i: "initStorage sampleEnv sampleVolume 12288 = Inr (sampleOverlay, sampleTrackerAt 4096)"
    unfolding initStorage_def by (simp add: sampleEnv_def sampleVolume_mbr sampleOverlay_new n [unfolded sampleEnv_def])
  have o: "openImage sampleEnv = Inr (sampleVolume, 12288)"
    unfolding openImage_def by (simp add: sampleEnv_def size)
  have "mountAndStart sampleEnv sampleVolume sampleOverlay (sampleTrackerAt 4096) = Inr sampleSystem"
    unfolding mountAndStart_def using NewSHMDisk_inv(3) [OF sampleOverlay_new]
    by (simp add: sampleEnv_def size mountDiskFS_def sampleSystem_def startSystem_def startPipe_def NewReconciler_def)
  then show ?thesis by (simp add: startMain_def o i)
qed

text \<open>The host writes past the file table.\<close>

definition afterHost :: "WriteEvent \<Rightarrow> SHMDisk \<Rightarrow> System" where
  "afterHost ev s =
     sampleSystem\<lparr>syNode := \<lparr>dnSize = 12288, dnSeq = 1\<rparr>,
       syPipe := (syPipe sampleSystem)\<lparr>ppPipe := afterSubmit (Some ev) NewWritePipeline,
         ppWriter := (syWriter sampleSystem)\<lparr>wShm := s\<rparr>\<rparr>\<rparr>"

lemma sample_fields:
  "syNode sampleSystem = \<lparr>dnSize = 12288, dnSeq = 0\<rparr>" "wShm (syWriter sampleSystem) = sampleOverlay"
  "ppPipe (syPipe sampleSystem) = NewWritePipeline" "rcNtfs (syRec sampleSystem) = sampleTrackerAt 4096"
  using NewSHMDisk_inv(3) [OF sampleOverlay_new] by (simp_all add: sampleSystem_def startSystem_def startPipe_def NewWriter_def)

lemma sample_write:
  assumes "0 < length data" and "length data \<le> 4096"
  obtains ev s where "sysConf ([], sampleSystem) ([SHost data 8192 (Some ev)], afterHost ev s)"
    and "eOffset ev = 8192" and "eData ev = data" and "eSeq ev = 1"
proof -
  have le: "(word_of_nat (length data) :: u64) \<le> 4096"
    using assms(2) by (simp add: word_le_nat_alt unat_of_nat)
  have "unat (8192 + word_of_nat (length data) :: u64) = 8192 + length data"
    using assms(2) unat_add_of_nat [of "8192 :: u64" "length data"] by simp
  then have en: "8192 + word_of_nat (length data) \<le> (12288 :: u64)"
    using assms(2) by (simp add: word_le_nat_alt)
  have "(4096 :: u64) \<le> - 1 - 8192" by simp
  then have small: "\<not> - 1 - 8192 < (word_of_nat (length data) :: u64)" using le by (meson leD order_trans)
  have "\<exists>x s'. StageWrite IoOk data 8192 sampleOverlay = (Inr x, s')"
    using le assms(1) by (simp add: StageWrite_def File_WriteAt_def sampleOverlay_def NewSHMDisk_def Let_def leD)
  then obtain x s' where st: "StageWrite IoOk data 8192 sampleOverlay = (Inr x, s')" by blast
  let ?t = "TouchesMFT (sampleTrackerAt 4096)"
  let ?ev = "\<lparr>eSeq = 1, eOffset = 8192, eData = data, eStaged = x, eTouchesMFT = ?t 8192 (8192 + word_of_nat (length data))\<rparr>"
  have sub: "submitAnswer NewWritePipeline ?ev = Accepted"
    by (simp add: submitAnswer_def Pipeline_SubmitWrite_def NewWritePipeline_def send_def makeChan_def pipelineWriteDepth_def)
  have w: "DiskNode_Write IoOk ?t (submitAnswer NewWritePipeline) data 8192 \<lparr>dnSize = 12288, dnSeq = 0\<rparr> sampleOverlay
      = ((length data, 0, Some ?ev), \<lparr>dnSize = 12288, dnSeq = 1\<rparr>, s')"
    using st sub small en assms(1) by (simp add: DiskNode_Write_def leD)
  have "sysStep sampleSystem (SHost data 8192 (Some ?ev)) (afterHost ?ev s')"
    unfolding afterHost_def sample_fields(3) [symmetric]
    by (rule sysStep.fuse_write [where n = "length data" and errno = 0 and oc = IoOk])
      (use assms(2) NewSHMDisk_inv(4) [OF sampleOverlay_new] w in \<open>simp_all add: sample_fields\<close>)
  then show thesis by (intro that) (auto simp: sysConf_def)
qed


end
