(* ===== verification/Streaming.thy ===== *)
theory Streaming
  imports SystemSpec HubSpec Simulation Startup
begin

text \<open>
  The whole program with its HTTP clients: the storage path (\<open>System\<close>) and the hub (\<open>Hub\<close>) joined at
  the sniffer, which broadcasts the chunks of a write one by one before it passes the write on
  (sniffer.go \<open>run\<close>).  So what a client receives can be traced back to the host's writes.
\<close>

section \<open>The program\<close>

text \<open>
  \<open>prCasts\<close> are the chunks of the write in the sniffer's hands that it has still to broadcast; where it
  is inside \<open>Broadcast\<close> is \<open>hubCast\<close>.
\<close>

record Program =
  prSystem :: System
  prHub :: Hub
  prCasts :: "bytes list"

abbreviation prSniffer :: "Program \<Rightarrow> Sniffer" where
  "prSniffer G \<equiv> ppSniffer (syPipe (prSystem G))"

definition startProgram :: "System \<Rightarrow> Program" where
  "startProgram S = \<lparr>prSystem = S, prHub = NewHub, prCasts = []\<rparr>"

text \<open>Where the sniffer goroutine is; a step of another goroutine does not change it.\<close>

definition snifferAt :: "Sniffer \<Rightarrow> ObservedWrite option \<times> bool" where
  "snifferAt s = (snHeld s, snDone s)"

definition newCasts :: "Sniffer \<Rightarrow> Sniffer \<Rightarrow> bytes list" where
  "newCasts s s' = drop (length (snCast s)) (snCast s')"

inductive progStep :: "Program \<Rightarrow> SysLabel list \<Rightarrow> Program \<Rightarrow> bool" where
  other: "sysStep (prSystem G) l S \<Longrightarrow> snifferAt (ppSniffer (syPipe S)) = snifferAt (prSniffer G) \<Longrightarrow>
    progStep G [l] (G\<lparr>prSystem := S\<rparr>)"
| sniff: "prCasts G = [] \<Longrightarrow> hubCast (prHub G) = OfferIdle \<Longrightarrow>
    perform ActSniff (syPipe (prSystem G)) = Some (l, P) \<Longrightarrow>
    progStep G [SInner l]
      (G\<lparr>prSystem := (prSystem G)\<lparr>syPipe := P\<rparr>, prCasts := newCasts (prSniffer G) (ppSniffer P)\<rparr>)"
| cast: "prCasts G = d # ds \<Longrightarrow> hubCast (prHub G) = OfferIdle \<Longrightarrow>
    progStep G [] (G\<lparr>prHub := Broadcast d (prHub G), prCasts := ds\<rparr>)"
| hub: "hubStep (prHub G) H \<Longrightarrow> hubSent H = hubSent (prHub G) \<Longrightarrow> progStep G [] (G\<lparr>prHub := H\<rparr>)"

definition progConf :: "SysLabel list \<times> Program \<Rightarrow> SysLabel list \<times> Program \<Rightarrow> bool" where
  "progConf c c' \<longleftrightarrow> (\<exists>ls. progStep (snd c) ls (snd c') \<and> fst c' = fst c @ ls)"

section \<open>What the sniffer has broadcast so far\<close>

definition castInv :: "WriteEvent list \<Rightarrow> Sniffer \<Rightarrow> bool" where
  "castInv T s \<longleftrightarrow>
     (\<exists>seen cs. T = seen @ chItems (snIn s) \<and>
        feedAll (hostWrites seen) NewTSScanner = (cs, snScanner s) \<and> snCast s = map tcData cs)"

lemma feedAll_append:
  "feedAll (ws @ ws') s =
     (let (cs, s1) = feedAll ws s; (cs', s2) = feedAll ws' s1 in (cs @ cs', s2))"
  by (induction ws arbitrary: s) (auto simp: Let_def split: prod.split)

lemma feedAll_observe:
  assumes "feedAll (hostWrites evs) s = (cs, s1)" and "observe ev s1 = (casts, ob, s2)"
  obtains out where "feedAll (hostWrites (evs @ [ev])) s = (cs @ out, s2)" and "casts = map tcData out"
proof -
  obtain out flag where F: "Feed (eOffset ev) (eData ev) s1 = (out, flag, s2)" and c: "casts = map tcData out"
    using assms(2) by (auto simp: observe_def Let_def split: prod.splits)
  have "feedAll (hostWrites [ev]) s1 = (out, s2)"
    using F by (simp add: hostWrites_def)
  then have "feedAll (hostWrites (evs @ [ev])) s = (cs @ out, s2)"
    using assms(1) by (simp add: hostWrites_def feedAll_append)
  then show thesis using that c by blast
qed

text \<open>A step of the sniffer takes the next write and emits its chunks, or only moves on.\<close>

lemma sniffer_casts:
  assumes "Sniffer_run_step s = Some s'"
  obtains (took) ev casts ob where "chItems (snIn s) = ev # chItems (snIn s')"
      and "observe ev (snScanner s) = (casts, ob, snScanner s')" and "snCast s' = snCast s @ casts"
      and "snifferAt s' \<noteq> snifferAt s"
    | (moved) "snIn s' = snIn s" and "snScanner s' = snScanner s" and "snCast s' = snCast s"
      and "snifferAt s' \<noteq> snifferAt s"
proof (cases "snHeld s")
  case (Some ob)
  then show thesis
    using assms moved by (auto simp: Sniffer_run_step_def snifferAt_def split: if_splits Attempt.splits)
next
  case None
  show thesis
  proof (cases "recv (snIn s)")
    case (Received ev c)
    obtain casts ob sc where "observe ev (snScanner s) = (casts, ob, sc)"
      by (metis prod.exhaust)
    then show thesis
      using assms None Received recv_items [OF Received]
      by (intro took [of ev casts ob]) (auto simp: Sniffer_run_step_def snifferAt_def split: if_splits)
  qed (use assms None moved in \<open>auto simp: Sniffer_run_step_def snifferAt_def split: if_splits option.splits\<close>)
qed

lemma sniffer_castInv:
  assumes "castInv T s" and "Sniffer_run_step s = Some s'"
  shows "castInv T s'"
proof -
  obtain seen cs where c: "T = seen @ chItems (snIn s)" "feedAll (hostWrites seen) NewTSScanner = (cs, snScanner s)"
      "snCast s = map tcData cs"
    using assms(1) by (auto simp: castInv_def)
  show ?thesis using assms(2)
  proof (cases rule: sniffer_casts)
    case (took ev casts ob)
    obtain out where "feedAll (hostWrites (seen @ [ev])) NewTSScanner = (cs @ out, snScanner s')" "casts = map tcData out"
      by (rule feedAll_observe [OF c(2) took(2)])
    moreover have "T = (seen @ [ev]) @ chItems (snIn s')" using c(1) took(1) by simp
    ultimately show ?thesis
      using c(3) took(3) unfolding castInv_def by (metis map_append)
  next
    case moved
    then show ?thesis using c by (auto simp: castInv_def)
  qed
qed

lemma run_step_casts:
  assumes "run_step pick P = Done P'"
  shows "snCast (ppSniffer P') = snCast (ppSniffer P)" and "snifferAt (ppSniffer P') = snifferAt (ppSniffer P)"
proof -
  have "snCast (ppSniffer P') = snCast (ppSniffer P) \<and> snifferAt (ppSniffer P') = snifferAt (ppSniffer P)"
  proof (cases "dAt (ppDisp P)")
    case AtSelect
    then show ?thesis
      using assms
      by (auto simp: run_step_def select_writes_def select_output_def select_barriers_def Let_def snifferAt_def
          dest: run_return_fields(2) split: if_splits SelectCase.splits RecvResult.splits option.splits)
  next
    case (AtBarrier req)
    then show ?thesis
      using assms by (auto simp: run_step_def handleBarrier_def Let_def split: if_splits RecvResult.splits)
  next
    case AtFinish
    then show ?thesis
      using assms
      by (auto simp: run_step_def run_finish_def snifferAt_def
          dest!: run_return_fields(2) split: Attempt.splits option.splits if_splits)
  qed (use assms in \<open>auto simp: run_step_def snifferAt_def split: Attempt.splits\<close>)
  then show "snCast (ppSniffer P') = snCast (ppSniffer P)" "snifferAt (ppSniffer P') = snifferAt (ppSniffer P)" by simp_all
qed

text \<open>What a step of the storage path does to the sniffer: nothing, a dispatcher step or a sniffer step.\<close>

lemma sysStep_sniffer:
  assumes "sysStep S l S'"
  obtains (idle) "ppSniffer (syPipe S') = ppSniffer (syPipe S)" and "sentBy (pipeLabel l) = []"
    | (dispatcher) pick P where "run_step pick (syPipe S) = Done P" and "S' = S\<lparr>syPipe := P\<rparr>"
      and "l = SInner (runLabel (syPipe S))"
    | (sniffer) P where "perform ActSniff (syPipe S) = Some (LQuiet, P)" and "S' = S\<lparr>syPipe := P\<rparr>"
      and "l = SInner LQuiet"
  using assms
proof cases
  case (fuse_write data oc off n errno evo d s)
  then show thesis by (intro idle) (cases evo; simp)+
next
  case (pipeline a l' P)
  show thesis
  proof (cases a)
    case (ActDispatch pick)
    then show thesis using pipeline dispatcher by (auto split: Attempt.splits)
  next
    case ActSniff
    then show thesis using pipeline sniffer by (auto split: option.splits)
  qed (use pipeline idle in \<open>auto simp: ofAttempt_def split: Attempt.splits option.splits if_splits\<close>)
next
  case (forward_punch b P)
  then have "ppSniffer P = ppSniffer (syPipe S)"
    by (auto simp: runPunches_step_def split: RecvResult.splits Attempt.splits)
  then show thesis using forward_punch by (intro idle) simp_all
qed (use idle in \<open>simp_all add: setPipeline_def\<close>)

lemma sysStep_castInv:
  assumes "castInv (sent (pipeTrace tr)) (ppSniffer (syPipe S))" and "sysStep S l S'"
  shows "castInv (sent (pipeTrace (tr @ [l]))) (ppSniffer (syPipe S'))"
  using assms(2)
proof (cases rule: sysStep_sniffer)
  case idle
  then show ?thesis using assms(1) by simp
next
  case (dispatcher pick P)
  have "chItems (snIn (ppSniffer P)) = chItems (snIn (ppSniffer (syPipe S))) @ sentBy (runLabel (syPipe S))"
    "snScanner (ppSniffer P) = snScanner (ppSniffer (syPipe S))"
    using run_step_queues [OF dispatcher(1)] by (simp_all add: queueStep_def)
  then show ?thesis
    using assms(1) run_step_casts(1) [OF dispatcher(1)] dispatcher(2,3) by (auto simp: castInv_def)
next
  case (sniffer P)
  then obtain s where "Sniffer_run_step (ppSniffer (syPipe S)) = Some s" "ppSniffer P = s"
    by (auto split: option.splits)
  then show ?thesis using sniffer_castInv [OF assms(1)] sniffer(2,3) by simp
qed

lemma reach_castInv:
  assumes "sysReach disk s n tr S"
  shows "castInv (sent (pipeTrace tr)) (ppSniffer (syPipe S))"
  using assms
proof (induction rule: sysReach_induct)
  case start
  then show ?case by (simp add: startSystem_def startPipe_def castInv_def NewSniffer_def sent_def hostWrites_def chan_simps)
next
  case (step tr S l S')
  then show ?case using sysStep_castInv by blast
qed

lemma castInv_chunks:
  assumes "castInv T s"
  obtains seen cs where "T = seen @ chItems (snIn s)" and "feedAll (hostWrites seen) NewTSScanner = (cs, snScanner s)"
    and "snCast s = map tcData cs" and "\<forall>c \<in> set cs. chunkOk c \<and> blockWrote (hostWrites seen) (tcStart c) (tcData c)"
proof -
  obtain seen cs where f: "T = seen @ chItems (snIn s)" "feedAll (hostWrites seen) NewTSScanner = (cs, snScanner s)"
      "snCast s = map tcData cs"
    using assms by (auto simp: castInv_def)
  have "blockWrote (hostWrites seen) (bufferStart NewTSScanner) (buffer NewTSScanner)"
    by (simp add: NewTSScanner_def)
  then show thesis
    using that [OF f] feedAll_wrote [OF tsInv_New f(2), of "hostWrites seen"] by blast
qed

lemma chunkOk_nonempty: "chunkOk c \<Longrightarrow> tcData c \<noteq> []"
  by (auto simp: chunkOk_def)

section \<open>The program is the storage path and a hub\<close>

text \<open>
  Every step is a step of the storage path or none; the hub is in a state of its own system, and was
  given everything the sniffer has found but what it is about to broadcast.
\<close>

definition castsOk :: "Program \<Rightarrow> bool" where
  "castsOk G \<longleftrightarrow>
     hubReachable (prHub G) \<and> hubSent (prHub G) @ prCasts G = snCast (prSniffer G) \<and>
     (snHeld (prSniffer G) = None \<longrightarrow> prCasts G = [])"

definition runsSystem :: "SysLabel list \<times> Program \<Rightarrow> SysLabel list \<times> System \<Rightarrow> bool" where
  "runsSystem c d \<longleftrightarrow> d = (fst c, prSystem (snd c)) \<and> castsOk (snd c)"

lemma other_keeps_casts:
  assumes "sysStep S l S'" and "snifferAt (ppSniffer (syPipe S')) = snifferAt (ppSniffer (syPipe S))"
  shows "snCast (ppSniffer (syPipe S')) = snCast (ppSniffer (syPipe S))"
  using assms(1)
proof (cases rule: sysStep_sniffer)
  case (dispatcher pick P)
  then show ?thesis using run_step_casts(1) by simp
next
  case (sniffer P)
  then have "Sniffer_run_step (ppSniffer (syPipe S)) = Some (ppSniffer (syPipe S'))"
    by (auto split: option.splits)
  then show ?thesis by (cases rule: sniffer_casts) (use assms(2) in simp_all)
qed simp

lemma sniffer_holds:
  "Sniffer_run_step s = Some s' \<Longrightarrow> snCast s' = snCast s \<or> snHeld s' \<noteq> None"
  by (auto simp: Sniffer_run_step_def Let_def split: if_splits option.splits Attempt.splits RecvResult.splits prod.splits)

lemma sniff_casts:
  assumes "castsOk G" and "prCasts G = []" and "perform ActSniff (syPipe (prSystem G)) = Some (l, P)"
  shows "castsOk (G\<lparr>prSystem := (prSystem G)\<lparr>syPipe := P\<rparr>, prCasts := newCasts (prSniffer G) (ppSniffer P)\<rparr>)"
proof -
  have st: "Sniffer_run_step (prSniffer G) = Some (ppSniffer P)"
    using assms(3) by (auto split: option.splits)
  obtain casts where "snCast (ppSniffer P) = snCast (prSniffer G) @ casts"
    using st by (cases rule: sniffer_casts) auto
  then show ?thesis
    using assms(1,2) sniffer_holds [OF st] by (auto simp: castsOk_def newCasts_def)
qed

lemma progStep_matched:
  assumes "castInv T (prSniffer G)" and "castsOk G" and "progStep G ls G'"
  shows "castsOk G' \<and> (ls = [] \<and> prSystem G' = prSystem G \<or> (\<exists>l. ls = [l] \<and> sysStep (prSystem G) l (prSystem G')))"
  using assms(3)
proof cases
  case (other l S)
  then have "snHeld (ppSniffer (syPipe S)) = snHeld (prSniffer G)" by (simp add: snifferAt_def)
  then show ?thesis
    using other assms(2) other_keeps_casts [OF other(3,4)] by (auto simp: castsOk_def)
next
  case (sniff l P)
  have "l = LQuiet" using sniff(5) by (auto split: option.splits)
  have "sysStep (prSystem G) (SInner l) ((prSystem G)\<lparr>syPipe := P\<rparr>)"
    using sniff(5) by (intro sysStep.pipeline [of ActSniff]) simp_all
  then show ?thesis using sniff_casts [OF assms(2) sniff(3,5)] sniff(1,2) by auto
next
  case (cast d ds)
  have "d \<in> set (snCast (prSniffer G))"
    using assms(2) cast(3) unfolding castsOk_def by (metis in_set_conv_decomp)
  then have "d \<noteq> []"
    using assms(1) chunkOk_nonempty by (elim castInv_chunks) auto
  then have "hubSent (Broadcast d (prHub G)) = hubSent (prHub G) @ [d]"
    by (simp add: Broadcast_def)
  moreover have "hubReachable (Broadcast d (prHub G))"
    using assms(2) hubReachable.step [OF _ hubStep.broadcast [OF cast(4)]] by (simp add: castsOk_def)
  ultimately show ?thesis using cast assms(2) by (auto simp: castsOk_def)
next
  case (hub H)
  then show ?thesis using assms(2) hubReachable.step [OF _ hub(3)] by (auto simp: castsOk_def)
qed

interpretation streaming: simulation progConf sysConf runsSystem
    "([], startProgram (startSystem disk s n))" "([], startSystem disk s n)" for disk s n
proof
  show "runsSystem ([], startProgram (startSystem disk s n)) ([], startSystem disk s n)"
    by (simp add: runsSystem_def startProgram_def castsOk_def hubReachable.new startSystem_def startPipe_def
        NewSniffer_def) (simp add: NewHub_def)
  fix d c c'
  assume r: "sysConf\<^sup>*\<^sup>* ([], startSystem disk s n) d" and rel: "runsSystem c d" and st: "progConf c c'"
  have "castInv (sent (pipeTrace (fst c))) (prSniffer (snd c))"
    using reach_castInv [of disk s n "fst c"] r rel by (simp add: runsSystem_def)
  moreover obtain ls where "progStep (snd c) ls (snd c')" "fst c' = fst c @ ls"
    using st by (auto simp: progConf_def)
  ultimately show "\<exists>d'. (d' = d \<or> sysConf d d') \<and> runsSystem c' d'"
    using progStep_matched [of _ "snd c" ls "snd c'"] rel by (auto simp: runsSystem_def sysConf_def)
qed

section \<open>Lemmas\<close>

lemma progReach_system:
  assumes "progConf\<^sup>*\<^sup>* ([], startProgram (startSystem disk s n)) (tr, G)"
  shows "sysReach disk s n tr (prSystem G)" and "castsOk G"
  using streaming.reachable_related [OF assms] by (auto simp: runsSystem_def)

text \<open>The writes sent to the sniffer are the first ones acknowledged.\<close>

lemma sent_acknowledged:
  assumes "shmInv s" and "0 < nextGen s" and "sysReach disk s n tr S"
  shows "sent (pipeTrace tr) = take (length (sent (pipeTrace tr))) (acknowledged tr)"
proof -
  obtain W where "refines (pipeTrace tr, S) W"
    using reach_refines [OF assms] by metis
  from refinesD(1-3) [OF this] show ?thesis
    using sent_is_prefix by (auto simp: pipeInv_def acknowledged_def)
qed

lemma taken_all_seen:
  assumes "shmInv s" and "0 < nextGen s" and "sysReach disk s n tr S"
    and "length (taken tr) = length (acknowledged tr)"
  shows "sent (pipeTrace tr) = acknowledged tr" and "chItems (snIn (ppSniffer (syPipe S))) = []"
    and "snHeld (ppSniffer (syPipe S)) = None"
proof -
  let ?s = "ppSniffer (syPipe S)" and ?T = "sent (pipeTrace tr)"
  note inv = reach_pipeInv [OF assms(1-3)]
  obtain seen where T: "?T = seen @ chItems (snIn ?s)"
      and o: "observeAll seen NewTSScanner = (forwarded (pipeTrace tr) @ forwarding (ppDisp (syPipe S)) @
        chItems (snOut ?s) @ holding ?s, snScanner ?s)"
    using inv by (auto simp: pipeInv_def fifoInv_def)
  have "forwarded (pipeTrace tr) = taken tr @ writesOf (chItems (wIn (syWriter S)))"
    using inv unfolding pipeInv_def taken_def by (metis writesOf_append writesOf_commanded)
  then have "length seen = length (taken tr) + length (writesOf (chItems (wIn (syWriter S)))) +
      length (forwarding (ppDisp (syPipe S))) + length (chItems (snOut ?s)) + length (holding ?s)"
    using observeAll_events [of seen NewTSScanner] o by (metis add.assoc fst_conv length_append length_map)
  moreover have p: "?T = take (length ?T) (acknowledged tr)"
    by (rule sent_acknowledged [OF assms(1-3)])
  then have "length ?T \<le> length (acknowledged tr)" by (metis length_take min.cobounded1)
  ultimately have l: "length seen = length (acknowledged tr)" "chItems (snIn ?s) = []" "holding ?s = []"
    using T assms(4) by auto
  then show "?T = acknowledged tr" using p T by simp
  show "chItems (snIn ?s) = []" by (rule l(2))
  show "snHeld ?s = None" using l(3) by (simp add: holding_def split: option.splits)
qed

definition chunksOf :: "WriteEvent list \<Rightarrow> bytes list" where
  "chunksOf evs = map tcData (fst (feedAll (hostWrites evs) NewTSScanner))"

lemma broadcast_is_prefix:
  assumes "shmInv s" and "0 < nextGen s" and "progConf\<^sup>*\<^sup>* ([], startProgram (startSystem disk s n)) (tr, G)"
  obtains k where "k \<le> length (acknowledged tr)" and "hubSent (prHub G) @ prCasts G = chunksOf (take k (acknowledged tr))"
proof -
  note r = progReach_system [OF assms(3)]
  obtain seen cs where f: "sent (pipeTrace tr) = seen @ chItems (snIn (prSniffer G))"
      "feedAll (hostWrites seen) NewTSScanner = (cs, snScanner (prSniffer G))" "snCast (prSniffer G) = map tcData cs"
    by (rule castInv_chunks [OF reach_castInv [OF r(1)]])
  obtain later where "acknowledged tr = seen @ chItems (snIn (prSniffer G)) @ later"
    using sent_acknowledged [OF assms(1,2) r(1)] f(1) by (metis append.assoc append_take_drop_id)
  then have "length seen \<le> length (acknowledged tr)" "take (length seen) (acknowledged tr) = seen"
    by simp_all
  then show thesis
    using that [of "length seen"] r(2) f(2,3) by (simp add: castsOk_def chunksOf_def)
qed

lemma broadcast_all:
  assumes "shmInv s" and "0 < nextGen s" and "progConf\<^sup>*\<^sup>* ([], startProgram (startSystem disk s n)) (tr, G)"
    and "length (taken tr) = length (acknowledged tr)"
  shows "hubSent (prHub G) = chunksOf (acknowledged tr)"
proof -
  note r = progReach_system [OF assms(3)]
  note all = taken_all_seen [OF assms(1,2) r(1) assms(4)]
  obtain seen cs where "sent (pipeTrace tr) = seen @ chItems (snIn (prSniffer G))"
      "feedAll (hostWrites seen) NewTSScanner = (cs, snScanner (prSniffer G))" "snCast (prSniffer G) = map tcData cs"
    by (rule castInv_chunks [OF reach_castInv [OF r(1)]])
  then show ?thesis
    using all r(2) unfolding castsOk_def chunksOf_def by (metis append_Nil2 fst_conv)
qed

lemma subseq_taken:
  assumes "hubReachable h"
  shows "subseq (clTaken (hubHeap h c)) (hubSent h)"
proof -
  have "subseq (clTaken (hubHeap h c)) (streamOf c h)"
    by (simp add: streamOf_def clientStream_def list_emb_append2 list_emb_prefix)
  then show ?thesis by (rule hubInv_below [OF hubReachable_inv [OF assms]])
qed

section \<open>Properties\<close>

text \<open>
  C4. What an HTTP client receives comes from the host's writes, in their order: from a successful start
  on, under every interleaving, it is a subsequence of the chunks that the scanner finds in the first so
  many acknowledged writes, and every chunk is a run of whole valid packets of which each byte was
  written by the host at the disk position the chunk stands for.
\<close>

theorem clients_receive_host_stream:
  assumes "startMain env = Inr S0" and "progConf\<^sup>*\<^sup>* ([], startProgram S0) (tr, G)"
  shows "(\<exists>k \<le> length (acknowledged tr).
       subseq (clTaken (hubHeap (prHub G) c)) (map tcData (fst (feedAll (hostWrites (take k (acknowledged tr))) NewTSScanner)))) \<and>
     (\<forall>d \<in> set (clTaken (hubHeap (prHub G) c)). \<exists>ch. tcData ch = d \<and> chunkOk ch \<and>
       (\<forall>i < length d. wrote (hostWrites (acknowledged tr)) (tcStart ch + word_of_nat i) (d ! i)))"
proof -
  obtain disk s n where s: "S0 = startSystem disk s n" "shmInv s" "nextGen s = 1"
    by (rule startMain_start [OF assms(1)])
  have g: "0 < nextGen s" using s(3) by simp
  note reach = assms(2) [unfolded s(1)]
  obtain k where k: "k \<le> length (acknowledged tr)" "hubSent (prHub G) @ prCasts G = chunksOf (take k (acknowledged tr))"
    by (rule broadcast_is_prefix [OF s(2) g reach])
  have "subseq (clTaken (hubHeap (prHub G) c)) (hubSent (prHub G))"
    using subseq_taken progReach_system(2) [OF reach] by (simp add: castsOk_def)
  then have sub: "subseq (clTaken (hubHeap (prHub G) c)) (chunksOf (take k (acknowledged tr)))"
    using k(2) by (metis list_emb_prefix)
  obtain cs sc where f: "feedAll (hostWrites (take k (acknowledged tr))) NewTSScanner = (cs, sc)"
    by (metis prod.exhaust)
  have "set (hostWrites (take k (acknowledged tr))) \<subseteq> set (hostWrites (acknowledged tr))"
    by (auto simp: hostWrites_def dest: in_set_takeD)
  moreover have "blockWrote (hostWrites (acknowledged tr)) (bufferStart NewTSScanner) (buffer NewTSScanner)"
    by (simp add: NewTSScanner_def)
  ultimately have "\<forall>ch \<in> set cs. chunkOk ch \<and> blockWrote (hostWrites (acknowledged tr)) (tcStart ch) (tcData ch)"
    using feedAll_wrote [OF tsInv_New f] by blast
  moreover have "set (clTaken (hubHeap (prHub G) c)) \<subseteq> tcData ` set cs"
    using list_emb_set [OF sub] f by (auto simp: chunksOf_def)
  ultimately show ?thesis
    using k(1) sub unfolding chunksOf_def blockWrote_def by blast
qed


section \<open>Witnesses\<close>

text \<open>Runs of the storage path without the sniffer and runs of the hub are runs of the program.\<close>

lemma prog_actions:
  assumes "progConf\<^sup>*\<^sup>* c (tr, G)" and "performAll as Q = Some (ls, P)"
    and "list_all (\<lambda>a. \<exists>pick. a = ActDispatch pick) as" and "syPipe (prSystem G) = Q"
  shows "progConf\<^sup>*\<^sup>* c (tr @ map SInner ls, G\<lparr>prSystem := (prSystem G)\<lparr>syPipe := P\<rparr>\<rparr>)"
  using assms
proof (induction "as" arbitrary: tr G ls Q)
  case (Cons a as)
  then obtain pick l P1 ls' where a: "a = ActDispatch pick" "perform a (syPipe (prSystem G)) = Some (l, P1)"
      and r: "performAll as P1 = Some (ls', P)" "ls = l # ls'"
    by (auto split: option.splits)
  have "snifferAt (ppSniffer P1) = snifferAt (prSniffer G)"
    using a run_step_casts(2) by (auto split: Attempt.splits)
  then have "progConf (tr, G) (tr @ [SInner l], G\<lparr>prSystem := (prSystem G)\<lparr>syPipe := P1\<rparr>\<rparr>)"
    using progStep.other [OF sysStep.pipeline [OF _ a(2)]] a(1) by (auto simp: progConf_def)
  then have "progConf\<^sup>*\<^sup>* c (tr @ [SInner l], G\<lparr>prSystem := (prSystem G)\<lparr>syPipe := P1\<rparr>\<rparr>)"
    using Cons.prems(1) by (rule rtranclp.rtrancl_into_rtrancl [rotated])
  from Cons.IH [OF this r(1)] r(2) Cons.prems(3) show ?case by simp
next
  case Nil
  then have "P = syPipe (prSystem G)" "ls = []" by simp_all
  moreover have "G\<lparr>prSystem := (prSystem G)\<lparr>syPipe := syPipe (prSystem G)\<rparr>\<rparr> = G" by simp
  ultimately show ?case using Nil.prems(1) by (simp only: list.map append_Nil2)
qed

definition quietHub :: "Hub \<Rightarrow> Hub \<Rightarrow> bool" where
  "quietHub h h' \<longleftrightarrow> hubStep h h' \<and> hubSent h' = hubSent h"

lemma prog_hub:
  assumes "progConf\<^sup>*\<^sup>* c (tr, G)" and "quietHub\<^sup>*\<^sup>* (prHub G) H"
  shows "progConf\<^sup>*\<^sup>* c (tr, G\<lparr>prHub := H\<rparr>)"
  using assms(2)
proof (induction rule: rtranclp_induct)
  case base
  then show ?case using assms(1) by simp
next
  case (step H H')
  have "progStep (G\<lparr>prHub := H\<rparr>) [] ((G\<lparr>prHub := H\<rparr>)\<lparr>prHub := H'\<rparr>)"
    by (rule progStep.hub) (use step.hyps(2) in \<open>simp_all add: quietHub_def\<close>)
  then have "progConf (tr, G\<lparr>prHub := H\<rparr>) (tr, G\<lparr>prHub := H'\<rparr>)"
    by (simp add: progConf_def)
  then show ?case using step.IH by (rule rtranclp.rtrancl_into_rtrancl [rotated])
qed

text \<open>With one client the hub delivers a chunk in seven steps.\<close>

lemma hub1_delivers:
  assumes "d \<noteq> []"
  obtains H where "quietHub\<^sup>*\<^sup>* (Broadcast d hub1) H" and "hubCast H = OfferIdle" and "clTaken (hubHeap H 0) = [d]"
    and "hubSent H = [d]"
proof -
  note ev = hub1_def Register_def NewHub_def newClient_def Broadcast_def send_def recv_def makeChan_def hubQueueDepth_def
    clientInboxDepth_def clientOutDepth_def
  define h where "h = Broadcast d hub1"
  define a where "a = the (Broadcast_select h)"
  define b where "b = the (dispatchLoop_take [0] a)"
  define c where "c = the (dispatch_step b)"
  define e where "e = the (dispatch_step c)"
  define f where "f = onClient 0 (the (drain_take (hubHeap e 0))) e"
  define g where "g = onClient 0 (the (drain_select (hubHeap f 0))) f"
  define i where "i = onClient 0 (the (handler_take (hubHeap g 0))) g"
  note st = i_def g_def f_def e_def c_def b_def a_def h_def Broadcast_select_def dispatchLoop_take_def dispatch_step_def
    drain_take_def drain_select_def handler_take_def onClient_def
  have "quietHub h a" unfolding quietHub_def
    by (intro conjI hubStep.broadcast_select) (use assms in \<open>simp_all add: st ev\<close>)
  moreover have "quietHub a b" unfolding quietHub_def
    by (intro conjI hubStep.take [of _ "[0]"]) (use assms in \<open>simp_all add: st ev\<close>)
  moreover have "quietHub b c" unfolding quietHub_def
    by (intro conjI hubStep.dispatch) (use assms in \<open>simp_all add: st ev\<close>)
  moreover have "quietHub c e" unfolding quietHub_def
    by (intro conjI hubStep.dispatch) (use assms in \<open>simp_all add: st ev\<close>)
  moreover have "quietHub e f" unfolding quietHub_def f_def
    by (intro conjI hubStep.drain_take) (use assms in \<open>simp_all add: st ev\<close>)
  moreover have "quietHub f g" unfolding quietHub_def g_def
    by (intro conjI hubStep.drain_select) (use assms in \<open>simp_all add: st ev\<close>)
  moreover have "quietHub g i" unfolding quietHub_def i_def
    by (intro conjI hubStep.handler) (use assms in \<open>simp_all add: st ev\<close>)
  ultimately have "quietHub\<^sup>*\<^sup>* h i" by (meson rtranclp.rtrancl_into_rtrancl rtranclp.rtrancl_refl)
  moreover have "hubCast i = OfferIdle" "clTaken (hubHeap i 0) = [d]" "hubSent i = [d]"
    using assms by (simp_all add: st ev)
  ultimately show thesis using that by (simp add: h_def)
qed

lemma prog_step:
  assumes "progConf\<^sup>*\<^sup>* c (tr, G)" and "progStep G ls G'"
  shows "progConf\<^sup>*\<^sup>* c (tr @ ls, G')"
proof -
  have "progConf (tr, G) (tr @ ls, G')" using assms(2) by (auto simp: progConf_def)
  then show ?thesis using assms(1) by (rule rtranclp.rtrancl_into_rtrancl [rotated])
qed

text \<open>What dispatcher and sniffer do with one write of ten packets, up to the writer's queue.\<close>

lemma recording_segments:
  fixes ev s
  defines "P0 \<equiv> syPipe (afterHost ev s)"
  assumes ev: "eOffset ev = 8192" "eData ev = sampleStream 10" "eSeq ev = 1"
  obtains P1 P2 P3 P4 ob c where "performAll [ActDispatch PickWrites, ActDispatch PickWrites] P0 = Some ([LQuiet, LSent ev], P1)"
    and "perform ActSniff P1 = Some (LQuiet, P2)" and "newCasts (ppSniffer P1) (ppSniffer P2) = [sampleStream 10]"
    and "perform ActSniff P2 = Some (LQuiet, P3)" and "newCasts (ppSniffer P2) (ppSniffer P3) = []"
    and "performAll [ActDispatch PickOutput, ActDispatch PickOutput] P3 = Some ([LQuiet, LForward ob], P4)"
    and "recv (wIn (ppWriter P4)) = Received (writerWrite ob) c" and "oMPEGTS ob"
proof -
  obtain sc where "Feed 8192 (sampleStream 10) NewTSScanner =
      ([\<lparr>tcStart = 8192, tcEnd = 8192 + 1880, tcData = sampleStream 10\<rparr>], True, sc)"
    using sample_stream_emitted by blast
  then obtain ob where ob: "observe ev NewTSScanner = ([sampleStream 10], ob, sc)" "oEvent ob = ev" "oMPEGTS ob"
    using ev by (simp add: observe_def)
  have P0: "P0 = \<lparr>ppPipe = NewWritePipeline\<lparr>plWrites := (makeChan pipelineWriteDepth)\<lparr>chItems := [ev]\<rparr>\<rparr>,
      ppDisp = startDispatcher, ppSniffer = NewSniffer, ppWriter = (NewWriter sampleVolume sampleOverlay)\<lparr>wShm := s\<rparr>\<rparr>"
    by (simp add: P0_def afterHost_def sampleSystem_def startSystem_def startPipe_def afterSubmit_def Pipeline_SubmitWrite_def
        NewWritePipeline_def send_def makeChan_def pipelineWriteDepth_def)
  have "\<exists>P1 P2 P3 P4 c. performAll [ActDispatch PickWrites, ActDispatch PickWrites] P0 = Some ([LQuiet, LSent ev], P1) \<and>
      perform ActSniff P1 = Some (LQuiet, P2) \<and> newCasts (ppSniffer P1) (ppSniffer P2) = [sampleStream 10] \<and>
      perform ActSniff P2 = Some (LQuiet, P3) \<and> newCasts (ppSniffer P2) (ppSniffer P3) = [] \<and>
      performAll [ActDispatch PickOutput, ActDispatch PickOutput] P3 = Some ([LQuiet, LForward ob], P4) \<and>
      recv (wIn (ppWriter P4)) = Received (writerWrite ob) c"
    using ob ev(3) by (simp add: P0 run_eval newCasts_def)
  then show thesis using that ob(3) by blast
qed

text \<open>A client is connected, the host writes ten packets, the client gets them and the writer discards the write.\<close>

lemma recording_run:
  obtains tr G ev where "progConf\<^sup>*\<^sup>* ([], startProgram sampleSystem) (tr, G)" and "acknowledged tr = [ev]"
    and "eOffset ev = 8192" and "eData ev = sampleStream 10" and "length (taken tr) = 1"
    and "clTaken (hubHeap (prHub G) 0) = [sampleStream 10]"
proof -
  let ?d = "sampleStream 10"
  let ?R = "\<lambda>tr S h cs. progConf\<^sup>*\<^sup>* ([], startProgram sampleSystem) (tr, \<lparr>prSystem = S, prHub = h, prCasts = cs\<rparr>)"
  have len: "length ?d = 1880" using length_sampleStream [of 10] by simp
  obtain ev s where w: "sysConf ([], sampleSystem) ([SHost ?d 8192 (Some ev)], afterHost ev s)"
      and ev: "eOffset ev = 8192" "eData ev = ?d" "eSeq ev = 1"
    by (rule sample_write [of ?d]) (use len in simp_all)
  obtain P1 P2 P3 P4 ob c
    where a1: "performAll [ActDispatch PickWrites, ActDispatch PickWrites] (syPipe (afterHost ev s)) = Some ([LQuiet, LSent ev], P1)"
      and s1: "perform ActSniff P1 = Some (LQuiet, P2)" "newCasts (ppSniffer P1) (ppSniffer P2) = [?d]"
      and s2: "perform ActSniff P2 = Some (LQuiet, P3)" "newCasts (ppSniffer P2) (ppSniffer P3) = []"
      and a2: "performAll [ActDispatch PickOutput, ActDispatch PickOutput] P3 = Some ([LQuiet, LForward ob], P4)"
      and q: "recv (wIn (ppWriter P4)) = Received (writerWrite ob) c" "oMPEGTS ob"
    by (rule recording_segments [OF ev])
  let ?S = "\<lambda>P. (afterHost ev s)\<lparr>syPipe := P\<rparr>" and ?t = "[SHost ?d 8192 (Some ev)]"
  note simps = startProgram_def hub1_def Register_def NewHub_def
  have "quietHub NewHub hub1"
    using hubStep.register [of NewHub 0 hub1] by (simp add: quietHub_def simps)
  then have "?R [] sampleSystem hub1 []"
    using prog_hub [of _ "[]" "startProgram sampleSystem" hub1] by (simp add: startProgram_def r_into_rtranclp)
  from prog_step [OF this progStep.other] w have r: "?R ?t (afterHost ev s) hub1 []"
    by (simp add: sysConf_def afterHost_def)
  have r: "?R (?t @ [SInner LQuiet, SInner (LSent ev)]) (?S P1) hub1 []"
    using prog_actions [OF r a1] by simp
  have r: "?R (?t @ [SInner LQuiet, SInner (LSent ev), SInner LQuiet]) (?S P2) hub1 [?d]"
    using prog_step [OF r progStep.sniff, of LQuiet P2] s1 by (simp add: simps)
  have r: "?R (?t @ [SInner LQuiet, SInner (LSent ev), SInner LQuiet]) (?S P2) (Broadcast ?d hub1) []"
    using prog_step [OF r progStep.cast] by (simp add: simps)
  obtain H where H: "quietHub\<^sup>*\<^sup>* (Broadcast ?d hub1) H" "hubCast H = OfferIdle" "clTaken (hubHeap H 0) = [?d]"
    by (rule hub1_delivers [of ?d]) (use len in auto)
  have r: "?R (?t @ [SInner LQuiet, SInner (LSent ev), SInner LQuiet]) (?S P2) H []"
    using prog_hub [OF r, of H] H(1) by simp
  have r: "?R (?t @ [SInner LQuiet, SInner (LSent ev), SInner LQuiet, SInner LQuiet]) (?S P3) H []"
    using prog_step [OF r progStep.sniff, of LQuiet P3] s2 H(2) by simp
  have r: "?R (?t @ [SInner LQuiet, SInner (LSent ev), SInner LQuiet, SInner LQuiet, SInner LQuiet, SInner (LForward ob)]) (?S P4) H []"
    using prog_actions [OF r a2] by simp
  have "\<exists>S. sysStep (?S P4) (SDiscard ob) S \<and> ppSniffer (syPipe S) = ppSniffer P4"
    using sysStep.writer_discard [of "?S P4" ob c quietIo] q
    by (auto simp: afterHost_def sampleSystem_def startSystem_def)
  then obtain S where "sysStep (?S P4) (SDiscard ob) S" "ppSniffer (syPipe S) = ppSniffer P4" by blast
  then have "?R (?t @ [SInner LQuiet, SInner (LSent ev), SInner LQuiet, SInner LQuiet, SInner LQuiet, SInner (LForward ob), SDiscard ob]) S H []"
    using prog_step [OF r progStep.other, of "SDiscard ob" S] by simp
  then show thesis
    by (rule that) (use ev H(3) in \<open>simp_all add: acknowledged_def taken_def histories\<close>)
qed

theorem clients_receive_host_stream_witness:
  "\<exists>tr G ch. progConf\<^sup>*\<^sup>* ([], startProgram sampleSystem) (tr, G) \<and> clTaken (hubHeap (prHub G) 0) = [sampleStream 10] \<and>
     tcData ch = sampleStream 10 \<and> chunkOk ch"
proof -
  obtain tr G where r: "progConf\<^sup>*\<^sup>* ([], startProgram sampleSystem) (tr, G)" "clTaken (hubHeap (prHub G) 0) = [sampleStream 10]"
    by (rule recording_run)
  then show ?thesis using clients_receive_host_stream [OF sample_start r(1), of 0] by auto
qed


end
