(* ===== verification/Spec2Isabelle.thy ===== *)
theory Spec2Isabelle
  imports Prelude Ranges Shm ShmSpec MpegTS MpegTSSpec Types History Writer WriterSpec Hub HubSpec Sniffer Mbr
    NtfsParse NtfsParseSpec Ntfs NtfsSpec Reconcile Fuse Pipeline PipelineSpec PipelineRuns
    PipelineProgress PipelineDeadlock WriteBack Simulation System SystemSpec SystemProgress SystemShutdown
    UsbGadget Lifecycle Startup Streaming
begin

text \<open>
  Verification of tssniff, a program that offers a disk image to a set-top box as a USB disk, copies
  the MPEG-TS recordings the box writes to HTTP clients, and keeps the image sparse by not storing
  them.

  \<^bold>\<open>The program and its parts.\<close>  A host write enters at FUSE (fuse.go), is staged in an overlay in
  shared memory (shm.go) and acknowledged at once.  The pipeline (pipeline.go) puts the writes back into
  the order of their sequence numbers and sends them through the sniffer (sniffer.go), whose scanner
  (mpegts.go) finds the TS packets and hands them to the hub (hub.go) for the HTTP clients
  (httpserver.go).  The observed writes go to the writer (writer.go), which stores them in the image
  and releases the overlay (a recognised TS write is only released), and to the reconciler
  (reconcile.go), which matches the captured ranges with the data ranges of the NTFS tracker (ntfs.go,
  mbr.go) and asks the writer to punch holes.  main.go starts and stops the parts, usb_gadget.go
  describes the disk to the kernel.

  \<^bold>\<open>Theories.\<close>
    \<^item> \<open>Prelude\<close>: widths, Go errors, \<open>os.File\<close> with the outcome of each system call as an argument,
      little-endian fields, lemmas on words and lists.  \<open>Types\<close>: types.go and Go channels.
    \<^item> \<open>Ranges\<close>: the range lists of ntfs.go (\<open>coalesceByteRanges\<close>, \<open>subtractRanges\<close>,
      \<open>rangesOverlapSnapshot\<close>), exact as sets of bytes and with a unique normal form.
    \<^item> \<open>Shm\<close>, \<open>ShmSpec\<close>: the overlay; every operation, its invariant, what each does to the volume that a
      reader sees (\<open>shmView\<close>).  The locale \<open>volume\<close> is the \<open>io.ReaderAt\<close> contract the tracker and
      FUSE rely on, interpreted on the overlay.
    \<^item> \<open>MpegTS\<close>, \<open>MpegTSSpec\<close>: the scanner; a valid stream comes out complete however it is cut into
      writes, and every chunk consists of bytes the host wrote there.
    \<^item> \<open>History\<close>: bounded ring histories as a locale, interpreted on the writer's recent writes
      (\<open>WriterSpec\<close>) and on the capture journal (\<open>Reconcile\<close>).
    \<^item> \<open>Writer\<close>, \<open>WriterSpec\<close>: the writer's handlers and goroutine; punches never destroy a remembered
      newer write, a closed writer drains both queues.
    \<^item> \<open>Hub\<close>, \<open>HubSpec\<close>: the hub as an interleaving of its selects; no panic, streams in order.
    \<^item> \<open>Sniffer\<close>: the sniffer's loop and the correctness of its captures.
    \<^item> \<open>Mbr\<close>, \<open>NtfsParse\<close>, \<open>NtfsParseSpec\<close>, \<open>Ntfs\<close>, \<open>NtfsSpec\<close>: partition table, NTFS record parsers
      (no panic on any disk content, run-list round trip), the tracker and its invariant.
    \<^item> \<open>Reconcile\<close>: journal and reconciler; the punches asked for are captured file data, and all of it.
    \<^item> \<open>Fuse\<close>: the file operations of the mount.
    \<^item> \<open>Pipeline\<close>, \<open>PipelineSpec\<close>, \<open>PipelineRuns\<close>: the dispatcher as a step function, all interleavings
      with the goroutines around it as traces of labelled steps, the ordering theorems, and concrete
      runs (as executable schedules) in which a flush or the shutdown does not do what is intended.
    \<^item> \<open>PipelineProgress\<close>, \<open>PipelineDeadlock\<close>: no goroutine panics; left alone the pipeline comes to rest within a
      number of steps given by a measure of the queued work; the states of rest are classified (all
      done, a barrier waiting for the host, a returned dispatcher, a deadlock between dispatcher and
      sniffer), and a run of 2050 ordinary writes reaches the deadlock.
    \<^item> \<open>WriteBack\<close>: the abstract contract of the storage path, a write-back cache, and its correctness.
      \<open>Simulation\<close>: simulation between transition systems as a locale.  \<open>System\<close>: FUSE, pipeline,
      sniffer, writer, reconciler with its tracker and punch path interleaved over one overlay and
      image; they refine \<open>WriteBack\<close> (an interpretation of \<open>simulation\<close>).  The trace of a run tells what
      was acknowledged and which bytes were given up (\<open>givenUp\<close>).
    \<^item> \<open>SystemSpec\<close>: end to end, the host reads what it wrote wherever nothing was given up; only refused
      writes and recognised or captured MPEG-TS are given up; the image is at every moment a prefix of
      the acknowledged history; and a run in which a read overlaps the release of a write and misses it.
    \<^item> \<open>SystemProgress\<close>: the whole program never panics and, left alone, comes to rest (a lexicographic
      measure: the writes on their way, then the punches); at rest every acknowledged write has been
      taken, unless 2050 were outstanding.  \<open>SystemShutdown\<close>: a shutdown of an idle program completes.
    \<^item> \<open>Startup\<close>: the command line, and the storage and workers that \<open>main\<close> sets up, composed from the other
      models: a successful start is the start of \<open>System\<close>, so the guarantees hold for every run of the
      program.
    \<^item> \<open>Streaming\<close>: \<open>System\<close> and \<open>Hub\<close> joined at the sniffer, which broadcasts the chunks of a write one by
      one.  Its runs project to those of \<open>System\<close> (an interpretation of \<open>simulation\<close>).  What a client
      receives are bytes of acknowledged writes, in their order, and a recording is broadcast complete.
    \<^item> \<open>UsbGadget\<close>, \<open>Lifecycle\<close>: the sequences of calls of usb_gadget.go, main.go and the handler of
      httpserver.go, over every outcome of the calls.

  \<^bold>\<open>Conventions.\<close>  \<open>uint64\<close> is \<open>64 word\<close> and wraps; \<open>int64\<close> is the same word read with \<open>sint\<close>.  A method
  that takes a lock for its whole body is one step; a goroutine's blocking operations are one step
  each, and an operation that has to wait has no step (\<open>Blocks\<close>).  A panic is a value (\<open>Panics\<close>, \<open>Panic\<close>,
  \<open>None\<close>).  The results of system calls (\<open>IoOutcome\<close>, \<open>WriterIo\<close>, \<open>Kernel\<close>), the choices of \<open>select\<close> and the
  order of iteration over Go maps are arguments, so the theorems hold for all of them.  Logging is left
  out.

  \<^bold>\<open>Termination and bounds.\<close>  Loops are total functions with measures (bytes left to read, bytes left to
  scan, packets left); there is no fuel except in \<open>writerRun\<close>, where the number of steps is counted and
  \<open>writer_drains\<close> gives a number that is enough.  The goroutines of the pipeline and of the whole
  program are relations, whose runs without a request from the host are proved to end.  The one bound assumed is that the 64-bit generation
  counter of the overlay does not wrap; the sequence numbers of the host writes are bounded by it.
  Go slices are shorter than \<open>2 ^ 63\<close>.

  \<^bold>\<open>Host writes.\<close>  The mount asks for direct I/O without parallel writes, so the kernel sends one write
  to the file at a time, and \<open>DiskNode_Write\<close> is one step of \<open>System\<close>.  A read has two moments: it
  reads the image, then takes the overlay's lock; the theorems on reads take the image as an argument
  of its own, which may be an earlier one.

  \<^bold>\<open>Not modelled.\<close>  The go-fuse server, \<open>net/http\<close> and the listener, the delivery of signals (the call
  \<open>AwaitSignal\<close>), the kernel's behaviour behind configfs (a parameter) and log messages.  In \<open>System\<close> the
  reconciler's work on one observation is one step that reads an arbitrary volume, which need not
  be the real one (that may change between its reads), but answers a repeated request in the same way; the sniffer's broadcasts of one write
  are one step there, and separate steps in \<open>Streaming\<close>.
\<close>

end
